(* ===== verification/Prelude.thy ===== *)
theory Prelude
  imports Complex_Main "HOL-Library.Word" "HOL-Library.Log_Nat"
begin

text \<open>
  Shared vocabulary of the development: the collections that the component proofs extend,
  C's truncating integer division, log messages, and the contracts that several modules of
  the gateway share as locales:
  \<^item> \<open>edge_logger\<close>: a state change is logged once (used by every module that logs failures),
  \<^item> \<open>aligned_timer\<close>: a periodic deadline that is advanced past the current time in whole
    periods (used by eval.c and mqtt_logger.c),
  \<^item> \<open>byte_codec\<close>: a fixed width encoding into a list of bytes or registers (used by can.c, mb.c
    and sunspec.c).
\<close>

unbundle bit_operations_syntax

named_theorems conf_simps "defining equations of the dispatcher (uvrgw_conf.c)"
named_theorems counter_simps "defining equations of counter.c"
named_theorems can_simps "defining equations of can.c"
named_theorems mb_simps "defining equations of mb.c"
named_theorems eval_simps "defining equations of eval.c"

type_synonym u8 = "8 word"
type_synonym u16 = "16 word"
type_synonym u32 = "32 word"
type_synonym ticks = int \<comment> \<open>milliseconds of CLOCK_MONOTONIC (\<open>int64_t\<close>)\<close>

subsection \<open>Log messages\<close>

text \<open>A call of \<open>syslog\<close>: its priority and the fixed part of its message.\<close>

datatype priority = LOG_ERR | LOG_WARNING | LOG_INFO | LOG_DEBUG

type_synonym logmsg = "priority \<times> string"

subsection \<open>C integer division (truncates towards zero)\<close>

definition c_div :: "int \<Rightarrow> int \<Rightarrow> int" where
  "c_div a b = sgn a * sgn b * (\<bar>a\<bar> div \<bar>b\<bar>)"

definition c_mod :: "int \<Rightarrow> int \<Rightarrow> int" where
  "c_mod a b = a - c_div a b * b"

lemma c_div_nonneg [simp]: "0 \<le> a \<Longrightarrow> 0 < b \<Longrightarrow> c_div a b = a div b"
  by (cases "a = 0") (simp_all add: c_div_def)

lemma c_mod_nonneg [simp]: "0 \<le> a \<Longrightarrow> 0 < b \<Longrightarrow> c_mod a b = a mod b"
  by (simp add: c_mod_def minus_div_mult_eq_mod)

text \<open>
  The value of an \<open>int\<close> that a 32-bit machine gets for a sum outside the range of the type (undefined in
  C; gcc's code for the sums modelled with \<open>s32\<close> wraps). \<open>s32\<close> stands at the additions whose overflow a
  check of the configuration depends on.
\<close>

definition s32 :: "int \<Rightarrow> int" where
  "s32 x = (x + 2147483648) mod 4294967296 - 2147483648"

lemma s32_word: "s32 x = sint (word_of_int x :: 32 word)"
  by (simp add: s32_def sint_sbintrunc' signed_take_bit_eq_take_bit_shift take_bit_eq_mod)

lemma s32_id: "- 2147483648 \<le> x \<Longrightarrow> x \<le> 2147483647 \<Longrightarrow> s32 x = x"
  by (simp add: s32_def)

lemma div_less_of_mult: "(x::int) < k * p \<Longrightarrow> 0 < p \<Longrightarrow> x div p < k"
proof (rule ccontr)
  assume a: "x < k * p" "0 < p" "\<not> x div p < k"
  then have "k * p \<le> x div p * p" by (simp add: mult_right_mono)
  also have "\<dots> \<le> x" using div_mult_mod_eq [of x p] pos_mod_sign [OF a(2), of x] by linarith
  finally show False using a(1) by simp
qed

subsection \<open>Lists\<close>

definition in_range :: "int \<Rightarrow> 'a list \<Rightarrow> bool" where
  "in_range i xs \<longleftrightarrow> 0 \<le> i \<and> i < int (length xs)"

text \<open>The elements of an array with their indices.\<close>

fun enum :: "nat \<Rightarrow> 'a list \<Rightarrow> (nat \<times> 'a) list" where
  "enum i [] = []"
| "enum i (x # xs) = (i, x) # enum (Suc i) xs"

text \<open>An option of a value, else that of its section.\<close>

definition given :: "'a option \<Rightarrow> 'a \<Rightarrow> 'a" where
  "given opt dflt = (case opt of Some x \<Rightarrow> x | None \<Rightarrow> dflt)"

text \<open>Overwrite a field of a buffer, as \<open>memcpy(buf + pos, bs, length bs)\<close> does.\<close>

definition splice :: "nat \<Rightarrow> 'a list \<Rightarrow> 'a list \<Rightarrow> 'a list" where
  "splice pos bs buf = take pos buf @ bs @ drop (pos + length bs) buf"

definition slice :: "nat \<Rightarrow> nat \<Rightarrow> 'a list \<Rightarrow> 'a list" where
  "slice pos len buf = take len (drop pos buf)"

lemma length_splice [simp]:
  "pos + length bs \<le> length buf \<Longrightarrow> length (splice pos bs buf) = length buf"
  by (simp add: splice_def)

lemma length_slice [simp]: "pos + len \<le> length buf \<Longrightarrow> length (slice pos len buf) = len"
  by (simp add: slice_def)

lemma slice_splice_same [simp]:
  "pos + length bs \<le> length buf \<Longrightarrow> slice pos (length bs) (splice pos bs buf) = bs"
  by (simp add: slice_def splice_def)

lemma nth_splice:
  "pos + length bs \<le> length buf \<Longrightarrow> i < length buf \<Longrightarrow>
    splice pos bs buf ! i = (if pos \<le> i \<and> i < pos + length bs then bs ! (i - pos) else buf ! i)"
  by (auto simp: splice_def nth_append min_def)

lemma slice_splice_other:
  assumes "pos + length bs \<le> length buf" "p + len \<le> length buf"
    and "p + len \<le> pos \<or> pos + length bs \<le> p"
  shows "slice p len (splice pos bs buf) = slice p len buf"
proof (rule nth_equalityI)
  show "length (slice p len (splice pos bs buf)) = length (slice p len buf)"
    using assms by simp
next
  fix i assume "i < length (slice p len (splice pos bs buf))"
  then have "i < len" using assms by simp
  then show "slice p len (splice pos bs buf) ! i = slice p len buf ! i"
    using assms by (auto simp: slice_def nth_splice)
qed

subsection \<open>Logging on state changes\<close>

text \<open>
  Many operations log a failure once and its end once, with a flag that remembers the last
  outcome. \<open>step ok s\<close> is the operation run with the outcome \<open>ok\<close>.
\<close>

definition count_changes :: "bool \<Rightarrow> bool list \<Rightarrow> nat" where
  "count_changes b oks = length (filter (\<lambda>(x, y). x \<noteq> y) (zip (b # oks) oks))"

lemma count_changes_simps [simp]:
  "count_changes b [] = 0"
  "count_changes b (x # xs) = (if b = x then 0 else 1) + count_changes x xs"
  by (auto simp: count_changes_def)

lemma count_changes_same: "count_changes b (replicate n b) = 0"
  by (induction n) simp_all

locale edge_logger =
  fixes failed :: "'s \<Rightarrow> bool"
    and step :: "bool \<Rightarrow> 's \<Rightarrow> 's \<times> logmsg list"
  assumes failed_step: "failed (fst (step ok s)) \<longleftrightarrow> \<not> ok"
    and log_step: "length (snd (step ok s)) = (if ok = failed s then 1 else 0)"
begin

fun run :: "bool list \<Rightarrow> 's \<Rightarrow> 's \<times> logmsg list" where
  "run [] s = (s, [])"
| "run (ok # oks) s =
     (let (s', l) = step ok s; (s'', ls) = run oks s' in (s'', l @ ls))"

lemma failed_run: "failed (fst (run oks s)) \<longleftrightarrow> (if oks = [] then failed s else \<not> last oks)"
proof (induction oks arbitrary: s)
  case Nil
  then show ?case by simp
next
  case (Cons ok oks)
  then show ?case
    by (auto simp: Let_def case_prod_beta failed_step)
qed

text \<open>One message per change of the outcome, none while it stays the same.\<close>

lemma log_once_per_change: "length (snd (run oks s)) = count_changes (\<not> failed s) oks"
proof (induction oks arbitrary: s)
  case Nil
  then show ?case by simp
next
  case (Cons ok oks)
  then show ?case
    by (auto simp: Let_def case_prod_beta failed_step log_step)
qed

lemma no_log_while_failing:
  "failed s \<Longrightarrow> snd (run (replicate n False) s) = []"
  using log_once_per_change [of "replicate n False" s] by (simp add: count_changes_same)

end

subsection \<open>Deadlines that advance in whole periods\<close>

text \<open>
  \<open>advance period now next\<close> is the new deadline after the deadline \<open>next\<close> was found to have
  expired at the time \<open>now\<close>. Deadlines stay whole periods away from every \<open>base\<close> that is \<open>anchored\<close>.
\<close>

locale aligned_timer =
  fixes advance :: "int \<Rightarrow> int \<Rightarrow> int \<Rightarrow> int"
    and anchored :: "int \<Rightarrow> bool"
  assumes advance_future: "0 < period \<Longrightarrow> 0 \<le> next \<Longrightarrow> next \<le> now \<Longrightarrow> now < advance period now next"
    and advance_soon: "0 < period \<Longrightarrow> 0 \<le> next \<Longrightarrow> next \<le> now \<Longrightarrow> advance period now next \<le> now + period"
    and advance_aligned: "anchored base \<Longrightarrow> 0 < period \<Longrightarrow> 0 \<le> next \<Longrightarrow> next \<le> now \<Longrightarrow> period dvd next - base \<Longrightarrow>
      period dvd advance period now next - base"
begin

text \<open>Fire at the times of a list at which the deadline has expired.\<close>

fun fires :: "int \<Rightarrow> int \<Rightarrow> int list \<Rightarrow> int list" where
  "fires period next [] = []"
| "fires period next (now # nows) =
     (if next \<le> now then now # fires period (advance period now next) nows
      else fires period next nows)"

lemma advance_nonneg: "0 < period \<Longrightarrow> 0 \<le> next \<Longrightarrow> next \<le> now \<Longrightarrow> 0 \<le> advance period now next"
  using advance_future [of period "next" now] by linarith

lemma fires_after:
  assumes "0 < period" "0 \<le> next" "t \<in> set (fires period next nows)"
  shows "next \<le> t"
  using assms
proof (induction nows arbitrary: "next")
  case Nil
  then show ?case by simp
next
  case (Cons now nows)
  show ?case
  proof (cases "next \<le> now")
    case True
    then show ?thesis
      using Cons advance_nonneg [OF Cons.prems(1,2) True] advance_future [OF Cons.prems(1,2) True]
      by fastforce
  next
    case False
    then show ?thesis using Cons by simp
  qed
qed

text \<open>At most one firing in each period, whatever the times at which the timer is polled.\<close>

lemma fires_spaced:
  assumes anchored: "anchored base" and "0 < period" "0 \<le> next" "period dvd next - base" "i < j"
    "j < length (fires period next nows)"
  shows "(fires period next nows ! i - base) div period < (fires period next nows ! j - base) div period"
  using assms(3-)
proof (induction nows arbitrary: "next" i j)
  case Nil
  then show ?case by simp
next
  case (Cons now nows)
  show ?case
  proof (cases "next \<le> now")
    case False
    then show ?thesis using Cons by simp
  next
    case True
    let ?n = "advance period now next"
    note n = advance_nonneg [OF assms(2) Cons.prems(1) True]
      advance_aligned [OF assms(1,2) Cons.prems(1) True Cons.prems(2)]
      advance_future [OF assms(2) Cons.prems(1) True]
    obtain j' where j: "j = Suc j'" using Cons.prems(3) by (cases j) auto
    have len: "j' < length (fires period ?n nows)"
      using Cons.prems(4) True j by simp
    show ?thesis
    proof (cases i)
      case (Suc i')
      then show ?thesis
        using Cons.IH [OF n(1,2), of i' j'] Cons.prems(3) len True j by simp
    next
      case 0
      have ge: "?n \<le> fires period ?n nows ! j'"
        using fires_after [OF assms(2) n(1)] len by (meson nth_mem)
      obtain k where k: "?n - base = period * k" using n(2) by (elim dvdE)
      have "(now - base) div period < k"
        using n(3) k assms(2) by (simp add: div_less_of_mult mult.commute)
      also have "k = (?n - base) div period"
        using k assms(2) by simp
      also have "(?n - base) div period \<le> (fires period ?n nows ! j' - base) div period"
        using ge assms(2) by (simp add: zdiv_mono1)
      finally show ?thesis using 0 j True by simp
    qed
  qed
qed

end

subsection \<open>Fixed width encodings\<close>

locale byte_codec =
  fixes width :: nat
    and enc :: "'v \<Rightarrow> 'b list"
    and dec :: "'b list \<Rightarrow> 'v"
    and valid :: "'v \<Rightarrow> bool"
  assumes enc_length: "length (enc v) = width"
    and dec_enc: "valid v \<Longrightarrow> dec (enc v) = v"
begin

text \<open>A field written into a buffer is read back, and all other fields keep their content.\<close>

lemma read_written:
  "valid v \<Longrightarrow> pos + width \<le> length buf \<Longrightarrow> dec (slice pos width (splice pos (enc v) buf)) = v"
  using slice_splice_same [of pos "enc v" buf] by (simp add: enc_length dec_enc)

lemma read_other:
  "pos + width \<le> length buf \<Longrightarrow> p + len \<le> length buf \<Longrightarrow> p + len \<le> pos \<or> pos + width \<le> p \<Longrightarrow>
    slice p len (splice pos (enc v) buf) = slice p len buf"
  by (rule slice_splice_other) (simp_all add: enc_length)

lemma enc_inj: "valid v \<Longrightarrow> valid w \<Longrightarrow> enc v = enc w \<Longrightarrow> v = w"
  by (metis dec_enc)

end

end
