(* ===== verification/CDouble.thy ===== *)
theory CDouble
  imports Prelude
begin

text \<open>
  The \<open>double\<close> and \<open>float\<close> of the code: IEEE 754 binary64 and binary32 with rounding to
  nearest, ties to even. A finite value is its exact rational value; the zero has a sign.
  All operations are executable: a result is the exact rational result, rounded once.
  The locale \<open>float_format\<close> holds the facts about rounding that do not depend on the
  width; it is interpreted for both formats.
\<close>

subsection \<open>Powers of two and binary logarithm of rationals\<close>

definition pow2 :: "int \<Rightarrow> rat" where
  "pow2 q = (if 0 \<le> q then 2 ^ nat q else 1 / 2 ^ nat (- q))"

lemma pow2_powi: "pow2 q = 2 powi q"
  by (simp add: pow2_def power_int_def field_simps)

lemma pow2_pos [simp]: "0 < pow2 q"
  by (simp add: pow2_def)

lemma pow2_nonzero [simp]: "pow2 q \<noteq> 0"
  using pow2_pos [of q] by linarith

lemma pow2_nonneg [simp]: "0 \<le> pow2 q"
  using pow2_pos [of q] by linarith

lemma pow2_add: "pow2 (a + b) = pow2 a * pow2 b"
  by (simp add: pow2_powi power_int_add)

lemma pow2_diff: "pow2 (a - b) = pow2 a / pow2 b"
  by (simp add: pow2_powi power_int_diff)

lemma pow2_0 [simp]: "pow2 0 = 1"
  by (simp add: pow2_def)

lemma pow2_1 [simp]: "pow2 1 = 2"
  by (simp add: pow2_def)

lemma pow2_not_neg [simp]: "\<not> pow2 q < 0"
  using pow2_pos [of q] by linarith

lemma pow2_not_le_0 [simp]: "\<not> pow2 q \<le> 0"
  using pow2_pos [of q] by linarith

lemma pow2_strict_mono: "a < b \<Longrightarrow> pow2 a < pow2 b"
  by (simp add: pow2_powi power_int_strict_increasing)

lemma pow2_less_iff [simp]: "pow2 a < pow2 b \<longleftrightarrow> a < b"
  by (metis linorder_neqE_linordered_idom order.asym order.irrefl pow2_strict_mono)

lemma pow2_le_iff [simp]: "pow2 a \<le> pow2 b \<longleftrightarrow> a \<le> b"
  by (metis linorder_not_le pow2_less_iff)

lemma pow2_of_nat: "pow2 (int n) = 2 ^ n"
  by (simp add: pow2_def)

lemma pow2_Ints: "0 \<le> q \<Longrightarrow> pow2 q = of_int (2 ^ nat q)"
  by (simp add: pow2_def)

text \<open>Powers of two by repeated squaring, for evaluation.\<close>

function ipow2 :: "int \<Rightarrow> int" where
  "ipow2 n = (if n \<le> 0 then 1 else let h = ipow2 (n div 2) in if even n then h * h else 2 * (h * h))"
  by pat_completeness auto

termination ipow2 by (relation "measure nat") auto

declare ipow2.simps [simp del]

lemma ipow2_power: "0 \<le> n \<Longrightarrow> ipow2 n = 2 ^ nat n"
proof (induction n rule: ipow2.induct)
  case (1 n)
  show ?case
  proof (cases "n \<le> 0")
    case True
    then have "n = 0" using 1 by simp
    then show ?thesis by (subst ipow2.simps) simp
  next
    case False
    then have h: "ipow2 (n div 2) = 2 ^ nat (n div 2)" using 1 by simp
    have "n = n div 2 + n div 2 + n mod 2" by presburger
    moreover have "0 \<le> n div 2" "0 \<le> n mod 2" using False by simp_all
    ultimately have "nat n = nat (n div 2) + nat (n div 2) + nat (n mod 2)"
      by (metis add_nonneg_nonneg nat_add_distrib)
    then have "(2::int) ^ nat n = 2 ^ nat (n div 2) * 2 ^ nat (n div 2) * 2 ^ nat (n mod 2)"
      by (simp add: power_add)
    then show ?thesis using False h by (auto simp: ipow2.simps [of n] Let_def mod_2_eq_odd)
  qed
qed

lemma pow2_code [code]: "pow2 q = (if 0 \<le> q then of_int (ipow2 q) else 1 / of_int (ipow2 (- q)))"
  by (simp add: pow2_def ipow2_power)

definition rlog2 :: "rat \<Rightarrow> int" where
  "rlog2 x = (let (n, d) = quotient_of x; k = bitlen n - bitlen d in if pow2 k \<le> x then k else k - 1)"

lemma bitlen_pow2:
  assumes "0 < n"
  shows "pow2 (bitlen n - 1) \<le> of_int n" and "of_int n < pow2 (bitlen n)"
proof -
  have b: "2 ^ nat (bitlen n - 1) \<le> n \<and> n < 2 ^ nat (bitlen n)"
    using assms bitlen_bounds [of n] by simp
  have pos: "0 < bitlen n"
  proof (rule ccontr)
    assume "\<not> 0 < bitlen n"
    then show False using b assms by simp
  qed
  from b have "(of_int (2 ^ nat (bitlen n - 1)) :: rat) \<le> of_int n"
    by (metis of_int_le_iff)
  then show "pow2 (bitlen n - 1) \<le> of_int n"
    using pos by (simp add: pow2_def)
  from b have "(of_int n :: rat) < of_int (2 ^ nat (bitlen n))"
    by (metis of_int_less_iff)
  then show "of_int n < pow2 (bitlen n)"
    using pos by (simp add: pow2_def)
qed

lemma rlog2_bounds:
  assumes "0 < x"
  shows "pow2 (rlog2 x) \<le> x" and "x < pow2 (rlog2 x + 1)"
proof -
  obtain n d where q: "quotient_of x = (n, d)" by force
  have d: "0 < d" and x: "x = of_int n / of_int d"
    using quotient_of_denom_pos [OF q] quotient_of_div [OF q] by auto
  have n: "0 < n" using assms d x by (simp add: zero_less_divide_iff)
  let ?k = "bitlen n - bitlen d"
  have "pow2 (bitlen n - 1) / pow2 (bitlen d) < x"
    unfolding x using bitlen_pow2 [OF n] bitlen_pow2 [OF d] d n
    by (intro frac_less2) auto
  then have lo: "pow2 (?k - 1) < x"
    by (simp add: pow2_diff [symmetric] algebra_simps)
  have "x < pow2 (bitlen n) / pow2 (bitlen d - 1)"
    unfolding x using bitlen_pow2 [OF n] bitlen_pow2 [OF d] d n
    by (intro frac_less) auto
  then have hi: "x < pow2 (?k + 1)"
    by (simp add: pow2_diff [symmetric] algebra_simps)
  show "pow2 (rlog2 x) \<le> x" and "x < pow2 (rlog2 x + 1)"
    using lo hi by (auto simp: rlog2_def q Let_def)
qed

lemma rlog2_unique: "0 < x \<Longrightarrow> pow2 e \<le> x \<Longrightarrow> x < pow2 (e + 1) \<Longrightarrow> rlog2 x = e"
proof -
  assume a: "0 < x" "pow2 e \<le> x" "x < pow2 (e + 1)"
  have "pow2 e < pow2 (rlog2 x + 1)" "pow2 (rlog2 x) < pow2 (e + 1)"
    using a rlog2_bounds [OF a(1)] by linarith+
  then show ?thesis by simp
qed

lemma rlog2_mono: "0 < x \<Longrightarrow> x \<le> y \<Longrightarrow> rlog2 x \<le> rlog2 y"
proof -
  assume a: "0 < x" "x \<le> y"
  have "pow2 (rlog2 x) < pow2 (rlog2 y + 1)"
    using a rlog2_bounds [of x] rlog2_bounds [of y] by linarith
  then show ?thesis by simp
qed

subsection \<open>Rounding to an integer\<close>

text \<open>To nearest, ties to even (the rounding of the arithmetic).\<close>

definition rne :: "rat \<Rightarrow> int" where
  "rne x = (let f = \<lfloor>x\<rfloor>; r = x - of_int f in
     if r < 1/2 then f else if 1/2 < r then f + 1 else if even f then f else f + 1)"

text \<open>To nearest, ties away from zero (C's \<open>round\<close>).\<close>

definition rna :: "rat \<Rightarrow> int" where
  "rna x = (if 0 \<le> x then \<lfloor>x + 1/2\<rfloor> else - \<lfloor>1/2 - x\<rfloor>)"

lemma rne_of_int [simp]: "rne (of_int z) = z"
  by (simp add: rne_def Let_def)

lemma rne_cases: "rne x = \<lfloor>x\<rfloor> \<or> rne x = \<lfloor>x\<rfloor> + 1"
  by (simp add: rne_def Let_def)

lemma rne_near: "\<bar>of_int (rne x) - x\<bar> \<le> 1/2"
  unfolding rne_def Let_def by (auto simp: abs_if) linarith+

lemma rne_mono: "x \<le> y \<Longrightarrow> rne x \<le> rne y"
proof -
  assume xy: "x \<le> y"
  then have f: "\<lfloor>x\<rfloor> \<le> \<lfloor>y\<rfloor>" by (rule floor_mono)
  show ?thesis
  proof (cases "\<lfloor>x\<rfloor> = \<lfloor>y\<rfloor>")
    case True
    then show ?thesis using xy by (simp add: rne_def Let_def)
  next
    case False
    then show ?thesis using f rne_cases [of x] rne_cases [of y] by linarith
  qed
qed

lemma rne_pos: "0 \<le> x \<Longrightarrow> 0 \<le> rne x"
  using rne_mono [of 0 x] rne_of_int [of 0] by simp

lemma rna_of_int [simp]: "rna (of_int z) = z"
proof (cases "0 \<le> z")
  case True
  have "\<lfloor>(of_int z :: rat) + 1/2\<rfloor> = z" by linarith
  then show ?thesis using True by (simp add: rna_def)
next
  case False
  have "\<lfloor>1/2 - (of_int z :: rat)\<rfloor> = - z" by linarith
  then show ?thesis using False by (simp add: rna_def)
qed

lemma rna_0 [simp]: "rna 0 = 0"
  using rna_of_int [of 0] by simp

lemma rna_near: "\<bar>of_int (rna x) - x\<bar> \<le> 1/2"
  unfolding rna_def by (auto simp: abs_if) linarith+

lemma rna_mono: "x \<le> y \<Longrightarrow> rna x \<le> rna y"
  unfolding rna_def by (auto simp: floor_mono) linarith+

subsection \<open>Rounding to a binary format\<close>

text \<open>\<open>p\<close> is the precision in bits and \<open>emin\<close> the exponent of the smallest subnormal.\<close>

definition quantum :: "nat \<Rightarrow> int \<Rightarrow> rat \<Rightarrow> int" where
  "quantum p emin x = max (rlog2 x - int p + 1) emin"

definition rnd_pos :: "nat \<Rightarrow> int \<Rightarrow> rat \<Rightarrow> rat" where
  "rnd_pos p emin x = (let q = quantum p emin x in of_int (rne (x / pow2 q)) * pow2 q)"

definition rnd :: "nat \<Rightarrow> int \<Rightarrow> rat \<Rightarrow> rat" where
  "rnd p emin x = (if x = 0 then 0 else if 0 < x then rnd_pos p emin x else - rnd_pos p emin (- x))"

lemma rnd_0 [simp]: "rnd p emin 0 = 0"
  by (simp add: rnd_def)

lemma rnd_minus [simp]: "rnd p emin (- x) = - rnd p emin x"
  by (auto simp: rnd_def)

locale float_format =
  fixes p :: nat and emin emax :: int
  assumes precision: "1 < p"
    and exponents: "emin + int p \<le> emax"
begin

lemma on_grid:
  assumes "0 < m" "m \<le> 2 ^ p" "emin \<le> q"
  shows "rnd_pos p emin (of_int m * pow2 q) = of_int m * pow2 q"
proof -
  let ?x = "of_int m * pow2 q :: rat"
  let ?q = "quantum p emin ?x"
  have x: "0 < ?x" using assms by simp
  have ub: "?x \<le> pow2 (int p + q)"
  proof -
    have "(of_int m :: rat) \<le> of_int (2 ^ p)" using assms(2) by (metis of_int_le_iff)
    then show ?thesis by (simp add: pow2_add pow2_of_nat mult_right_mono)
  qed
  have "\<exists>z. ?x / pow2 ?q = of_int z"
  proof (cases "?q \<le> q")
    case True
    have "?x / pow2 ?q = of_int m * pow2 (q - ?q)" by (simp add: pow2_diff)
    also have "\<dots> = of_int (m * 2 ^ nat (q - ?q))" using True by (simp add: pow2_Ints)
    finally show ?thesis by blast
  next
    case False
    then have q: "?q = rlog2 ?x - int p + 1" using assms(3) by (auto simp: quantum_def)
    have "pow2 (rlog2 ?x) \<le> pow2 (int p + q)" using rlog2_bounds(1) [OF x] ub by linarith
    then have eq: "rlog2 ?x = int p + q" using False q by simp
    then have "?x = pow2 (int p + q)" using rlog2_bounds(1) [OF x] ub by simp
    then have "?x / pow2 ?q = pow2 (int p - 1)"
      using q eq by (simp add: pow2_diff [symmetric])
    also have "\<dots> = of_int (2 ^ nat (int p - 1))" using precision by (simp add: pow2_Ints)
    finally show ?thesis by blast
  qed
  then obtain z where z: "?x / pow2 ?q = of_int z" by blast
  then have "of_int z * pow2 ?q = ?x" by (metis nonzero_divide_eq_eq pow2_nonzero)
  then show ?thesis using z by (simp add: rnd_pos_def Let_def)
qed

lemma exact: "\<bar>m\<bar> \<le> 2 ^ p \<Longrightarrow> emin \<le> q \<Longrightarrow> rnd p emin (of_int m * pow2 q) = of_int m * pow2 q"
proof (cases "m = 0")
  case False
  assume a: "\<bar>m\<bar> \<le> 2 ^ p" "emin \<le> q"
  show ?thesis
  proof (cases "0 < m")
    case True
    then show ?thesis using a on_grid [of m q] by (simp add: rnd_def)
  next
    case neg: False
    then show ?thesis using a False on_grid [of "- m" q]
      by (auto simp: rnd_def zero_less_mult_iff)
  qed
qed simp

lemma exact_int: "\<bar>m\<bar> \<le> 2 ^ p \<Longrightarrow> emin \<le> 0 \<Longrightarrow> rnd p emin (of_int m) = of_int m"
  using exact [of m 0] by simp

lemma significand:
  assumes "0 < x"
  shows "rne (x / pow2 (quantum p emin x)) \<le> 2 ^ p" and "0 \<le> rne (x / pow2 (quantum p emin x))"
proof -
  let ?q = "quantum p emin x"
  have "x < pow2 (rlog2 x + 1)" by (rule rlog2_bounds(2) [OF assms])
  also have "\<dots> \<le> pow2 (int p + ?q)" by (simp add: quantum_def)
  finally have "x / pow2 ?q \<le> of_int (2 ^ p)"
    by (simp add: pow2_add pow2_of_nat field_simps)
  then have "rne (x / pow2 ?q) \<le> rne (of_int (2 ^ p))" by (rule rne_mono)
  then show "rne (x / pow2 ?q) \<le> 2 ^ p" by (simp only: rne_of_int)
  show "0 \<le> rne (x / pow2 ?q)" using assms by (simp add: rne_pos)
qed

lemma quantum_ge: "emin \<le> quantum p emin x"
  by (simp add: quantum_def)

lemma idem: "rnd p emin (rnd p emin x) = rnd p emin x"
proof -
  have pos: "rnd p emin (rnd_pos p emin y) = rnd_pos p emin y" if "0 < y" for y
    using exact [of "rne (y / pow2 (quantum p emin y))"] significand [OF that] quantum_ge
    by (simp add: rnd_pos_def Let_def)
  show ?thesis using pos [of x] pos [of "- x"] by (auto simp: rnd_def [of p emin x])
qed

lemma rnd_pos_nonneg: "0 < x \<Longrightarrow> 0 \<le> rnd_pos p emin x"
  using significand [of x] by (simp add: rnd_pos_def Let_def)

lemma rnd_pos_ge_pow2:
  assumes "0 < x" "emin \<le> e" "pow2 e \<le> x"
  shows "pow2 e \<le> rnd_pos p emin x"
proof -
  let ?q = "quantum p emin x"
  have e: "e \<le> rlog2 x" using assms rlog2_bounds(2) [OF assms(1)]
    by (metis add1_zle_eq linorder_not_le order.strict_trans1 pow2_less_iff zless_imp_add1_zle
        zle_add1_eq_le)
  show ?thesis
  proof (cases "?q \<le> rlog2 x")
    case True
    have "pow2 (rlog2 x - ?q) \<le> x / pow2 ?q"
      using rlog2_bounds(1) [OF assms(1)] by (simp add: pow2_diff divide_right_mono)
    then have "of_int (2 ^ nat (rlog2 x - ?q)) \<le> x / pow2 ?q"
      using True by (simp add: pow2_Ints)
    then have "2 ^ nat (rlog2 x - ?q) \<le> rne (x / pow2 ?q)"
      using rne_mono rne_of_int by metis
    then have "(of_int (2 ^ nat (rlog2 x - ?q)) :: rat) \<le> of_int (rne (x / pow2 ?q))"
      by (rule of_int_le_iff [THEN iffD2])
    then have "pow2 (rlog2 x - ?q) * pow2 ?q \<le> of_int (rne (x / pow2 ?q)) * pow2 ?q"
      using True by (simp add: pow2_Ints mult_right_mono)
    then have "pow2 (rlog2 x) \<le> of_int (rne (x / pow2 ?q)) * pow2 ?q"
      by (simp add: pow2_add [symmetric])
    moreover have "pow2 e \<le> pow2 (rlog2 x)" using e by simp
    ultimately have "pow2 e \<le> of_int (rne (x / pow2 ?q)) * pow2 ?q" by linarith
    then show ?thesis by (simp add: rnd_pos_def Let_def)
  next
    case False
    then have "rlog2 x < emin" using precision by (auto simp: quantum_def)
    then show ?thesis using e assms(2) by simp
  qed
qed

lemma rnd_pos_le_pow2:
  assumes "0 < x" "emin \<le> e" "x \<le> pow2 e"
  shows "rnd_pos p emin x \<le> pow2 e"
proof -
  let ?q = "quantum p emin x"
  have qe: "?q \<le> e \<or> emin \<le> e" using assms(2) by simp
  have r: "rlog2 x \<le> e"
  proof -
    have "pow2 (rlog2 x) \<le> pow2 e" using assms(3) rlog2_bounds(1) [OF assms(1)] by linarith
    then show ?thesis by simp
  qed
  have q: "?q \<le> e" using r assms(2) precision by (auto simp: quantum_def)
  have "x / pow2 ?q \<le> pow2 (e - ?q)" using assms(3) by (simp add: pow2_diff divide_right_mono)
  then have "x / pow2 ?q \<le> of_int (2 ^ nat (e - ?q))" using q by (simp add: pow2_Ints)
  then have "rne (x / pow2 ?q) \<le> 2 ^ nat (e - ?q)"
    using rne_mono rne_of_int by metis
  then have "(of_int (rne (x / pow2 ?q)) :: rat) \<le> of_int (2 ^ nat (e - ?q))"
    by (rule of_int_le_iff [THEN iffD2])
  then have "of_int (rne (x / pow2 ?q)) * pow2 ?q \<le> pow2 (e - ?q) * pow2 ?q"
    using q by (simp add: pow2_Ints mult_right_mono)
  then show ?thesis by (simp add: rnd_pos_def Let_def pow2_add [symmetric])
qed

lemma rnd_pos_mono:
  assumes "0 < x" "x \<le> y"
  shows "rnd_pos p emin x \<le> rnd_pos p emin y"
proof -
  have y: "0 < y" using assms by linarith
  show ?thesis
  proof (cases "quantum p emin x = quantum p emin y")
    case True
    have "rne (x / pow2 (quantum p emin y)) \<le> rne (y / pow2 (quantum p emin y))"
      using assms(2) by (intro rne_mono divide_right_mono) auto
    then show ?thesis using True by (simp add: rnd_pos_def Let_def mult_right_mono)
  next
    case False
    let ?e = "rlog2 y"
    have lt: "rlog2 x < ?e" and e: "emin \<le> ?e"
      using False rlog2_mono [OF assms] precision by (auto simp: quantum_def max_def split: if_splits)
    have "x \<le> pow2 ?e"
    proof -
      have "x < pow2 (rlog2 x + 1)" by (rule rlog2_bounds(2) [OF assms(1)])
      also have "\<dots> \<le> pow2 ?e" using lt by simp
      finally show ?thesis by simp
    qed
    then have "rnd_pos p emin x \<le> pow2 ?e" using rnd_pos_le_pow2 [OF assms(1) e] by blast
    also have "\<dots> \<le> rnd_pos p emin y"
      using rnd_pos_ge_pow2 [OF y e] rlog2_bounds(1) [OF y] by blast
    finally show ?thesis .
  qed
qed

lemma mono: "x \<le> y \<Longrightarrow> rnd p emin x \<le> rnd p emin y"
proof -
  assume xy: "x \<le> y"
  consider "0 < x" | "x \<le> 0" "0 \<le> y" | "y < 0" by linarith
  then show ?thesis
  proof cases
    case 1
    then show ?thesis using xy rnd_pos_mono [of x y] by (simp add: rnd_def)
  next
    case 2
    then show ?thesis using rnd_pos_nonneg [of "- x"] rnd_pos_nonneg [of y]
      by (auto simp: rnd_def)
  next
    case 3
    then show ?thesis using xy rnd_pos_mono [of "- y" "- x"] by (auto simp: rnd_def)
  qed
qed

lemma rnd_nonneg: "0 \<le> x \<Longrightarrow> 0 \<le> rnd p emin x"
  using mono [of 0 x] by simp

lemma rnd_bound: "\<bar>x\<bar> \<le> pow2 e \<Longrightarrow> emin \<le> e \<Longrightarrow> \<bar>rnd p emin x\<bar> \<le> pow2 e"
  using rnd_pos_le_pow2 [of x e] rnd_pos_le_pow2 [of "- x" e] rnd_pos_nonneg [of x]
    rnd_pos_nonneg [of "- x"]
  by (auto simp: rnd_def abs_if split: if_splits)

end

interpretation b64: float_format 53 "-1074" 1023
  by unfold_locales auto

interpretation b32: float_format 24 "-149" 127
  by unfold_locales auto

subsection \<open>The values of a double\<close>

datatype dbl = DNaN | DInf bool \<comment> \<open>\<open>True\<close>: negative\<close> | DNegZero | DFin rat \<comment> \<open>\<open>DFin 0\<close>: \<open>+0\<close>\<close>

abbreviation rnd64 :: "rat \<Rightarrow> rat" where
  "rnd64 \<equiv> rnd 53 (-1074)"

abbreviation rnd32 :: "rat \<Rightarrow> rat" where
  "rnd32 \<equiv> rnd 24 (-149)"

fun rval :: "dbl \<Rightarrow> rat" where \<comment> \<open>value of a finite double\<close>
  "rval (DFin r) = r"
| "rval _ = 0"

fun isfinite :: "dbl \<Rightarrow> bool" where
  "isfinite DNaN = False"
| "isfinite (DInf _) = False"
| "isfinite _ = True"

definition isnan :: "dbl \<Rightarrow> bool" where
  "isnan d \<longleftrightarrow> d = DNaN"

fun signbit :: "dbl \<Rightarrow> bool" where
  "signbit DNaN = False"
| "signbit (DInf s) = s"
| "signbit DNegZero = True"
| "signbit (DFin r) = (r < 0)"

definition is_zero :: "dbl \<Rightarrow> bool" where
  "is_zero d \<longleftrightarrow> d = DNegZero \<or> d = DFin 0"

text \<open>The doubles that exist: the finite ones are those that rounding leaves unchanged.\<close>

definition is_double :: "dbl \<Rightarrow> bool" where
  "is_double d = (case d of DFin r \<Rightarrow> rnd64 r = r \<and> \<bar>r\<bar> < pow2 1024 | _ \<Rightarrow> True)"

text \<open>Round an exact result; \<open>neg\<close> is the sign of a result that is (or becomes) zero.\<close>

definition mk_zero :: "bool \<Rightarrow> dbl" where
  "mk_zero neg = (if neg then DNegZero else DFin 0)"

definition mk_dbl :: "bool \<Rightarrow> rat \<Rightarrow> dbl" where
  "mk_dbl neg x = (let r = rnd64 x in
     if pow2 1024 \<le> \<bar>r\<bar> then DInf (r < 0) else if r = 0 then mk_zero neg else DFin r)"

text \<open>Conversion of an integer to \<open>double\<close>.\<close>

definition d_of_int :: "int \<Rightarrow> dbl" where
  "d_of_int z = mk_dbl False (of_int z)"

definition d_of_bool :: "bool \<Rightarrow> dbl" where
  "d_of_bool b = (if b then DFin 1 else DFin 0)"

subsection \<open>Arithmetic\<close>

fun d_neg :: "dbl \<Rightarrow> dbl" where
  "d_neg DNaN = DNaN"
| "d_neg (DInf s) = DInf (\<not> s)"
| "d_neg DNegZero = DFin 0"
| "d_neg (DFin r) = (if r = 0 then DNegZero else DFin (- r))"

definition d_add :: "dbl \<Rightarrow> dbl \<Rightarrow> dbl" where
  "d_add a b =
     (if isnan a \<or> isnan b then DNaN
      else case (a, b) of
        (DInf s, DInf t) \<Rightarrow> (if s = t then DInf s else DNaN)
      | (DInf s, _) \<Rightarrow> DInf s
      | (_, DInf t) \<Rightarrow> DInf t
      | _ \<Rightarrow> mk_dbl (a = DNegZero \<and> b = DNegZero) (rval a + rval b))"

definition d_sub :: "dbl \<Rightarrow> dbl \<Rightarrow> dbl" where
  "d_sub a b = d_add a (d_neg b)"

definition d_mul :: "dbl \<Rightarrow> dbl \<Rightarrow> dbl" where
  "d_mul a b =
     (if isnan a \<or> isnan b then DNaN
      else let s = (signbit a \<noteq> signbit b) in
        if \<not> isfinite a then (if is_zero b then DNaN else DInf s)
        else if \<not> isfinite b then (if is_zero a then DNaN else DInf s)
        else mk_dbl s (rval a * rval b))"

definition d_div :: "dbl \<Rightarrow> dbl \<Rightarrow> dbl" where
  "d_div a b =
     (if isnan a \<or> isnan b then DNaN
      else let s = (signbit a \<noteq> signbit b) in
        if \<not> isfinite a then (if isfinite b then DInf s else DNaN)
        else if \<not> isfinite b then mk_zero s
        else if is_zero b then (if is_zero a then DNaN else DInf s)
        else mk_dbl s (rval a / rval b))"

subsection \<open>Comparison (false if an operand is NaN)\<close>

fun d_lt :: "dbl \<Rightarrow> dbl \<Rightarrow> bool" where
  "d_lt DNaN _ = False"
| "d_lt _ DNaN = False"
| "d_lt (DInf s) (DInf t) = (s \<and> \<not> t)"
| "d_lt (DInf s) _ = s"
| "d_lt _ (DInf t) = (\<not> t)"
| "d_lt a b = (rval a < rval b)"

fun d_eq :: "dbl \<Rightarrow> dbl \<Rightarrow> bool" where
  "d_eq DNaN _ = False"
| "d_eq _ DNaN = False"
| "d_eq (DInf s) (DInf t) = (s = t)"
| "d_eq (DInf s) _ = False"
| "d_eq _ (DInf t) = False"
| "d_eq a b = (rval a = rval b)"

definition d_le :: "dbl \<Rightarrow> dbl \<Rightarrow> bool" where
  "d_le a b \<longleftrightarrow> d_lt a b \<or> d_eq a b"

subsection \<open>Functions of \<open>math.h\<close> and conversions\<close>

fun d_round :: "dbl \<Rightarrow> dbl" where \<comment> \<open>\<open>round()\<close>\<close>
  "d_round (DFin r) = (if rna r = 0 then mk_zero (r < 0) else DFin (of_int (rna r)))"
| "d_round d = d"

fun d_abs :: "dbl \<Rightarrow> dbl" where \<comment> \<open>\<open>fabs()\<close>\<close>
  "d_abs DNaN = DNaN"
| "d_abs (DInf _) = DInf False"
| "d_abs DNegZero = DFin 0"
| "d_abs (DFin r) = DFin \<bar>r\<bar>"

text \<open>Conversion to an integer type (truncation); \<open>None\<close> where C leaves it undefined.\<close>

definition d_to_int :: "int \<Rightarrow> int \<Rightarrow> dbl \<Rightarrow> int option" where
  "d_to_int lo hi d =
     (if isfinite d
      then let z = (if 0 \<le> rval d then \<lfloor>rval d\<rfloor> else - \<lfloor>- rval d\<rfloor>) in
        if lo \<le> z \<and> z \<le> hi then Some z else None
      else None)"

text \<open>Conversion to \<open>float\<close> and back (as a double).\<close>

fun d_to_float :: "dbl \<Rightarrow> dbl" where
  "d_to_float (DFin x) = (let r = rnd32 x in
     if pow2 128 \<le> \<bar>r\<bar> then DInf (r < 0) else if r = 0 then mk_zero (x < 0) else DFin r)"
| "d_to_float d = d"

text \<open>\<open>utl_val_limit\<close> of utils.c.\<close>

definition utl_val_limit :: "dbl \<Rightarrow> dbl \<Rightarrow> dbl \<Rightarrow> dbl" where
  "utl_val_limit val mn mx = (if d_lt val mn then mn else if d_lt mx val then mx else val)"

subsection \<open>Facts about the operations\<close>

named_theorems dbl_simps "unfolding of the double operations on finite values"

lemma isfinite_cases: "isfinite d \<longleftrightarrow> d = DNegZero \<or> (\<exists>r. d = DFin r)"
  by (cases d) auto

lemma not_finite_cases: "\<not> isfinite d \<longleftrightarrow> d = DNaN \<or> (\<exists>s. d = DInf s)"
  by (cases d) auto

lemma finite_not_nan [simp]: "isfinite d \<Longrightarrow> \<not> isnan d"
  by (auto simp: isnan_def)

lemma isfinite_mk_zero [simp]: "isfinite (mk_zero s)"
  by (simp add: mk_zero_def)

lemma rval_mk_zero [simp]: "rval (mk_zero s) = 0"
  by (simp add: mk_zero_def)

lemma isnan_mk_dbl [simp]: "\<not> isnan (mk_dbl s x)"
  by (simp add: mk_dbl_def mk_zero_def isnan_def Let_def)

lemma isfinite_mk_dbl: "isfinite (mk_dbl s x) \<longleftrightarrow> \<bar>rnd64 x\<bar> < pow2 1024"
  by (simp add: mk_dbl_def Let_def not_le)

lemma rval_mk_dbl: "isfinite (mk_dbl s x) \<Longrightarrow> rval (mk_dbl s x) = rnd64 x"
  by (simp add: mk_dbl_def Let_def split: if_splits)

lemma mk_dbl_exact:
  "rnd64 x = x \<Longrightarrow> \<bar>x\<bar> < pow2 1024 \<Longrightarrow> mk_dbl s x = (if x = 0 then mk_zero s else DFin x)"
  by (simp add: mk_dbl_def Let_def)

lemma is_double_mk_zero [simp]: "is_double (mk_zero s)"
  by (simp add: mk_zero_def is_double_def)

lemma is_double_mk_dbl [simp]: "is_double (mk_dbl s x)"
  using b64.idem [of x] by (simp add: mk_dbl_def Let_def is_double_def mk_zero_def)

lemma is_double_DFin: "is_double (DFin r) \<longleftrightarrow> rnd64 r = r \<and> \<bar>r\<bar> < pow2 1024"
  by (simp add: is_double_def)

lemma is_double_special [simp]: "is_double DNaN" "is_double (DInf s)" "is_double DNegZero"
  by (simp_all add: is_double_def)

lemma is_double_d_add [simp]: "is_double (d_add a b)"
  by (simp add: d_add_def split: dbl.splits)

lemma is_double_d_sub [simp]: "is_double (d_sub a b)"
  by (simp add: d_sub_def)

lemma is_double_d_mul [simp]: "is_double (d_mul a b)"
  by (simp add: d_mul_def Let_def)

lemma is_double_d_div [simp]: "is_double (d_div a b)"
  by (simp add: d_div_def Let_def)

lemma pow2_1024_bound: "\<bar>z\<bar> \<le> 2 ^ 53 \<Longrightarrow> \<bar>of_int z\<bar> < pow2 1024"
proof -
  assume "\<bar>z\<bar> \<le> 2 ^ 53"
  then have "(of_int \<bar>z\<bar> :: rat) \<le> of_int (2 ^ 53)" by (rule of_int_le_iff [THEN iffD2])
  also have "\<dots> = pow2 53" by (simp add: pow2_def)
  also have "\<dots> < pow2 1024" by simp
  finally show ?thesis by simp
qed

lemma int_is_double: "\<bar>z\<bar> \<le> 2 ^ 53 \<Longrightarrow> is_double (DFin (of_int z))"
  using b64.exact_int [of z] pow2_1024_bound [of z] by (simp add: is_double_DFin)

lemma d_of_int_exact: "\<bar>z\<bar> \<le> 2 ^ 53 \<Longrightarrow> d_of_int z = DFin (of_int z)"
  using int_is_double [of z] mk_dbl_exact [of "of_int z"]
  by (simp add: d_of_int_def is_double_DFin mk_zero_def)

lemma d_add_finite:
  "isfinite a \<Longrightarrow> isfinite b \<Longrightarrow> d_add a b = mk_dbl (a = DNegZero \<and> b = DNegZero) (rval a + rval b)"
  by (auto simp: d_add_def isfinite_cases isnan_def)

lemma isfinite_d_neg [simp]: "isfinite (d_neg a) = isfinite a"
  by (cases a) auto

lemma rval_d_neg [simp]: "rval (d_neg a) = - rval a"
  by (cases a) auto

lemma d_sub_finite:
  "isfinite a \<Longrightarrow> isfinite b \<Longrightarrow> d_sub a b = mk_dbl (a = DNegZero \<and> b = DFin 0) (rval a - rval b)"
  by (auto simp: d_sub_def d_add_finite isfinite_cases)

lemma d_mul_finite:
  "isfinite a \<Longrightarrow> isfinite b \<Longrightarrow> d_mul a b = mk_dbl (signbit a \<noteq> signbit b) (rval a * rval b)"
  by (simp add: d_mul_def Let_def)

lemma is_zero_rval: "isfinite d \<Longrightarrow> is_zero d \<longleftrightarrow> rval d = 0"
  by (auto simp: is_zero_def isfinite_cases)

lemma d_div_finite:
  "isfinite a \<Longrightarrow> isfinite b \<Longrightarrow> rval b \<noteq> 0 \<Longrightarrow>
    d_div a b = mk_dbl (signbit a \<noteq> signbit b) (rval a / rval b)"
  by (simp add: d_div_def Let_def is_zero_rval)

lemma d_div_not_nan: "\<not> isnan a \<Longrightarrow> isfinite b \<Longrightarrow> rval b \<noteq> 0 \<Longrightarrow> \<not> isnan (d_div a b)"
  by (cases a) (auto simp: d_div_def Let_def is_zero_rval isnan_def mk_dbl_def mk_zero_def)

lemma d_lt_finite: "isfinite a \<Longrightarrow> isfinite b \<Longrightarrow> d_lt a b \<longleftrightarrow> rval a < rval b"
  by (auto simp: isfinite_cases)

lemma d_eq_finite: "isfinite a \<Longrightarrow> isfinite b \<Longrightarrow> d_eq a b \<longleftrightarrow> rval a = rval b"
  by (auto simp: isfinite_cases)

lemma d_le_finite: "isfinite a \<Longrightarrow> isfinite b \<Longrightarrow> d_le a b \<longleftrightarrow> rval a \<le> rval b"
  by (auto simp: d_le_def d_lt_finite d_eq_finite)

lemma d_le_refl: "\<not> isnan a \<Longrightarrow> d_le a a"
  by (cases a) (auto simp: d_le_def isnan_def)

lemma d_le_trans: "d_le a b \<Longrightarrow> d_le b c \<Longrightarrow> d_le a c"
  by (cases a; cases b; cases c) (auto simp: d_le_def split: if_splits)

lemma d_lt_le_not: "\<not> isnan a \<Longrightarrow> \<not> isnan b \<Longrightarrow> \<not> d_lt a b \<longleftrightarrow> d_le b a"
  by (cases a; cases b) (auto simp: d_le_def isnan_def)

text \<open>Adding something that is not negative never makes a number smaller, despite rounding.\<close>

lemma rval_is_double: "is_double a \<Longrightarrow> isfinite a \<Longrightarrow> rnd64 (rval a) = rval a \<and> \<bar>rval a\<bar> < pow2 1024"
  by (auto simp: isfinite_cases is_double_DFin)

lemma d_add_increases:
  assumes "is_double a" "isfinite a" "isfinite b" "0 \<le> rval b"
  shows "d_le a (d_add a b)"
proof -
  let ?s = "rval a + rval b"
  have le: "rval a \<le> rnd64 ?s"
    using b64.mono [of "rval a" ?s] rval_is_double [OF assms(1,2)] assms(4) by simp
  show ?thesis
  proof (cases "isfinite (d_add a b)")
    case True
    then show ?thesis using le assms
      by (simp add: d_add_finite d_le_finite rval_mk_dbl)
  next
    case False
    have "- pow2 1024 < rnd64 ?s" using le rval_is_double [OF assms(1,2)] by linarith
    then have "d_add a b = DInf False"
      using False assms by (auto simp: d_add_finite mk_dbl_def mk_zero_def Let_def split: if_splits)
    then show ?thesis using assms(2) by (auto simp: isfinite_cases d_le_def)
  qed
qed

lemma d_mul_nonneg:
  "isfinite a \<Longrightarrow> isfinite b \<Longrightarrow> 0 \<le> rval a \<Longrightarrow> 0 \<le> rval b \<Longrightarrow> isfinite (d_mul a b) \<Longrightarrow> 0 \<le> rval (d_mul a b)"
  by (simp add: d_mul_finite rval_mk_dbl b64.rnd_nonneg)

lemma d_add_zero: "is_double a \<Longrightarrow> isfinite a \<Longrightarrow> a \<noteq> DNegZero \<Longrightarrow> d_add a (DFin 0) = a"
  by (auto simp: isfinite_cases d_add_finite is_double_DFin mk_dbl_exact mk_zero_def)

lemma d_sub_zero: "is_double a \<Longrightarrow> isfinite a \<Longrightarrow> d_sub a (DFin 0) = a"
  by (auto simp: isfinite_cases d_sub_finite is_double_DFin mk_dbl_exact mk_zero_def)

lemma d_mul_one: "is_double a \<Longrightarrow> isfinite a \<Longrightarrow> d_mul a (DFin 1) = a"
  by (auto simp: isfinite_cases d_mul_finite is_double_DFin mk_dbl_exact mk_zero_def)

lemma d_div_one: "is_double a \<Longrightarrow> isfinite a \<Longrightarrow> d_div a (DFin 1) = a"
  by (auto simp: isfinite_cases d_div_finite is_double_DFin mk_dbl_exact mk_zero_def)

lemma isfinite_d_round [simp]: "isfinite (d_round d) = isfinite d"
  by (cases d) auto

lemma rval_d_round: "isfinite d \<Longrightarrow> rval (d_round d) = of_int (rna (rval d))"
  by (cases d) auto

lemma isnan_d_round [simp]: "isnan (d_round d) = isnan d"
  by (cases d) (auto simp: isnan_def mk_zero_def)

lemma utl_val_limit_cases:
  "\<not> isnan v \<Longrightarrow> isfinite lo \<Longrightarrow> isfinite hi \<Longrightarrow> rval lo \<le> rval hi \<Longrightarrow>
    isfinite (utl_val_limit v lo hi) \<and> rval lo \<le> rval (utl_val_limit v lo hi) \<and>
    rval (utl_val_limit v lo hi) \<le> rval hi"
  by (cases v) (auto simp: utl_val_limit_def isnan_def isfinite_cases)

lemma utl_val_limit_id:
  "isfinite v \<Longrightarrow> isfinite lo \<Longrightarrow> isfinite hi \<Longrightarrow> rval lo \<le> rval v \<Longrightarrow> rval v \<le> rval hi \<Longrightarrow>
    utl_val_limit v lo hi = v"
  by (auto simp: utl_val_limit_def d_lt_finite)

lemma d_to_int_of_int:
  "isfinite d \<Longrightarrow> rval d = of_int z \<Longrightarrow> lo \<le> z \<Longrightarrow> z \<le> hi \<Longrightarrow> d_to_int lo hi d = Some z"
proof -
  assume a: "isfinite d" "rval d = of_int z" "lo \<le> z" "z \<le> hi"
  have "\<lfloor>- (of_int z :: rat)\<rfloor> = - z" by (metis floor_of_int of_int_minus)
  then show ?thesis using a by (simp add: d_to_int_def Let_def)
qed

text \<open>
  The output conversion of can.c and mb.c: round, limit to the range of the type, convert.
  \<open>limit_int lo hi x\<close> is its result on the exact value.
\<close>

definition limit_int :: "int \<Rightarrow> int \<Rightarrow> rat \<Rightarrow> int" where
  "limit_int lo hi x = max lo (min hi (rna x))"

definition d_to_int_limited :: "int \<Rightarrow> int \<Rightarrow> dbl \<Rightarrow> int option" where
  "d_to_int_limited lo hi f =
     d_to_int lo hi (utl_val_limit (d_round f) (DFin (of_int lo)) (DFin (of_int hi)))"

lemma d_to_int_limited_finite:
  assumes "isfinite f" "lo \<le> hi"
  shows "d_to_int_limited lo hi f = Some (limit_int lo hi (rval f))"
proof -
  let ?v = "utl_val_limit (d_round f) (DFin (of_int lo)) (DFin (of_int hi))"
  have "isfinite ?v \<and> rval ?v = of_int (limit_int lo hi (rval f))"
    using assms
    by (auto simp: utl_val_limit_def d_lt_finite rval_d_round limit_int_def max_def min_def
        of_int_less_iff simp del: d_lt.simps)
  then show ?thesis
    unfolding d_to_int_limited_def using assms(2)
    by (intro d_to_int_of_int) (auto simp: limit_int_def)
qed

lemma d_to_int_limited_inf:
  "lo \<le> hi \<Longrightarrow> d_to_int_limited lo hi (DInf s) = Some (if s then lo else hi)"
  unfolding d_to_int_limited_def utl_val_limit_def
  by (auto intro!: d_to_int_of_int)

lemma d_to_int_limited_nan: "d_to_int_limited lo hi DNaN = None"
  by (simp add: d_to_int_limited_def utl_val_limit_def d_to_int_def)

lemma d_to_int_limited_defined:
  assumes "\<not> isnan f" "lo \<le> hi"
  obtains z where "d_to_int_limited lo hi f = Some z" "lo \<le> z" "z \<le> hi"
proof (cases "isfinite f")
  case True
  show ?thesis
    by (rule that [OF d_to_int_limited_finite [OF True assms(2)]])
      (use assms(2) in \<open>auto simp: limit_int_def\<close>)
next
  case False
  then obtain s where "f = DInf s" using assms(1) by (auto simp: not_finite_cases isnan_def)
  then show ?thesis using that [OF d_to_int_limited_inf [OF assms(2), of s, folded \<open>f = DInf s\<close>]]
    assms(2) by auto
qed

lemma limit_int_of_int: "lo \<le> z \<Longrightarrow> z \<le> hi \<Longrightarrow> limit_int lo hi (of_int z) = z"
  by (simp add: limit_int_def)

subsection \<open>Numbers that are not negative\<close>

text \<open>At least 0 (also \<open>-0\<close> and infinity), and not a NaN.\<close>

definition d_nonneg :: "dbl \<Rightarrow> bool" where
  "d_nonneg d \<longleftrightarrow> d_le (DFin 0) d"

lemma d_nonneg_cases: "d_nonneg d \<longleftrightarrow> d = DInf False \<or> (isfinite d \<and> 0 \<le> rval d)"
  by (cases d) (auto simp: d_nonneg_def d_le_def)

lemma d_nonneg_not_nan: "d_nonneg d \<Longrightarrow> \<not> isnan d"
  by (auto simp: d_nonneg_cases isnan_def)

lemma d_nonneg_zero [simp]: "d_nonneg (DFin 0)"
  by (simp add: d_nonneg_cases)

lemma d_nonneg_mk_dbl: "0 \<le> x \<Longrightarrow> d_nonneg (mk_dbl s x)"
  using b64.rnd_nonneg [of x] by (auto simp: mk_dbl_def Let_def d_nonneg_cases)

lemma d_nonneg_add:
  assumes "is_double a" "d_nonneg a" "d_nonneg b"
  shows "d_le a (d_add a b) \<and> d_nonneg (d_add a b)"
proof (cases "isfinite a \<and> isfinite b")
  case True
  then have "d_le a (d_add a b)" using assms d_add_increases by (auto simp: d_nonneg_cases)
  then show ?thesis using assms(2) d_le_trans unfolding d_nonneg_def by blast
next
  case False
  then have "d_add a b = DInf False"
    using assms(2,3) by (auto simp: d_nonneg_cases d_add_def isnan_def isfinite_cases)
  then show ?thesis using assms(2) by (cases a) (auto simp: d_le_def d_nonneg_cases)
qed

lemma d_nonneg_sub:
  assumes "d_lt a b"
  shows "d_nonneg (d_sub b a)"
proof (cases "isfinite a \<and> isfinite b")
  case True
  then have "rval a \<le> rval b" using assms by (auto simp: d_lt_finite)
  then show ?thesis using True by (simp add: d_sub_finite d_nonneg_mk_dbl)
next
  case False
  then have "d_sub b a = DInf False"
    using assms by (cases a; cases b) (auto simp: d_sub_def d_add_def isnan_def split: if_splits)
  then show ?thesis by (simp add: d_nonneg_cases)
qed

lemma d_of_int_pos: "0 < z \<Longrightarrow> d_lt (DFin 0) (d_of_int z)"
proof -
  assume "0 < z"
  then have "(1 :: rat) \<le> of_int z" by simp
  then have "rnd64 1 \<le> rnd64 (of_int z)" by (rule b64.mono)
  moreover have "rnd64 1 = 1" using b64.exact_int [of 1] by simp
  ultimately show ?thesis by (auto simp: d_of_int_def mk_dbl_def Let_def)
qed

lemma d_nonneg_mul_pos:
  assumes "d_lt (DFin 0) a" "d_lt (DFin 0) b"
  shows "d_nonneg (d_mul a b)"
proof (cases "isfinite a \<and> isfinite b")
  case True
  then have "0 \<le> rval a * rval b" using assms by (auto simp: d_lt_finite)
  then show ?thesis using True by (simp add: d_mul_finite d_nonneg_mk_dbl)
next
  case False
  then show ?thesis
    using assms by (cases a; cases b)
      (auto simp: d_mul_def isnan_def d_nonneg_cases is_zero_def Let_def split: if_splits)
qed

lemma d_nonneg_div_const: "d_nonneg a \<Longrightarrow> 0 < r \<Longrightarrow> d_nonneg (d_div a (DFin r))"
  by (auto simp: d_nonneg_cases [of a] d_div_finite d_nonneg_mk_dbl)
    (auto simp: d_div_def isnan_def d_nonneg_cases is_zero_def)

lemma d_mul_finite_not_nan: "isfinite a \<Longrightarrow> isfinite b \<Longrightarrow> \<not> isnan (d_mul a b)"
  by (simp add: d_mul_finite)

lemma not_lt_zero_nonneg: "\<not> isnan d \<Longrightarrow> \<not> d_lt d (DFin 0) \<Longrightarrow> d_nonneg d"
  by (cases d) (auto simp: d_nonneg_cases isnan_def)

lemma d_lt_total: "\<not> isnan a \<Longrightarrow> \<not> isnan b \<Longrightarrow> \<not> d_lt a b \<Longrightarrow> \<not> d_eq a b \<Longrightarrow> d_lt b a"
  by (cases a; cases b) (auto simp: isnan_def)

lemma d_lt_not_nan: "d_lt a b \<Longrightarrow> \<not> isnan a \<and> \<not> isnan b"
  by (cases a; cases b) (auto simp: isnan_def)

end
