(* ===== verification/Lifecycle.thy ===== *)
theory Lifecycle
  imports Prelude
begin

text \<open>
  Startup and shutdown of the modules that keep a list of units (interfaces, masters, servers), each
  with its own resources: the loops as the code has them, the ledger that says when a resource may be
  taken and given back, and the contract of a unit (\<open>startable\<close>) from which the same follows for the
  whole module.
\<close>

subsection \<open>Units\<close>

datatype 'r event = Acquire 'r | Release 'r

fun tag :: "'i \<Rightarrow> 'k event \<Rightarrow> ('i \<times> 'k) event" where
  "tag i (Acquire k) = Acquire (i, k)"
| "tag i (Release k) = Release (i, k)"

text \<open>
  The loops of a module's startup and shutdown. \<open>start\<close> and \<open>stop\<close> handle one unit, \<open>env\<close> gives what the
  system calls of each unit's startup return.
\<close>

fun start_units ::
  "('e \<Rightarrow> 'u \<Rightarrow> bool \<times> 'u \<times> 'k event list) \<Rightarrow> (nat \<Rightarrow> 'e) \<Rightarrow> nat \<Rightarrow> 'u list \<Rightarrow>
    bool \<times> 'u list \<times> (nat \<times> 'k) event list" where
  "start_units start env i [] = (True, [], [])"
| "start_units start env i (u # us) =
     (let (ok, u', evs) = start (env i) u in
      if \<not> ok then (False, u' # us, map (tag i) evs)
      else let (ok', us', more) = start_units start env (Suc i) us in (ok', u' # us', map (tag i) evs @ more))"

fun stop_units ::
  "('u \<Rightarrow> 'u \<times> 'k event list) \<Rightarrow> nat \<Rightarrow> 'u list \<Rightarrow> 'u list \<times> (nat \<times> 'k) event list" where
  "stop_units stop i [] = ([], [])"
| "stop_units stop i (u # us) =
     (let (u', evs) = stop u; (us', more) = stop_units stop (Suc i) us in (u' # us', map (tag i) evs @ more))"

text \<open>A startup that fails shuts down what was started.\<close>

definition startup_all ::
  "('e \<Rightarrow> 'u \<Rightarrow> bool \<times> 'u \<times> 'k event list) \<Rightarrow> ('u \<Rightarrow> 'u \<times> 'k event list) \<Rightarrow> (nat \<Rightarrow> 'e) \<Rightarrow> 'u list \<Rightarrow>
    bool \<times> 'u list \<times> (nat \<times> 'k) event list" where
  "startup_all start stop env us =
     (let (ok, us1, evs) = start_units start env 0 us in
      if ok then (True, us1, evs)
      else let (us2, more) = stop_units stop 0 us1 in (False, us2, evs @ more))"

text \<open>The only thread of a module; the flag is its \<open>thread_running\<close>, \<open>created\<close> the outcome of \<open>pthread_create\<close>.\<close>

definition thread_startup :: "bool \<Rightarrow> bool \<Rightarrow> bool \<times> bool \<times> unit event list" where
  "thread_startup created running = (if created then (True, True, [Acquire ()]) else (False, False, []))"

definition thread_shutdown :: "bool \<Rightarrow> bool \<times> unit event list" where
  "thread_shutdown running = (False, if running then [Release ()] else [])"

subsection \<open>The ledger\<close>

text \<open>
  \<open>needs r\<close> are the resources that must be there when \<open>r\<close> is taken, \<open>uses r\<close> those that must not go away
  while \<open>r\<close> is held; what a thread opens while it runs (the client sockets of a server) it uses without
  needing it for its start. A resource is taken at most once and with what it needs, and given back once
  and only when nothing that is held uses it.
\<close>

fun ledger :: "('r \<Rightarrow> 'r set) \<Rightarrow> ('r \<Rightarrow> 'r set) \<Rightarrow> 'r set \<Rightarrow> 'r event list \<Rightarrow> 'r set option" where
  "ledger needs uses held [] = Some held"
| "ledger needs uses held (Acquire r # evs) =
     (if r \<notin> held \<and> needs r \<subseteq> held then ledger needs uses (insert r held) evs else None)"
| "ledger needs uses held (Release r # evs) =
     (if r \<in> held \<and> (\<forall>u \<in> held. r \<notin> uses u) then ledger needs uses (held - {r}) evs else None)"

lemma ledger_append:
  "ledger needs uses held (evs @ more) = (case ledger needs uses held evs of None \<Rightarrow> None | Some h \<Rightarrow> ledger needs uses h more)"
  by (induction needs uses held evs rule: ledger.induct) auto

lemma ledger_releases:
  assumes "distinct rs" "set rs \<subseteq> held" "\<forall>u \<in> held. uses u \<inter> set rs = {}"
  shows "ledger needs uses held (map Release rs) = Some (held - set rs)"
  using assms
proof (induction rs arbitrary: held)
  case (Cons r rs)
  have "ledger needs uses (held - {r}) (map Release rs) = Some (held - {r} - set rs)"
    using Cons.prems by (intro Cons.IH) auto
  then show ?case using Cons.prems by (auto simp: Diff_insert2 [symmetric])
qed simp

lemma ledger_appendI: "ledger needs uses held evs = Some h \<Longrightarrow> ledger needs uses h more = r \<Longrightarrow> ledger needs uses held (evs @ more) = r"
  by (simp add: ledger_append)

text \<open>The resources of a unit by its index; units do not need each other.\<close>

definition of_unit :: "nat \<Rightarrow> 'k set \<Rightarrow> (nat \<times> 'k) set" where
  "of_unit i K = Pair i ` K"

definition unit_needs :: "('k \<Rightarrow> 'k set) \<Rightarrow> nat \<times> 'k \<Rightarrow> (nat \<times> 'k) set" where
  "unit_needs needs = (\<lambda>(i, k). of_unit i (needs k))"

lemma of_unit_simps [simp]:
  "of_unit i {} = {}" "(j, k) \<in> of_unit i K \<longleftrightarrow> j = i \<and> k \<in> K" "insert (i, k) (of_unit i K) = of_unit i (insert k K)"
  "of_unit i K - {(i, k)} = of_unit i (K - {k})" "of_unit i K \<subseteq> of_unit i K' \<longleftrightarrow> K \<subseteq> K'" "fst ` of_unit i K \<subseteq> {i}"
  by (auto simp: of_unit_def)

lemma ledger_frame:
  assumes "ledger needs uses K evs = Some K'" "\<forall>(j, k) \<in> other. j \<noteq> i"
  shows "ledger (unit_needs needs) (unit_needs uses) (of_unit i K \<union> other) (map (tag i) evs) = Some (of_unit i K' \<union> other)"
  using assms(1)
proof (induction evs arbitrary: K)
  case (Cons ev evs)
  show ?case
  proof (cases ev)
    case (Acquire k)
    have "(i, k) \<notin> of_unit i K \<union> other" "unit_needs needs (i, k) \<subseteq> of_unit i K \<union> other"
      using Cons.prems assms(2) Acquire by (auto simp: unit_needs_def of_unit_def split: if_splits)
    moreover have "insert (i, k) (of_unit i K \<union> other) = of_unit i (insert k K) \<union> other" by auto
    ultimately show ?thesis using Cons Acquire by (auto split: if_splits)
  next
    case (Release k)
    have "(i, k) \<in> of_unit i K" "\<forall>u \<in> of_unit i K \<union> other. (i, k) \<notin> unit_needs uses u"
      using Cons.prems assms(2) Release by (auto simp: unit_needs_def of_unit_def split: if_splits)
    moreover have "of_unit i K \<union> other - {(i, k)} = of_unit i (K - {k}) \<union> other" using assms(2) by auto
    ultimately show ?thesis using Cons Release by (auto split: if_splits)
  qed
qed simp

subsection \<open>The contract of a unit\<close>

fun owned :: "('u \<Rightarrow> 'k set) \<Rightarrow> nat \<Rightarrow> 'u list \<Rightarrow> (nat \<times> 'k) set" where
  "owned owns i [] = {}"
| "owned owns i (u # us) = of_unit i (owns u) \<union> owned owns (Suc i) us"

lemma owned_index: "(j, k) \<in> owned owns i us \<Longrightarrow> i \<le> j"
  by (induction us arbitrary: i) (auto dest: Suc_leD)

lemma owned_none [simp]: "\<forall>u \<in> set us. owns u = {} \<Longrightarrow> owned owns i us = {}"
  by (induction us arbitrary: i) simp_all

text \<open>
  A unit that has nothing is started, or nothing of it is left; whatever it has is given back by
  stopping it. \<open>inv\<close> is what the unit keeps while it runs.
\<close>

locale startable =
  fixes start :: "'e \<Rightarrow> 'u \<Rightarrow> bool \<times> 'u \<times> 'k event list"
    and stop :: "'u \<Rightarrow> 'u \<times> 'k event list"
    and owns :: "'u \<Rightarrow> 'k set"
    and needs :: "'k \<Rightarrow> 'k set"
    and uses :: "'k \<Rightarrow> 'k set"
    and inv :: "'u \<Rightarrow> bool"
  assumes start_ok: "inv u \<Longrightarrow> owns u = {} \<Longrightarrow> start e u = (ok, u', evs) \<Longrightarrow>
      ledger needs uses {} evs = Some (owns u') \<and> inv u' \<and> (\<not> ok \<longrightarrow> owns u' = {})"
    and stop_ok: "inv u \<Longrightarrow> stop u = (u', evs) \<Longrightarrow> ledger needs uses (owns u) evs = Some {} \<and> inv u' \<and> owns u' = {}"
begin

definition down :: "'u list \<Rightarrow> bool" where
  "down us \<longleftrightarrow> (\<forall>u \<in> set us. inv u \<and> owns u = {})"

lemma down_simps [simp]: "down []" "down (u # us) \<longleftrightarrow> inv u \<and> owns u = {} \<and> down us"
  by (auto simp: down_def)

lemma down_owned: "down us \<Longrightarrow> owned owns i us = {}"
  by (simp add: down_def)

lemma start_units_ok:
  assumes "start_units start env i us = (ok, us', evs)" "down us" "\<forall>(j, k) \<in> before. j < i"
  shows "ledger (unit_needs needs) (unit_needs uses) before evs = Some (before \<union> owned owns i us') \<and> (\<forall>u \<in> set us'. inv u)"
  using assms
proof (induction us arbitrary: i ok us' evs before)
  case (Cons u us)
  obtain ok1 u1 evs1 where s: "start (env i) u = (ok1, u1, evs1)" by (metis prod_cases3)
  have l: "ledger needs uses {} evs1 = Some (owns u1)" "inv u1" using start_ok [OF _ _ s] Cons.prems(2) by simp_all
  have "\<forall>(j, k) \<in> before. j \<noteq> i" using Cons.prems(3) by auto
  from ledger_frame [OF l(1) this]
  have one: "ledger (unit_needs needs) (unit_needs uses) before (map (tag i) evs1) = Some (of_unit i (owns u1) \<union> before)" by simp
  show ?case
  proof (cases ok1)
    case True
    obtain ok2 us2 more where r: "start_units start env (Suc i) us = (ok2, us2, more)" by (metis prod_cases3)
    have b: "\<forall>(j, k) \<in> of_unit i (owns u1) \<union> before. j < Suc i" using Cons.prems(3) by (auto simp: of_unit_def)
    have "ledger (unit_needs needs) (unit_needs uses) (of_unit i (owns u1) \<union> before) more =
        Some (of_unit i (owns u1) \<union> before \<union> owned owns (Suc i) us2) \<and> (\<forall>u \<in> set us2. inv u)"
      using Cons.IH [OF r _ b] Cons.prems(2) by simp
    then show ?thesis using Cons.prems(1) s r True l(2) ledger_appendI [OF one] by (auto simp: ac_simps)
  next
    case False
    then have "us' = u1 # us" "evs = map (tag i) evs1" using Cons.prems(1) s by simp_all
    then show ?thesis using one l(2) Cons.prems(2) down_owned by (auto simp: Un_commute down_def)
  qed
qed simp

lemma stop_units_ok:
  assumes "stop_units stop i us = (us', evs)" "\<forall>u \<in> set us. inv u"
  shows "ledger (unit_needs needs) (unit_needs uses) (owned owns i us) evs = Some {} \<and> down us'"
  using assms
proof (induction us arbitrary: i us' evs)
  case (Cons u us)
  obtain u1 evs1 us2 more where s: "stop u = (u1, evs1)" "stop_units stop (Suc i) us = (us2, more)"
    "us' = u1 # us2" "evs = map (tag i) evs1 @ more" using Cons.prems by (auto split: prod.splits)
  have u: "ledger needs uses (owns u) evs1 = Some {} \<and> inv u1 \<and> owns u1 = {}" using stop_ok [OF _ s(1)] Cons.prems(2) by simp
  have rest: "\<forall>(j, k) \<in> owned owns (Suc i) us. j \<noteq> i" by (auto dest: owned_index)
  have "ledger (unit_needs needs) (unit_needs uses) (of_unit i (owns u) \<union> owned owns (Suc i) us) (map (tag i) evs1) =
      Some (owned owns (Suc i) us)"
    using ledger_frame [OF _ rest] u by fastforce
  from ledger_appendI [OF this] show ?case using Cons.IH [OF s(2)] Cons.prems(2) u s(3,4) by simp
qed simp

text \<open>The module: all of it is up, or none; then shutdown gives everything back.\<close>

lemma startup_all_ok:
  assumes "startup_all start stop env us = (ok, us', evs)" "down us"
  shows "ledger (unit_needs needs) (unit_needs uses) {} evs = Some (owned owns 0 us') \<and> (\<forall>u \<in> set us'. inv u) \<and> (\<not> ok \<longrightarrow> down us')"
proof -
  obtain ok1 us1 evs1 where s: "start_units start env 0 us = (ok1, us1, evs1)" by (metis prod_cases3)
  obtain us2 more where t: "stop_units stop 0 us1 = (us2, more)" by force
  have one: "ledger (unit_needs needs) (unit_needs uses) {} evs1 = Some (owned owns 0 us1)" "\<forall>u \<in> set us1. inv u"
    using start_units_ok [OF s assms(2), of "{}"] by simp_all
  show ?thesis
  proof (cases ok1)
    case True
    then show ?thesis using assms(1) s one by (simp add: startup_all_def)
  next
    case False
    then have "us' = us2" "evs = evs1 @ more" using assms(1) s t by (simp_all add: startup_all_def)
    moreover have r: "ledger (unit_needs needs) (unit_needs uses) (owned owns 0 us1) more = Some {}" "down us2"
      using stop_units_ok [OF t one(2)] by simp_all
    ultimately show ?thesis using ledger_appendI [OF one(1) r(1)] down_owned by (simp add: down_def)
  qed
qed

lemma startup_shutdown:
  assumes "startup_all start stop env us = (ok, us1, evs)" "stop_units stop 0 us1 = (us2, more)" "down us"
  shows "ledger (unit_needs needs) (unit_needs uses) {} (evs @ more) = Some {}"
proof -
  have up: "ledger (unit_needs needs) (unit_needs uses) {} evs = Some (owned owns 0 us1)" "\<forall>u \<in> set us1. inv u"
    using startup_all_ok [OF assms(1,3)] by simp_all
  show ?thesis using ledger_appendI [OF up(1)] stop_units_ok [OF assms(2) up(2)] by simp
qed

end

interpretation module_thread:
  startable thread_startup thread_shutdown "\<lambda>running. if running then {()} else {}" "\<lambda>_. {}" "\<lambda>_. {}" "\<lambda>_. True"
  by unfold_locales (auto simp: thread_startup_def thread_shutdown_def split: if_splits)

end
