(* ===== verification/Dispatch.thy ===== *)
theory Dispatch
  imports CDouble Lifecycle
begin

text \<open>
  The named value dispatcher of uvrgw_conf.c: the list of dispatchers that configuration
  builds, registration of producers and output callbacks, dispatching a value, reading it,
  and the watchdog that resets stale values.

  A dispatcher pointer is the index of the node in the list (nodes are only appended, never
  moved or removed while the program runs). \<open>fire_cbs\<close> is modelled by the list of calls it makes,
  in order: it reads only the callback array, which no callback changes. The callbacks
  themselves are the modules' operations. The two locks make every operation atomic.
  Allocation failure is not modelled.
\<close>

subsection \<open>Types\<close>

text \<open>Value pointers (the source identifiers) and the dispatch callbacks of the modules.\<close>

datatype val_ref =
    CanVal nat nat nat        \<comment> \<open>interface, frame, value\<close>
  | MbVal bool nat nat nat nat \<comment> \<open>tcp?, master, slave, block, value\<close>
  | MqttVal nat nat           \<comment> \<open>connection, value\<close>
  | JsonVal nat nat           \<comment> \<open>connection, value\<close>
  | CounterRef nat
  | EvalRef nat

datatype cb_fn = Can_send_value | Mb_write_schedule | Mqtt_send_value | Counter_source_update | Eval_trigger_update

record cb_entry =
  ce_val :: "val_ref option"
  ce_cb :: "cb_fn option"

record dnode =
  dp_name :: string
  dp_producer :: "string option"
  dp_value_count :: nat
  dp_value_cbs_pos :: nat
  dp_value_cbs :: "cb_entry list"
  dp_producer_val :: "val_ref option"
  dp_producer_input :: bool
  dp_timeout_reader :: "string option"
  dp_init_value :: dbl
  dp_stale_timeout :: int
  dp_deadline :: ticks
  dp_timed_out :: bool
  dp_received :: bool
  dp_last_value :: dbl
  dp_valid :: bool

text \<open>A call of a callback: \<open>cb(val, f, valid)\<close>.\<close>

datatype call = Call cb_fn (call_val: "val_ref option") dbl bool

datatype conf_error =
    AlreadyProduced | InitValueInvalid | StaleTimeoutInvalid
  | NotProduced string | NoStaleTimeout string | CallbackCountExceeded

definition new_dnode :: "string \<Rightarrow> dnode" where
  "new_dnode name =
     \<lparr>dp_name = name, dp_producer = None, dp_value_count = 0, dp_value_cbs_pos = 0, dp_value_cbs = [],
      dp_producer_val = None, dp_producer_input = False, dp_timeout_reader = None,
      dp_init_value = DFin 0, dp_stale_timeout = 0, dp_deadline = 0, dp_timed_out = False,
      dp_received = False, dp_last_value = DFin 0, dp_valid = False\<rparr>"

subsection \<open>Configuration\<close>

fun find_disp :: "string \<Rightarrow> dnode list \<Rightarrow> nat option" where
  "find_disp name [] = None"
| "find_disp name (dp # ds) =
     (if dp_name dp = name then Some 0 else map_option Suc (find_disp name ds))"

definition count_cb :: "bool \<Rightarrow> dnode \<Rightarrow> dnode" where
  "count_cb alloc_cb dp = (if alloc_cb then dp\<lparr>dp_value_count := dp_value_count dp + 1\<rparr> else dp)"

definition uvrgw_conf_get_dispatcher :: "string \<Rightarrow> bool \<Rightarrow> dnode list \<Rightarrow> dnode list \<times> nat" where
  "uvrgw_conf_get_dispatcher name alloc_cb ds =
     (case find_disp name ds of
        Some i \<Rightarrow> (ds[i := count_cb alloc_cb (ds ! i)], i)
      | None \<Rightarrow> (ds @ [count_cb alloc_cb (new_dnode name)], length ds))"

definition owner_str :: "string \<Rightarrow> string \<Rightarrow> string" where
  "owner_str mdl inst = mdl @ '' '' @ [CHR 0x27] @ inst @ [CHR 0x27]"

definition uvrgw_conf_set_producer ::
  "string \<Rightarrow> string \<Rightarrow> val_ref option \<Rightarrow> bool \<Rightarrow> dbl \<Rightarrow> int \<Rightarrow> dnode \<Rightarrow> conf_error + dnode" where
  "uvrgw_conf_set_producer mdl inst val input init_value stale_timeout dp =
     (if dp_producer dp \<noteq> None then Inl AlreadyProduced
      else if \<not> isfinite init_value then Inl InitValueInvalid
      else if stale_timeout < 0 then Inl StaleTimeoutInvalid
      else Inr (dp\<lparr>dp_producer := Some (owner_str mdl inst), dp_producer_val := val,
                  dp_producer_input := input, dp_init_value := init_value,
                  dp_stale_timeout := stale_timeout, dp_last_value := init_value\<rparr>))"

definition uvrgw_conf_need_timeout :: "string \<Rightarrow> string \<Rightarrow> dnode \<Rightarrow> dnode" where
  "uvrgw_conf_need_timeout mdl inst dp =
     (if dp_timeout_reader dp \<noteq> None then dp
      else dp\<lparr>dp_timeout_reader := Some (owner_str mdl inst)\<rparr>)"

fun check_dispatchers :: "dnode list \<Rightarrow> conf_error option" where
  "check_dispatchers [] = None"
| "check_dispatchers (dp # ds) =
     (if dp_producer dp = None then Some (NotProduced (dp_name dp))
      else if dp_timeout_reader dp \<noteq> None \<and> dp_producer_input dp \<and> dp_stale_timeout dp = 0
        then Some (NoStaleTimeout (dp_name dp))
      else check_dispatchers ds)"

definition init_dispatcher :: "dnode list \<Rightarrow> dnode list" where
  "init_dispatcher =
     map (\<lambda>dp. let dp = dp\<lparr>dp_value_cbs_pos := 0\<rparr> in
       if 0 < dp_value_count dp
       then dp\<lparr>dp_value_cbs := replicate (dp_value_count dp) \<lparr>ce_val = None, ce_cb = None\<rparr>\<rparr>
       else dp)"

definition uvrgw_conf_register_disp_cb :: "val_ref \<Rightarrow> cb_fn \<Rightarrow> dnode \<Rightarrow> conf_error + dnode" where
  "uvrgw_conf_register_disp_cb val cb dp =
     (if dp_value_count dp \<le> dp_value_cbs_pos dp then Inl CallbackCountExceeded
      else Inr (dp\<lparr>dp_value_cbs := (dp_value_cbs dp)[dp_value_cbs_pos dp := \<lparr>ce_val = Some val, ce_cb = Some cb\<rparr>],
                  dp_value_cbs_pos := dp_value_cbs_pos dp + 1\<rparr>))"

text \<open>The registration of a module's outputs, each with its dispatcher; it stops at the first failure.\<close>

fun register_vals :: "(val_ref \<times> nat) list \<Rightarrow> cb_fn \<Rightarrow> dnode list \<Rightarrow> conf_error + dnode list" where
  "register_vals [] cb ds = Inr ds"
| "register_vals ((val, d) # vals) cb ds =
     (case uvrgw_conf_register_disp_cb val cb (ds ! d) of
        Inl e \<Rightarrow> Inl e
      | Inr dp \<Rightarrow> register_vals vals cb (ds[d := dp]))"

subsection \<open>Dispatching and reading\<close>

fun fire_cbs :: "cb_entry list \<Rightarrow> val_ref option \<Rightarrow> dbl \<Rightarrow> bool \<Rightarrow> call list" where
  "fire_cbs [] val f valid = []"
| "fire_cbs (cbv # cbvs) val f valid =
     (case ce_cb cbv of
        Some cb \<Rightarrow> (if ce_val cbv \<noteq> val then [Call cb (ce_val cbv) f valid] else [])
      | None \<Rightarrow> []) @ fire_cbs cbvs val f valid"

definition uvrgw_conf_disp_val ::
  "ticks \<Rightarrow> val_ref option \<Rightarrow> dbl \<Rightarrow> bool \<Rightarrow> dnode \<Rightarrow> dnode \<times> call list \<times> logmsg list" where
  "uvrgw_conf_disp_val now val f valid dp =
     (if \<not> isfinite f then (dp, [], [])
      else let
        dp1 = dp\<lparr>dp_last_value := f, dp_valid := valid\<rparr>;
        dp2 = (if valid then
                 let d = dp1\<lparr>dp_received := True\<rparr>;
                     d = (if 0 < dp_stale_timeout d then d\<lparr>dp_deadline := now + dp_stale_timeout d\<rparr> else d)
                 in d\<lparr>dp_timed_out := False\<rparr>
               else dp1);
        msgs = (if valid \<and> dp_timed_out dp then [(LOG_INFO, ''value received again'')] else [])
      in (dp2, fire_cbs (dp_value_cbs dp) val f valid, msgs))"

definition uvrgw_conf_get_val :: "dnode \<Rightarrow> bool \<times> dbl" where
  "uvrgw_conf_get_val dp = (dp_valid dp, dp_last_value dp)"

subsection \<open>Watchdog\<close>

definition arm :: "ticks \<Rightarrow> dnode \<Rightarrow> dnode" where
  "arm now dp =
     (if 0 < dp_stale_timeout dp \<and> dp_deadline dp = 0
      then dp\<lparr>dp_deadline := now + dp_stale_timeout dp\<rparr> else dp)"

text \<open>Arms all timeouts and starts the thread if there are any: success, whether the thread runs, the dispatchers.\<close>

definition uvrgw_conf_startup :: "ticks \<Rightarrow> bool \<Rightarrow> dnode list \<Rightarrow> bool \<times> bool \<times> dnode list" where
  "uvrgw_conf_startup now created ds =
     (let ds' = map (arm now) ds in
      if \<not> list_ex (\<lambda>dp. 0 < dp_stale_timeout dp) ds then (True, False, ds')
      else let (ok, running, evs) = thread_startup created False in (ok, running, ds'))"

definition uvrgw_conf_shutdown :: "bool \<Rightarrow> bool" where
  "uvrgw_conf_shutdown running = fst (thread_shutdown running)"

definition watchdog_check :: "ticks \<Rightarrow> dnode \<Rightarrow> dnode \<times> call list \<times> logmsg list" where
  "watchdog_check now dp =
     (if dp_deadline dp \<noteq> 0 \<and> dp_deadline dp \<le> now
      then (dp\<lparr>dp_deadline := 0, dp_timed_out := True, dp_last_value := dp_init_value dp, dp_valid := False\<rparr>,
            fire_cbs (dp_value_cbs dp) (dp_producer_val dp) (dp_init_value dp) False,
            [(LOG_WARNING, if dp_received dp then ''value timed out'' else ''value never received'')])
      else (dp, [], []))"

text \<open>One pass of the thread: the time of the next check, the dispatchers, the calls and messages.\<close>

definition WATCHDOG_CHECK_MS :: ticks where "WATCHDOG_CHECK_MS = 1000"

fun watchdog_checks :: "ticks \<Rightarrow> dnode list \<Rightarrow> dnode list \<times> call list \<times> logmsg list" where
  "watchdog_checks now [] = ([], [], [])"
| "watchdog_checks now (dp # ds) =
     (let (dp', calls, msgs) = (if 0 < dp_stale_timeout dp then watchdog_check now dp else (dp, [], []));
          (ds', calls', msgs') = watchdog_checks now ds
      in (dp' # ds', calls @ calls', msgs @ msgs'))"

definition watchdog_pass :: "ticks \<Rightarrow> ticks \<Rightarrow> dnode list \<Rightarrow> ticks \<times> dnode list \<times> call list \<times> logmsg list" where
  "watchdog_pass now next_check ds =
     (if next_check \<le> now then (now + WATCHDOG_CHECK_MS, watchdog_checks now ds) else (next_check, ds, [], []))"

lemmas [conf_simps] = uvrgw_conf_get_dispatcher_def count_cb_def uvrgw_conf_set_producer_def
  uvrgw_conf_need_timeout_def uvrgw_conf_register_disp_cb_def uvrgw_conf_disp_val_def
  uvrgw_conf_get_val_def arm_def watchdog_check_def new_dnode_def Let_def

text \<open>A call of \<open>uvrgw_conf_disp_val\<close> that a module makes: dispatcher, source, number and validity.\<close>

datatype disp_req = Disp nat "val_ref option" dbl bool

text \<open>
  \<open>uvrgw_conf_config_childs\<close>: the sections of one kind, in order, each with its index (which
  identifies the child's data); the first section that is refused ends the configuration.
\<close>

fun config_childs ::
  "('c \<Rightarrow> nat \<Rightarrow> 'd \<Rightarrow> 'e + 'x \<times> 'd) \<Rightarrow> nat \<Rightarrow> 'c list \<Rightarrow> 'd \<Rightarrow> 'e + 'x list \<times> 'd" where
  "config_childs cccb i [] d = Inr ([], d)"
| "config_childs cccb i (c # cs) d =
     (case cccb c i d of
        Inl e \<Rightarrow> Inl e
      | Inr (x, d1) \<Rightarrow>
          (case config_childs cccb (Suc i) cs d1 of
             Inl e \<Rightarrow> Inl e
           | Inr (xs, d2) \<Rightarrow> Inr (x # xs, d2)))"

lemma config_childs_length: "config_childs cccb i cs d = Inr (xs, d') \<Longrightarrow> length xs = length cs"
  by (induction cs arbitrary: i d xs) (auto split: sum.splits)

lemma config_childs_inv:
  assumes "config_childs cccb i cs d = Inr (xs, d')" "P d"
    and step: "\<And>c j d x d'. cccb c j d = Inr (x, d') \<Longrightarrow> P d \<Longrightarrow> P d' \<and> Q x"
  shows "P d' \<and> (\<forall>x \<in> set xs. Q x)"
  using assms(1,2)
proof (induction cs arbitrary: i d xs)
  case Nil
  then show ?case by simp
next
  case (Cons c cs)
  then show ?case by (auto split: sum.splits) (use step in blast)+
qed

lemma config_childs_all:
  assumes "config_childs cccb i cs d = Inr (xs, d')"
    and "\<And>c j d x d'. cccb c j d = Inr (x, d') \<Longrightarrow> Q x"
  shows "\<forall>x \<in> set xs. Q x"
  using config_childs_inv [OF assms(1), where P = "\<lambda>_. True" and Q = Q] assms(2) by blast

subsection \<open>The list of dispatchers\<close>

definition disps_ok :: "dnode list \<Rightarrow> bool" where
  "disps_ok ds \<longleftrightarrow> distinct (map dp_name ds)"

lemma find_disp_Some: "find_disp name ds = Some i \<Longrightarrow> i < length ds \<and> dp_name (ds ! i) = name"
  by (induction ds arbitrary: i) (auto split: if_splits)

lemma find_disp_None: "find_disp name ds = None \<longleftrightarrow> name \<notin> dp_name ` set ds"
  by (induction ds) auto

lemma find_disp_first:
  "find_disp name ds = Some i \<Longrightarrow> j < i \<Longrightarrow> dp_name (ds ! j) \<noteq> name"
proof (induction ds arbitrary: i j)
  case (Cons dp ds)
  then show ?case by (cases j) (auto split: if_splits)
qed simp

lemma dp_name_count_cb [simp]: "dp_name (count_cb a dp) = dp_name dp"
  by (simp add: count_cb_def)

lemma dp_name_new [simp]: "dp_name (new_dnode name) = name"
  by (simp add: new_dnode_def)

fun_cases find_disp_SomeE: "find_disp name ds = Some i"

lemma get_dispatcher_names:
  "map dp_name (fst (uvrgw_conf_get_dispatcher name a ds)) =
    (if name \<in> dp_name ` set ds then map dp_name ds else map dp_name ds @ [name])"
  by (auto simp: uvrgw_conf_get_dispatcher_def find_disp_None [symmetric] map_update
      dest: find_disp_Some split: option.splits intro!: list_update_same_conv [THEN iffD2])

lemma get_dispatcher_index:
  assumes "uvrgw_conf_get_dispatcher name a ds = (ds', i)"
  shows "i < length ds'" and "dp_name (ds' ! i) = name"
  using assms
  by (auto simp: uvrgw_conf_get_dispatcher_def dest: find_disp_Some split: option.splits)

lemma get_dispatcher_other:
  assumes "uvrgw_conf_get_dispatcher name a ds = (ds', i)" "j < length ds" "j \<noteq> i"
  shows "ds' ! j = ds ! j"
  using assms by (auto simp: uvrgw_conf_get_dispatcher_def nth_append split: option.splits)

lemma get_dispatcher_ok:
  "disps_ok ds \<Longrightarrow> disps_ok (fst (uvrgw_conf_get_dispatcher name a ds))"
  by (auto simp: disps_ok_def get_dispatcher_names)

lemma get_dispatcher_idem:
  assumes "uvrgw_conf_get_dispatcher name a ds = (ds', i)" "disps_ok ds"
  shows "find_disp name ds' = Some i"
proof -
  have ok: "disps_ok ds'" using get_dispatcher_ok [OF assms(2)] assms(1) by (metis fst_conv)
  have i: "i < length ds'" "dp_name (ds' ! i) = name" using get_dispatcher_index [OF assms(1)] .
  then have "name \<in> dp_name ` set ds'" by force
  then obtain j where j: "find_disp name ds' = Some j"
    by (metis find_disp_None not_None_eq)
  have "j = i"
    using ok i find_disp_Some [OF j] unfolding disps_ok_def
    by (metis length_map nth_eq_iff_index_eq nth_map)
  with j show ?thesis by simp
qed

text \<open>
  Names that have a producer, with its name and the value it registered: once produced, a name stays so,
  at the same node and by the same producer.
\<close>

definition produced_by :: "dnode list \<Rightarrow> string \<Rightarrow> nat \<Rightarrow> string \<Rightarrow> val_ref option \<Rightarrow> bool" where
  "produced_by ds name i owner val \<longleftrightarrow>
     find_disp name ds = Some i \<and> dp_producer (ds ! i) = Some owner \<and> dp_producer_val (ds ! i) = val"

definition produced :: "dnode list \<Rightarrow> string \<Rightarrow> nat \<Rightarrow> bool" where
  "produced ds name i \<longleftrightarrow> (\<exists>owner val. produced_by ds name i owner val)"

lemma produced_iff: "produced ds name i \<longleftrightarrow> find_disp name ds = Some i \<and> dp_producer (ds ! i) \<noteq> None"
  by (auto simp: produced_def produced_by_def)

lemma find_disp_prefix:
  "map dp_name ds' = map dp_name ds @ ns \<Longrightarrow> find_disp n ds = Some i \<Longrightarrow> find_disp n ds' = Some i"
proof (induction ds arbitrary: ds' i)
  case (Cons dp ds)
  then show ?case by (cases ds') (auto split: if_splits)
qed simp

lemma get_dispatcher_produced_by:
  assumes "produced_by ds n i owner val" "uvrgw_conf_get_dispatcher name a ds = (ds', j)"
  shows "produced_by ds' n i owner val"
proof -
  have i: "i < length ds" using assms(1) find_disp_Some unfolding produced_by_def by blast
  have "\<exists>ns. map dp_name ds' = map dp_name ds @ ns"
    using get_dispatcher_names [of name a ds] assms(2) by (auto split: if_splits)
  then have "find_disp n ds' = Some i"
    using assms(1) find_disp_prefix unfolding produced_by_def by blast
  moreover have "dp_producer (ds' ! i) = dp_producer (ds ! i) \<and> dp_producer_val (ds' ! i) = dp_producer_val (ds ! i)"
    using assms(2) i by (cases "i = j") (auto simp: uvrgw_conf_get_dispatcher_def count_cb_def nth_append
        dest: find_disp_Some split: option.splits if_splits)
  ultimately show ?thesis using assms(1) by (simp add: produced_by_def)
qed

lemma update_produced_by:
  assumes "produced_by ds n i owner val" "dp_name dp = dp_name (ds ! j)"
    and "dp_producer (ds ! j) \<noteq> None \<longrightarrow> dp_producer dp = dp_producer (ds ! j) \<and> dp_producer_val dp = dp_producer_val (ds ! j)"
  shows "produced_by (ds[j := dp]) n i owner val"
proof (cases "j < length ds")
  case True
  have "map dp_name (ds[j := dp]) = map dp_name ds @ []"
    using assms(2) True by (simp add: map_update list_update_same_conv)
  then have "find_disp n (ds[j := dp]) = Some i" using assms(1) find_disp_prefix unfolding produced_by_def by blast
  then show ?thesis using assms True by (auto simp: produced_by_def nth_list_update)
next
  case False
  then show ?thesis using assms(1) by (simp add: list_update_beyond)
qed

lemma update_disps_ok:
  assumes "disps_ok ds" "dp_name dp = dp_name (ds ! j)"
  shows "disps_ok (ds[j := dp])"
proof (cases "j < length ds")
  case True
  then have "map dp_name (ds[j := dp]) = map dp_name ds" using assms(2) by (simp add: map_update list_update_same_conv)
  then show ?thesis using assms(1) by (simp add: disps_ok_def)
next
  case False
  then show ?thesis using assms(1) by (simp add: list_update_beyond)
qed

lemma set_producer_Inr:
  assumes "uvrgw_conf_set_producer m i v inp iv st dp = Inr dp'"
  shows "dp_producer dp = None" "dp_producer dp' = Some (owner_str m i)" "dp_producer_val dp' = v" "dp_name dp' = dp_name dp"
  using assms by (auto simp: conf_simps split: if_splits)

lemma need_timeout_frame [simp]:
  "dp_name (uvrgw_conf_need_timeout m i dp) = dp_name dp"
  "dp_producer (uvrgw_conf_need_timeout m i dp) = dp_producer dp"
  "dp_producer_val (uvrgw_conf_need_timeout m i dp) = dp_producer_val dp"
  by (simp_all add: uvrgw_conf_need_timeout_def)

text \<open>
  What every module does with an own name: look it up and register as its producer. No other
  produced name has the name before, and all produced names keep their producers.
\<close>

lemma produce_name:
  assumes "disps_ok ds" "uvrgw_conf_get_dispatcher name a ds = (ds1, j)"
    and "uvrgw_conf_set_producer m inst v inp iv st (ds1 ! j) = Inr dp"
  shows "disps_ok (ds1[j := dp])" "produced_by (ds1[j := dp]) name j (owner_str m inst) v" "\<not> produced ds name i"
    "produced_by ds n i owner val \<Longrightarrow> produced_by (ds1[j := dp]) n i owner val"
proof -
  note p = set_producer_Inr [OF assms(3)]
  have ok: "disps_ok ds1" using get_dispatcher_ok [OF assms(1), of name a] assms(2) by simp
  have f: "find_disp name ds1 = Some j" "j < length ds1"
    using get_dispatcher_idem [OF assms(2,1)] get_dispatcher_index [OF assms(2)] by simp_all
  show "disps_ok (ds1[j := dp])" using ok p(4) by (rule update_disps_ok)
  have "map dp_name (ds1[j := dp]) = map dp_name ds1 @ []"
    using p(4) f(2) by (simp add: map_update list_update_same_conv)
  then have "find_disp name (ds1[j := dp]) = Some j" using f(1) find_disp_prefix by blast
  then show "produced_by (ds1[j := dp]) name j (owner_str m inst) v" using p(2,3) f(2) by (simp add: produced_by_def)
  show "\<not> produced ds name i"
  proof
    assume "produced ds name i"
    then have "produced ds1 name i" using get_dispatcher_produced_by assms(2) unfolding produced_def by blast
    then show False using f(1) p(1) by (simp add: produced_iff)
  qed
  show "produced_by ds n i owner val \<Longrightarrow> produced_by (ds1[j := dp]) n i owner val"
    using get_dispatcher_produced_by [OF _ assms(2)] update_produced_by p by simp
qed

subsection \<open>One dispatcher\<close>

definition dnode_ok :: "dnode \<Rightarrow> bool" where
  "dnode_ok dp \<longleftrightarrow> isfinite (dp_last_value dp) \<and> isfinite (dp_init_value dp) \<and> 0 \<le> dp_stale_timeout dp"

lemma new_dnode_ok: "dnode_ok (new_dnode name)"
  by (simp add: dnode_ok_def conf_simps)

lemma set_producer_ok:
  "uvrgw_conf_set_producer m i v inp iv st dp = Inr dp' \<Longrightarrow> dnode_ok dp'"
  by (auto simp: dnode_ok_def conf_simps split: if_splits)

lemma need_timeout_ok: "dnode_ok dp \<Longrightarrow> dnode_ok (uvrgw_conf_need_timeout m i dp)"
  by (simp add: dnode_ok_def conf_simps)

lemma register_ok: "dnode_ok dp \<Longrightarrow> uvrgw_conf_register_disp_cb v cb dp = Inr dp' \<Longrightarrow> dnode_ok dp'"
  by (auto simp: dnode_ok_def conf_simps split: if_splits)

text \<open>The configured part of a node, which no operation after configuration changes.\<close>

definition dp_config :: "dnode \<Rightarrow> string \<times> int \<times> dbl \<times> val_ref option \<times> cb_entry list \<times> nat" where
  "dp_config dp = (dp_name dp, dp_stale_timeout dp, dp_init_value dp, dp_producer_val dp,
     dp_value_cbs dp, dp_value_count dp)"

lemma dp_config_eqD:
  "dp_config dp = dp_config dp' \<Longrightarrow> dp_stale_timeout dp = dp_stale_timeout dp' \<and>
    dp_init_value dp = dp_init_value dp' \<and> dp_value_cbs dp = dp_value_cbs dp'"
  by (simp add: dp_config_def)

subsection \<open>Histories of one dispatcher\<close>

datatype dp_event =
    Ev_disp ticks "val_ref option" dbl bool
  | Ev_check ticks

fun dp_step :: "dp_event \<Rightarrow> dnode \<Rightarrow> dnode \<times> call list \<times> logmsg list" where
  "dp_step (Ev_disp now val f v) dp = uvrgw_conf_disp_val now val f v dp"
| "dp_step (Ev_check now) dp = watchdog_check now dp"

fun dp_run :: "dp_event list \<Rightarrow> dnode \<Rightarrow> dnode" where
  "dp_run [] dp = dp"
| "dp_run (e # es) dp = dp_run es (fst (dp_step e dp))"

lemma dp_run_append [simp]: "dp_run (es @ es') dp = dp_run es' (dp_run es dp)"
  by (induction es arbitrary: dp) simp_all

lemma dp_step_config: "dp_config (fst (dp_step e dp)) = dp_config dp"
  by (cases e) (auto simp: dp_config_def conf_simps)

lemma dp_run_config: "dp_config (dp_run es dp) = dp_config dp"
  by (induction es arbitrary: dp) (auto simp: dp_step_config)

lemma dp_step_ok: "dnode_ok dp \<Longrightarrow> dnode_ok (fst (dp_step e dp))"
  by (cases e) (auto simp: dnode_ok_def conf_simps)

lemma dp_run_ok: "dnode_ok dp \<Longrightarrow> dnode_ok (dp_run es dp)"
  by (induction es arbitrary: dp) (auto simp: dp_step_ok)

subsection \<open>The contract of a stored value\<close>

text \<open>
  What the readers of a value (SunSpec meters, the logger, the evals) rely on: the last finite
  value that was put is read back with its validity, and the value read is always finite.
\<close>

locale value_cell =
  fixes put :: "dbl \<Rightarrow> bool \<Rightarrow> 's \<Rightarrow> 's"
    and get :: "'s \<Rightarrow> bool \<times> dbl"
    and inv :: "'s \<Rightarrow> bool"
  assumes inv_put: "inv s \<Longrightarrow> inv (put f v s)"
    and get_put: "isfinite f \<Longrightarrow> get (put f v s) = (v, f)"
    and put_nonfinite: "\<not> isfinite f \<Longrightarrow> put f v s = s"
    and get_finite: "inv s \<Longrightarrow> isfinite (snd (get s))"
begin

fun puts :: "(dbl \<times> bool) list \<Rightarrow> 's \<Rightarrow> 's" where
  "puts [] s = s"
| "puts ((f, v) # ps) s = puts ps (put f v s)"

lemma puts_append: "puts (ps @ qs) s = puts qs (puts ps s)"
  by (induction ps arbitrary: s) auto

lemma inv_puts: "inv s \<Longrightarrow> inv (puts ps s)"
  by (induction ps arbitrary: s) (auto simp: inv_put)

lemma get_puts_finite: "inv s \<Longrightarrow> isfinite (snd (get (puts ps s)))"
  by (simp add: inv_puts get_finite)

lemma puts_nonfinite: "\<forall>(f, v) \<in> set ps. \<not> isfinite f \<Longrightarrow> puts ps s = s"
  by (induction ps arbitrary: s) (auto simp: put_nonfinite)

lemma get_puts_last:
  "isfinite f \<Longrightarrow> \<forall>(g, w) \<in> set qs. \<not> isfinite g \<Longrightarrow> get (puts (ps @ (f, v) # qs) s) = (v, f)"
  by (simp add: puts_append puts_nonfinite get_put)

end

interpretation disp_cell: value_cell
  "\<lambda>f v dp. fst (uvrgw_conf_disp_val now src f v dp)" uvrgw_conf_get_val dnode_ok for now src
  by unfold_locales (auto simp: conf_simps dnode_ok_def)

subsection \<open>Callback delivery\<close>

lemma fire_cbs_append: "fire_cbs (cs @ ds) src f v = fire_cbs cs src f v @ fire_cbs ds src f v"
  by (induction cs) auto

lemma fire_cbs_not_source: "c \<in> set (fire_cbs cbs src f v) \<Longrightarrow> call_val c \<noteq> src"
  by (induction cbs) (auto split: option.splits if_splits)

text \<open>The registrations of all outputs of one name, in the order the modules make them.\<close>

fun register_all :: "(val_ref \<times> cb_fn) list \<Rightarrow> dnode \<Rightarrow> conf_error + dnode" where
  "register_all [] dp = Inr dp"
| "register_all ((val, cb) # regs) dp =
     (case uvrgw_conf_register_disp_cb val cb dp of
        Inl e \<Rightarrow> Inl e
      | Inr dp' \<Rightarrow> register_all regs dp')"

abbreviation entry_of :: "val_ref \<times> cb_fn \<Rightarrow> cb_entry" where
  "entry_of r \<equiv> \<lparr>ce_val = Some (fst r), ce_cb = Some (snd r)\<rparr>"

lemma register_all_fill:
  assumes "length (dp_value_cbs dp) = dp_value_count dp"
    and "dp_value_cbs_pos dp + length regs \<le> dp_value_count dp"
  shows "register_all regs dp = Inr (dp\<lparr>
    dp_value_cbs := splice (dp_value_cbs_pos dp) (map entry_of regs) (dp_value_cbs dp),
    dp_value_cbs_pos := dp_value_cbs_pos dp + length regs\<rparr>)"
  using assms
proof (induction regs arbitrary: dp)
  case Nil
  then show ?case by (simp add: splice_def)
next
  case (Cons r regs)
  obtain val cb where r: "r = (val, cb)" by force
  let ?cbs = "(dp_value_cbs dp)[dp_value_cbs_pos dp := entry_of r]"
  have sp: "splice (Suc (dp_value_cbs_pos dp)) (map entry_of regs) ?cbs =
      splice (dp_value_cbs_pos dp) (map entry_of (r # regs)) (dp_value_cbs dp)"
    using Cons.prems by (simp add: splice_def take_Suc_conv_app_nth upd_conv_take_nth_drop nth_append
        min_def add.commute)
  show ?case
    using Cons.IH [of "dp\<lparr>dp_value_cbs := ?cbs, dp_value_cbs_pos := Suc (dp_value_cbs_pos dp)\<rparr>"]
      Cons.prems sp
    by (simp add: r uvrgw_conf_register_disp_cb_def)
qed

lemma register_all_overflow:
  assumes "length (dp_value_cbs dp) = dp_value_count dp" "dp_value_cbs_pos dp \<le> dp_value_count dp"
    and "dp_value_count dp < dp_value_cbs_pos dp + length regs"
  shows "register_all regs dp = Inl CallbackCountExceeded"
  using assms
proof (induction regs arbitrary: dp)
  case Nil
  then show ?case by simp
next
  case (Cons r regs)
  then show ?case
    by (cases r) (auto simp: uvrgw_conf_register_disp_cb_def not_le)
qed

lemma init_node_fill:
  assumes "dp \<in> set (init_dispatcher ds)" "length regs = dp_value_count dp" "regs \<noteq> []"
  shows "register_all regs dp =
    Inr (dp\<lparr>dp_value_cbs := map entry_of regs, dp_value_cbs_pos := length regs\<rparr>)"
proof -
  have i: "length (dp_value_cbs dp) = dp_value_count dp" "dp_value_cbs_pos dp = 0"
    using assms by (auto simp: init_dispatcher_def Let_def split: if_splits)
  then show ?thesis
    using register_all_fill [of dp regs] assms(2) by (simp add: splice_def)
qed

lemma fire_entries:
  "fire_cbs (map entry_of regs) src f v =
    map (\<lambda>r. Call (snd r) (Some (fst r)) f v) (filter (\<lambda>r. Some (fst r) \<noteq> src) regs)"
  by (induction regs) auto

text \<open>
  C1. After configuration, a dispatched finite value is delivered exactly once to every output
  registered for the name, in registration order, except to the one that is the source of the
  dispatch, and the slots reserved during configuration are exactly enough for the outputs.
\<close>

theorem dispatch_reaches_all_outputs:
  assumes node: "dp \<in> set (init_dispatcher ds)"
    and regs: "length regs = dp_value_count dp" "regs \<noteq> []"
    and fin: "isfinite f"
  shows "\<exists>dp'. register_all regs dp = Inr dp' \<and>
    fst (snd (uvrgw_conf_disp_val now src f v dp')) =
      map (\<lambda>r. Call (snd r) (Some (fst r)) f v) (filter (\<lambda>r. Some (fst r) \<noteq> src) regs) \<and>
    register_all (regs @ [r]) dp = Inl CallbackCountExceeded"
proof -
  have "register_all (regs @ [r]) dp = Inl CallbackCountExceeded"
    using node regs by (intro register_all_overflow) (auto simp: init_dispatcher_def Let_def split: if_splits)
  then show ?thesis
    using init_node_fill [OF node regs] fin by (simp add: uvrgw_conf_disp_val_def fire_entries Let_def)
qed

theorem dispatch_reaches_all_outputs_witness:
  "\<exists>dp'. register_all [(CanVal 0 1 0, Can_send_value), (MqttVal 0 2, Mqtt_send_value)]
      (hd (init_dispatcher [(new_dnode ''t'')\<lparr>dp_value_count := 2\<rparr>])) = Inr dp' \<and>
    fst (snd (uvrgw_conf_disp_val 5 (Some (MqttVal 0 2)) (DFin 1) True dp')) =
      [Call Can_send_value (Some (CanVal 0 1 0)) (DFin 1) True]"
  using dispatch_reaches_all_outputs
    [of "hd (init_dispatcher [(new_dnode ''t'')\<lparr>dp_value_count := 2\<rparr>])"
      "[(new_dnode ''t'')\<lparr>dp_value_count := 2\<rparr>]"
      "[(CanVal 0 1 0, Can_send_value), (MqttVal 0 2, Mqtt_send_value)]" "DFin 1" 5
      "Some (MqttVal 0 2)" True "(EvalRef 0, Eval_trigger_update)"]
  by (auto simp: init_dispatcher_def new_dnode_def Let_def)

text \<open>
  The stored value is a finite number in every history of dispatches and watchdog checks,
  whatever is dispatched, and it is the last finite value dispatched, with its validity.
\<close>

theorem stored_value_last_finite:
  assumes "dnode_ok dp" "isfinite f" "\<forall>(g, w) \<in> set later. \<not> isfinite g"
  shows "uvrgw_conf_get_val (disp_cell.puts now src (earlier @ (f, v) # later) dp) = (v, f) \<and>
    isfinite (dp_last_value (dp_run es dp))"
  using disp_cell.get_puts_last [OF assms(2,3)] dp_run_ok [OF assms(1)] by (simp add: dnode_ok_def)

theorem stored_value_last_finite_witness:
  "uvrgw_conf_get_val (disp_cell.puts 7 None ([(DFin 1, True)] @ (DFin 2, True) # [(DNaN, True)])
      (new_dnode ''t'')) = (True, DFin 2) \<and>
    isfinite (dp_last_value (dp_run [Ev_disp 3 None (DInf True) True, Ev_check 9] (new_dnode ''t'')))"
  using stored_value_last_finite [OF new_dnode_ok, of "DFin 2" "[(DNaN, True)]" 7 None
      "[(DFin 1, True)]" True "''t''" "[Ev_disp 3 None (DInf True) True, Ev_check 9]"]
  by simp

subsection \<open>The watchdog\<close>

fun is_valid_data :: "dp_event \<Rightarrow> bool" where
  "is_valid_data (Ev_disp _ _ f v) = (isfinite f \<and> v)"
| "is_valid_data _ = False"

fun is_data :: "dp_event \<Rightarrow> bool" where
  "is_data (Ev_disp _ _ f v) = isfinite f"
| "is_data _ = False"

text \<open>The number of resets that the watchdog makes in a history.\<close>

fun resets :: "dp_event list \<Rightarrow> dnode \<Rightarrow> nat" where
  "resets [] dp = 0"
| "resets (e # es) dp =
     (case e of
        Ev_check now \<Rightarrow> (if dp_deadline dp \<noteq> 0 \<and> dp_deadline dp \<le> now then 1 else 0)
      | _ \<Rightarrow> 0) + resets es (fst (dp_step e dp))"

lemma resets_bound:
  "resets es dp \<le> (if dp_deadline dp \<noteq> 0 then 1 else 0) + length (filter is_valid_data es)"
proof (induction es arbitrary: dp)
  case Nil
  then show ?case by simp
next
  case (Cons e es)
  show ?case
    using Cons.IH [of "fst (dp_step e dp)"]
    by (cases e) (auto simp: conf_simps split: if_splits)
qed

text \<open>What the stored value says about the history that led to it.\<close>

definition fresh :: "dp_event list \<Rightarrow> dnode \<Rightarrow> bool" where
  "fresh es dp \<longleftrightarrow> (dp_valid dp \<longrightarrow>
     (\<exists>es1 t src f es2. es = es1 @ Ev_disp t src f True # es2 \<and> isfinite f \<and>
        \<not> list_ex is_data es2 \<and> dp_last_value dp = f \<and> dp_deadline dp = t + dp_stale_timeout dp))"

lemma watchdog_check_valid:
  assumes "dp_valid (fst (watchdog_check now dp))"
  shows "fst (watchdog_check now dp) = dp" "dp_valid dp" "dp_deadline dp = 0 \<or> now < dp_deadline dp"
proof -
  have "\<not> (dp_deadline dp \<noteq> 0 \<and> dp_deadline dp \<le> now)"
    using assms by (auto simp: watchdog_check_def)
  then show "fst (watchdog_check now dp) = dp" "dp_valid dp" "dp_deadline dp = 0 \<or> now < dp_deadline dp"
    using assms by (simp_all only: watchdog_check_def if_False fst_conv) linarith
qed

lemma fresh_step:
  assumes "fresh es dp" "0 < dp_stale_timeout dp"
  shows "fresh (es @ [e]) (fst (dp_step e dp))"
proof (cases e)
  case (Ev_disp now src f v)
  show ?thesis
  proof (cases "isfinite f")
    case True
    show ?thesis
      using True assms(2) unfolding Ev_disp fresh_def
      by (intro impI exI [of _ es] exI [of _ now] exI [of _ src] exI [of _ f] exI [of _ "[]"])
        (auto simp: conf_simps split: if_splits)
  next
    case False
    have "fresh (es @ [e]) dp"
      unfolding fresh_def
    proof
      assume "dp_valid dp"
      with assms(1) obtain es1 t s g es2 where h: "es = es1 @ Ev_disp t s g True # es2" "isfinite g"
        "\<not> list_ex is_data es2" "dp_last_value dp = g" "dp_deadline dp = t + dp_stale_timeout dp"
        unfolding fresh_def by blast
      then have "es @ [e] = es1 @ Ev_disp t s g True # (es2 @ [e])" "\<not> list_ex is_data (es2 @ [e])"
        using False Ev_disp by auto
      with h show "\<exists>es1 t s g es2. es @ [e] = es1 @ Ev_disp t s g True # es2 \<and> isfinite g \<and>
        \<not> list_ex is_data es2 \<and> dp_last_value dp = g \<and> dp_deadline dp = t + dp_stale_timeout dp"
        by blast
    qed
    then show ?thesis using False by (simp add: Ev_disp uvrgw_conf_disp_val_def)
  qed
next
  case (Ev_check now)
  show ?thesis
  proof (cases "dp_valid (fst (dp_step e dp))")
    case True
    then have keep: "fst (dp_step e dp) = dp" and v: "dp_valid dp"
      using watchdog_check_valid [of now dp] by (simp_all add: Ev_check)
    with assms(1) obtain es1 t s g es2 where h: "es = es1 @ Ev_disp t s g True # es2" "isfinite g"
      "\<not> list_ex is_data es2" "dp_last_value dp = g" "dp_deadline dp = t + dp_stale_timeout dp"
      unfolding fresh_def by blast
    then have "es @ [e] = es1 @ Ev_disp t s g True # (es2 @ [e])" "\<not> list_ex is_data (es2 @ [e])"
      using Ev_check by auto
    with h show ?thesis unfolding fresh_def keep by blast
  next
    case False
    then show ?thesis by (simp add: fresh_def)
  qed
qed

lemma fresh_run:
  assumes "\<not> dp_valid dp" "0 < dp_stale_timeout dp"
  shows "fresh es (dp_run es dp)"
proof (induction es rule: rev_induct)
  case Nil
  then show ?case using assms by (simp add: fresh_def)
next
  case (snoc e es)
  have "0 < dp_stale_timeout (dp_run es dp)"
    using assms(2) dp_config_eqD [OF dp_run_config [of es dp]] by simp
  then show ?case using fresh_step [OF snoc] by simp
qed

text \<open>
  C2. Stale data is never served as valid: when the watchdog has checked a value with a
  stale_timeout at some time, the value is only valid if its last data arrived less than
  stale_timeout before that time, and it is then the number that arrived; otherwise it is marked
  invalid.
\<close>

theorem watchdog_freshness:
  assumes "\<not> dp_valid dp" "0 < dp_stale_timeout dp"
    and times: "\<And>t src f v. Ev_disp t src f v \<in> set es \<Longrightarrow> 0 \<le> t"
    and valid: "fst (uvrgw_conf_get_val (dp_run (es @ [Ev_check now]) dp))"
  shows "\<exists>es1 t src f es2. es = es1 @ Ev_disp t src f True # es2 \<and> isfinite f \<and>
    \<not> list_ex is_data es2 \<and> snd (uvrgw_conf_get_val (dp_run (es @ [Ev_check now]) dp)) = f \<and>
    now < t + dp_stale_timeout dp"
proof -
  let ?d = "dp_run es dp"
  have st: "dp_stale_timeout ?d = dp_stale_timeout dp"
    using dp_config_eqD [OF dp_run_config [of es dp]] by simp
  have keep: "fst (watchdog_check now ?d) = ?d" "dp_valid ?d"
    and exp: "dp_deadline ?d = 0 \<or> now < dp_deadline ?d"
    using valid watchdog_check_valid [of now ?d] by (simp_all add: uvrgw_conf_get_val_def)
  obtain es1 t src f es2 where h: "es = es1 @ Ev_disp t src f True # es2" "isfinite f"
    "\<not> list_ex is_data es2" "dp_last_value ?d = f" "dp_deadline ?d = t + dp_stale_timeout dp"
    using fresh_run [OF assms(1,2), of es] keep(2) unfolding fresh_def st by blast
  have "0 \<le> t" using times h(1) by auto
  then have "now < t + dp_stale_timeout dp" using exp h(5) assms(2) by auto
  then show ?thesis using h keep(1) by (auto simp: uvrgw_conf_get_val_def)
qed

theorem watchdog_freshness_witness:
  "\<exists>es1 t src f es2. [Ev_disp 100 None (DFin 3) True] = es1 @ Ev_disp t src f True # es2 \<and> isfinite f \<and>
    \<not> list_ex is_data es2 \<and>
    snd (uvrgw_conf_get_val (dp_run ([Ev_disp 100 None (DFin 3) True] @ [Ev_check 599])
      ((new_dnode ''t'')\<lparr>dp_stale_timeout := 500\<rparr>))) = f \<and>
    599 < t + dp_stale_timeout ((new_dnode ''t'')\<lparr>dp_stale_timeout := 500\<rparr>)"
  by (rule watchdog_freshness) (auto simp: conf_simps)

text \<open>
  A stale value is reset once: over any history, the watchdog resets a value at most once
  more often than valid data arrived for it (the one more is the initial deadline), and a reset
  stores init_value as invalid and reports it to all outputs but the producer's own.
\<close>

theorem watchdog_resets_once:
  "resets es dp \<le> 1 + length (filter is_valid_data es) \<and>
   (resets [Ev_check now] dp = 1 \<longrightarrow>
      uvrgw_conf_get_val (dp_run [Ev_check now] dp) = (False, dp_init_value dp) \<and>
      fst (snd (watchdog_check now dp)) =
        fire_cbs (dp_value_cbs dp) (dp_producer_val dp) (dp_init_value dp) False \<and>
      resets [Ev_check now, Ev_check later] dp = 1)"
  using resets_bound [of es dp]
  by (auto simp: watchdog_check_def uvrgw_conf_get_val_def split: if_splits)

theorem watchdog_resets_once_witness:
  "resets [Ev_check 600] ((new_dnode ''t'')\<lparr>dp_deadline := 500\<rparr>) = 1 \<and>
   uvrgw_conf_get_val (dp_run [Ev_check 600] ((new_dnode ''t'')\<lparr>dp_deadline := 500\<rparr>)) = (False, DFin 0)"
  using watchdog_resets_once [of "[]" "(new_dnode ''t'')\<lparr>dp_deadline := 500\<rparr>" 600 700]
  by (simp add: conf_simps)

subsection \<open>Producers\<close>

lemma check_dispatchers_None:
  "check_dispatchers ds = None \<longleftrightarrow>
    (\<forall>dp \<in> set ds. dp_producer dp \<noteq> None \<and>
      (dp_timeout_reader dp \<noteq> None \<and> dp_producer_input dp \<longrightarrow> dp_stale_timeout dp \<noteq> 0))"
  by (induction ds) auto

text \<open>
  A name has one producer: the first registration with a finite start value and a timeout that
  is not negative succeeds, stores the start value as the (invalid) current value, and every
  further registration for the name is refused, whatever its arguments.
\<close>

theorem single_producer:
  assumes "dp_producer dp = None" "isfinite iv" "0 \<le> st"
  shows "\<exists>dp'. uvrgw_conf_set_producer m i val inp iv st dp = Inr dp' \<and>
    uvrgw_conf_get_val dp' = (dp_valid dp, iv) \<and> dp_producer dp' = Some (owner_str m i) \<and>
    (\<forall>m' i' val' inp' iv' st'. uvrgw_conf_set_producer m' i' val' inp' iv' st' dp' = Inl AlreadyProduced)"
  using assms by (simp add: uvrgw_conf_set_producer_def uvrgw_conf_get_val_def)

theorem single_producer_witness:
  "\<exists>dp'. uvrgw_conf_set_producer ''counter'' ''c'' (Some (CounterRef 0)) False (DFin 0) 0 (new_dnode ''t'') = Inr dp' \<and>
    uvrgw_conf_get_val dp' = (dp_valid (new_dnode ''t''), DFin 0) \<and>
    dp_producer dp' = Some (owner_str ''counter'' ''c'') \<and>
    (\<forall>m' i' val' inp' iv' st'. uvrgw_conf_set_producer m' i' val' inp' iv' st' dp' = Inl AlreadyProduced)"
  by (rule single_producer) (simp_all add: new_dnode_def)

text \<open>
  Looking a name up keeps the list consistent: names stay unique, the pointer returned is the
  node of the name (also on every later lookup), and the nodes of all other names are untouched,
  so that the pointers the modules keep stay valid while the list grows.
\<close>

theorem dispatcher_lookup_consistent:
  assumes "disps_ok ds" "uvrgw_conf_get_dispatcher name a ds = (ds', i)"
  shows "disps_ok ds' \<and> i < length ds' \<and> dp_name (ds' ! i) = name \<and>
    (\<forall>a'. snd (uvrgw_conf_get_dispatcher name a' ds') = i) \<and>
    (\<forall>j < length ds. j \<noteq> i \<longrightarrow> ds' ! j = ds ! j) \<and> length ds \<le> length ds'"
proof -
  have "length ds \<le> length ds'"
    using assms(2) by (auto simp: uvrgw_conf_get_dispatcher_def split: option.splits)
  moreover have "disps_ok ds'" using get_dispatcher_ok [OF assms(1), of name a] assms(2) by simp
  moreover have "snd (uvrgw_conf_get_dispatcher name a' ds') = i" for a'
    using get_dispatcher_idem [OF assms(2,1)] by (simp add: uvrgw_conf_get_dispatcher_def)
  ultimately show ?thesis
    using get_dispatcher_index [OF assms(2)] get_dispatcher_other [OF assms(2)] by blast
qed

theorem dispatcher_lookup_consistent_witness:
  "disps_ok [new_dnode ''a'', new_dnode ''b''] \<and>
    dp_name ([new_dnode ''a'', new_dnode ''b''] ! 1) = ''b''"
  using dispatcher_lookup_consistent
    [of "[new_dnode ''a'']" "''b''" False "[new_dnode ''a'', new_dnode ''b'']" 1]
  by (simp add: conf_simps disps_ok_def)

end
