(* ===== verification/Watchdog.thy ===== *)
theory Watchdog
  imports Dispatch
begin

text \<open>
  The watchdog thread over all dispatchers: it wakes up often, but looks at the values once in
  \<open>WATCHDOG_CHECK_MS\<close> only. What this means for the age of the values that are served as valid.
\<close>

subsection \<open>Runs of the thread\<close>

text \<open>Values dispatched to the dispatchers, in the order of time, between the passes of the thread.\<close>

datatype wd_event = Data nat ticks "val_ref option" dbl bool | Pass ticks

fun wd_time :: "wd_event \<Rightarrow> ticks" where
  "wd_time (Data i t src f v) = t"
| "wd_time (Pass t) = t"

fun wd_step :: "ticks \<times> dnode list \<Rightarrow> wd_event \<Rightarrow> ticks \<times> dnode list" where
  "wd_step (next_check, ds) (Data i t src f v) = (next_check, ds[i := fst (uvrgw_conf_disp_val t src f v (ds ! i))])"
| "wd_step (next_check, ds) (Pass t) = (let (next_check', ds', calls, msgs) = watchdog_pass t next_check ds in (next_check', ds'))"

definition wd_run :: "wd_event list \<Rightarrow> dnode list \<Rightarrow> ticks \<times> dnode list" where
  "wd_run es ds = foldl wd_step (0, ds) es"

lemma wd_run_snoc [simp]: "wd_run [] ds = (0, ds)" "wd_run (es @ [e]) ds = wd_step (wd_run es ds) e"
  by (simp_all add: wd_run_def)

lemma watchdog_checks_map:
  "fst (watchdog_checks now ds) = map (\<lambda>dp. if 0 < dp_stale_timeout dp then fst (watchdog_check now dp) else dp) ds"
  by (induction ds) (auto split: prod.splits)

text \<open>What a step does to the dispatcher \<open>i\<close>: a step of its own history, or nothing.\<close>

fun wd_event_at :: "nat \<Rightarrow> ticks \<Rightarrow> wd_event \<Rightarrow> dp_event option" where
  "wd_event_at i next_check (Data j t src f v) = (if j = i then Some (Ev_disp t src f v) else None)"
| "wd_event_at i next_check (Pass t) = (if next_check \<le> t then Some (Ev_check t) else None)"

lemma wd_step_at:
  assumes "i < length ds" "0 < dp_stale_timeout (ds ! i)" "wd_step (next_check, ds) e = (next_check', ds')"
  shows "length ds' = length ds"
    "ds' ! i = (case wd_event_at i next_check e of Some ev \<Rightarrow> fst (dp_step ev (ds ! i)) | None \<Rightarrow> ds ! i)"
    "next_check' = (case e of Pass t \<Rightarrow> if next_check \<le> t then t + 1000 else next_check | _ \<Rightarrow> next_check)"
proof -
  have "wd_step (next_check, ds) (Pass t) =
      (if next_check \<le> t then (t + 1000, fst (watchdog_checks t ds)) else (next_check, ds))" for t
    by (simp add: watchdog_pass_def WATCHDOG_CHECK_MS_def split: prod.splits)
  then show "length ds' = length ds"
    "ds' ! i = (case wd_event_at i next_check e of Some ev \<Rightarrow> fst (dp_step ev (ds ! i)) | None \<Rightarrow> ds ! i)"
    "next_check' = (case e of Pass t \<Rightarrow> if next_check \<le> t then t + 1000 else next_check | _ \<Rightarrow> next_check)"
    using assms by (cases e; auto simp: watchdog_checks_map simp del: wd_step.simps(2) split: if_splits)+
qed

subsection \<open>The age of a valid value\<close>

fun data_of :: "nat \<Rightarrow> wd_event \<Rightarrow> bool" where
  "data_of i (Data j t src f v) = (j = i \<and> isfinite f)"
| "data_of i (Pass t) = False"

text \<open>A valid value is the last data, and the thread's next check is not too far behind its deadline.\<close>

definition watched :: "nat \<Rightarrow> int \<Rightarrow> wd_event list \<Rightarrow> ticks \<Rightarrow> dnode \<Rightarrow> bool" where
  "watched i stale es next_check dp \<longleftrightarrow> (dp_valid dp \<longrightarrow>
     (\<exists>es1 t src f es2. es = es1 @ Data i t src f True # es2 \<and> isfinite f \<and> \<not> list_ex (data_of i) es2 \<and>
        dp_last_value dp = f \<and> dp_deadline dp = t + stale \<and> next_check < t + stale + 1000))"

lemma watched_later:
  assumes "watched i stale es next_check dp" "\<not> data_of i e" "next_check' = next_check \<or> next_check' < dp_deadline dp + 1000"
  shows "watched i stale (es @ [e]) next_check' dp"
  unfolding watched_def
proof
  assume "dp_valid dp"
  with assms(1) obtain es1 t src f es2 where h: "es = es1 @ Data i t src f True # es2" "isfinite f"
    "\<not> list_ex (data_of i) es2" "dp_last_value dp = f" "dp_deadline dp = t + stale" "next_check < t + stale + 1000"
    unfolding watched_def by blast
  then have "es @ [e] = es1 @ Data i t src f True # (es2 @ [e])" "\<not> list_ex (data_of i) (es2 @ [e])"
    "next_check' < t + stale + 1000" using assms(2,3) by auto
  with h show "\<exists>es1 t src f es2. es @ [e] = es1 @ Data i t src f True # es2 \<and> isfinite f \<and> \<not> list_ex (data_of i) es2 \<and>
      dp_last_value dp = f \<and> dp_deadline dp = t + stale \<and> next_check' < t + stale + 1000" by blast
qed

lemma watched_run:
  assumes "i < length ds" "\<not> dp_valid (ds ! i)" "0 < dp_stale_timeout (ds ! i)"
    and "sorted (map wd_time es)" "\<forall>e \<in> set es. 0 \<le> wd_time e"
  shows "length (snd (wd_run es ds)) = length ds \<and>
    dp_stale_timeout (snd (wd_run es ds) ! i) = dp_stale_timeout (ds ! i) \<and>
    (\<forall>t. (\<forall>e \<in> set es. wd_time e \<le> t) \<longrightarrow> 0 \<le> t \<longrightarrow> fst (wd_run es ds) \<le> t + 1000) \<and>
    watched i (dp_stale_timeout (ds ! i)) es (fst (wd_run es ds)) (snd (wd_run es ds) ! i)"
  using assms(4,5)
proof (induction es rule: rev_induct)
  case Nil
  then show ?case using assms(2) by (simp add: watched_def)
next
  case (snoc e es)
  let ?stale = "dp_stale_timeout (ds ! i)"
  obtain nc ds1 where r: "wd_run es ds = (nc, ds1)" by force
  obtain nc' ds2 where s: "wd_step (nc, ds1) e = (nc', ds2)" by force
  have ih: "length ds1 = length ds" "dp_stale_timeout (ds1 ! i) = ?stale"
    "\<And>t. (\<forall>e \<in> set es. wd_time e \<le> t) \<Longrightarrow> 0 \<le> t \<Longrightarrow> nc \<le> t + 1000" "watched i ?stale es nc (ds1 ! i)"
    using snoc r by (auto simp: sorted_append)
  have i: "i < length ds1" "0 < dp_stale_timeout (ds1 ! i)" using assms(1,3) ih(1,2) by simp_all
  note st = wd_step_at [OF i s]
  have e: "0 \<le> wd_time e" "\<forall>e' \<in> set es. wd_time e' \<le> wd_time e" using snoc.prems by (auto simp: sorted_append)
  have nc: "nc \<le> wd_time e + 1000" by (rule ih(3)) (use e in auto)
  have cfg: "dp_stale_timeout (ds2 ! i) = ?stale"
    using st(2) ih(2) dp_config_eqD [OF dp_run_config [of "[_]" "ds1 ! i"]] by (auto split: option.splits)
  have bound: "nc' \<le> t + 1000" if "\<forall>e' \<in> set (es @ [e]). wd_time e' \<le> t" "0 \<le> t" for t
    using that ih(3) [of t] st(3) by (cases e) (auto split: if_splits)
  have "watched i ?stale (es @ [e]) nc' (ds2 ! i)"
  proof (cases "wd_event_at i nc e")
    case None
    then have "\<not> data_of i e" "nc' = nc" "ds2 ! i = ds1 ! i" using st(2,3) by (cases e; auto split: if_splits)+
    then show ?thesis using watched_later [OF ih(4)] by simp
  next
    case (Some ev)
    show ?thesis
    proof (cases e)
      case (Data j t src f v)
      then have d: "j = i" "ev = Ev_disp t src f v" "nc' = nc" using Some st(3) by (simp_all split: if_splits)
      have dp: "ds2 ! i = fst (uvrgw_conf_disp_val t src f v (ds1 ! i))" using st(2) Some d(2) by simp
      show ?thesis
      proof (cases "isfinite f")
        case True
        have "nc < t + ?stale + 1000" using nc assms(3) Data by simp
        then show ?thesis using True Data d(1,3) i(2) ih(2) unfolding watched_def dp
          by (intro impI exI [of _ es] exI [of _ t] exI [of _ src] exI [of _ f] exI [of _ "[]"])
            (auto simp: conf_simps split: if_splits)
      next
        case False
        then have "ds2 ! i = ds1 ! i" using dp by (simp add: uvrgw_conf_disp_val_def)
        then show ?thesis using watched_later [OF ih(4), of e nc'] False Data d(3) by simp
      qed
    next
      case (Pass t)
      then have p: "ev = Ev_check t" "nc' = t + 1000" using Some st(3) by (simp_all split: if_splits)
      have dp: "ds2 ! i = fst (watchdog_check t (ds1 ! i))" using st(2) Some p(1) by simp
      show ?thesis
      proof (cases "dp_valid (ds2 ! i)")
        case True
        note k = watchdog_check_valid [OF True [unfolded dp]]
        have "dp_deadline (ds1 ! i) \<noteq> 0"
        proof -
          obtain es1 t0 src f es2 where "es = es1 @ Data i t0 src f True # es2" "dp_deadline (ds1 ! i) = t0 + ?stale"
            using ih(4) k(2) unfolding watched_def by blast
          moreover have "0 \<le> t0" using snoc.prems(2) calculation(1) by auto
          ultimately show ?thesis using assms(3) by simp
        qed
        then have "nc' < dp_deadline (ds1 ! i) + 1000" using k(3) p(2) by simp
        then show ?thesis using watched_later [OF ih(4), of e nc'] Pass dp k(1) by simp
      qed (simp add: watched_def)
    qed
  qed
  then show ?case using r s st(1) ih(1) cfg bound by simp
qed

text \<open>
  C3. No value is served as valid for long after its last data: whatever is dispatched and however often
  the thread runs, after a pass at the time now a value with a stale_timeout is valid only if its
  last data arrived less than stale_timeout plus the interval of the checks (1 s) before, and it is
  that data.
\<close>

theorem valid_value_age:
  assumes "i < length ds" "\<not> dp_valid (ds ! i)" "0 < dp_stale_timeout (ds ! i)"
    and "sorted (map wd_time (es @ [Pass now]))" "\<forall>e \<in> set es. 0 \<le> wd_time e" "0 \<le> now"
    and "fst (uvrgw_conf_get_val (snd (wd_run (es @ [Pass now]) ds) ! i))"
  shows "\<exists>es1 t src f es2. es = es1 @ Data i t src f True # es2 \<and> isfinite f \<and> \<not> list_ex (data_of i) es2 \<and>
    snd (uvrgw_conf_get_val (snd (wd_run (es @ [Pass now]) ds) ! i)) = f \<and>
    now < t + dp_stale_timeout (ds ! i) + WATCHDOG_CHECK_MS"
proof -
  let ?stale = "dp_stale_timeout (ds ! i)"
  obtain nc ds1 where r: "wd_run es ds = (nc, ds1)" by force
  obtain nc' ds2 where s: "wd_step (nc, ds1) (Pass now) = (nc', ds2)" by force
  have "sorted (map wd_time es)" using assms(4) by (simp add: sorted_append)
  from watched_run [OF assms(1-3) this assms(5)] r
  have w: "length ds1 = length ds" "dp_stale_timeout (ds1 ! i) = ?stale" "watched i ?stale es nc (ds1 ! i)" by simp_all
  have i: "i < length ds1" "0 < dp_stale_timeout (ds1 ! i)" using assms(1,3) w(1,2) by simp_all
  note st = wd_step_at [OF i s]
  have v: "dp_valid (ds2 ! i)" using assms(7) r s by (simp add: uvrgw_conf_get_val_def)
  have keep: "ds2 ! i = ds1 ! i" and early: "nc \<le> now \<Longrightarrow> dp_deadline (ds1 ! i) = 0 \<or> now < dp_deadline (ds1 ! i)"
    using st(2) v watchdog_check_valid [of now "ds1 ! i"] by (auto split: if_splits)
  obtain es1 t src f es2 where h: "es = es1 @ Data i t src f True # es2" "isfinite f" "\<not> list_ex (data_of i) es2"
    "dp_last_value (ds1 ! i) = f" "dp_deadline (ds1 ! i) = t + ?stale" "nc < t + ?stale + 1000"
    using w(3) v keep unfolding watched_def by auto
  have "0 \<le> t" using assms(5) h(1) by auto
  then have "now < t + ?stale + 1000" using early h(5,6) assms(3) by (cases "nc \<le> now") auto
  moreover have "snd (uvrgw_conf_get_val (snd (wd_run (es @ [Pass now]) ds) ! i)) = f"
    using h(4) keep r s by (simp only: wd_run_snoc uvrgw_conf_get_val_def snd_conv)
  ultimately show ?thesis using h(1-3) unfolding WATCHDOG_CHECK_MS_def by blast
qed

theorem valid_value_age_witness:
  "let ds = [new_dnode ''a'', (new_dnode ''t'')\<lparr>dp_stale_timeout := 500\<rparr>];
       es = [Pass 0, Data 1 100 None (DFin 3) True, Pass 800, Data 0 810 None (DFin 1) True]
   in uvrgw_conf_get_val (snd (wd_run (es @ [Pass 999]) ds) ! 1) = (True, DFin 3) \<and>
     uvrgw_conf_get_val (snd (wd_run (es @ [Pass 1000]) ds) ! 1) = (False, DFin 0) \<and> 999 < 100 + 500 + WATCHDOG_CHECK_MS"
proof -
  let ?ds = "[new_dnode ''a'', (new_dnode ''t'')\<lparr>dp_stale_timeout := 500\<rparr>]"
  let ?es = "[Pass 0, Data 1 100 None (DFin 3) True, Pass 800, Data 0 810 None (DFin 1) True]"
  have "uvrgw_conf_get_val (snd (wd_run (?es @ [Pass 999]) ?ds) ! 1) = (True, DFin 3)"
    "uvrgw_conf_get_val (snd (wd_run (?es @ [Pass 1000]) ?ds) ! 1) = (False, DFin 0)" by code_simp+
  moreover have "999 < (100 :: int) + 500 + WATCHDOG_CHECK_MS"
    using valid_value_age [of 1 ?ds ?es 999] calculation(1) by (simp add: new_dnode_def WATCHDOG_CHECK_MS_def)
  ultimately show ?thesis by (simp only: Let_def)
qed

end
