(* ===== verification/Config_Parse.thy ===== *)
theory Config_Parse
  imports Prelude
begin

text \<open>
  The option parsers of uvrgw_conf.c: the keyword tables with \<open>parse_map\<close>, and \<open>parse_can_id\<close>
  with its use of \<open>strtol\<close> and \<open>strncmp\<close>. A C string is a list of characters without NUL; \<open>*p == 0\<close>
  is the empty rest. A failed parse (\<open>cfg_error\<close>, result -1) is \<open>None\<close>.
\<close>

subsection \<open>Keyword options\<close>

datatype val_dir = DIR_IN | DIR_OUT
datatype mqtt_type = MQTT_NUMBER | MQTT_SWITCH | MQTT_CONTACT
datatype can_type = CAN_BIT | CAN_U8 | CAN_S8 | CAN_U16 | CAN_S16 | CAN_U32 | CAN_S32
datatype mb_type = MB_BIT | MB_S16 | MB_U16 | MB_BITMASK | MB_S32 | MB_U32 | MB_F32
datatype mb_reg_type = REG_INBIT | REG_BIT | REG_INREG | REG_REG
datatype counter_sign = SIGN_POSITIVE | SIGN_NEGATIVE
datatype mb_parity = PARITY_NONE | PARITY_EVEN | PARITY_ODD
datatype mb_rtu_mode = RTU_RS232 | RTU_RS485
datatype mb_rtu_rts = RTS_NONE | RTS_UP | RTS_DOWN

fun parse_map :: "(string \<times> 'a) list \<Rightarrow> string \<Rightarrow> 'a option" where
  "parse_map [] value = None"
| "parse_map ((str, v) # items) value = (if str = value then Some v else parse_map items value)"

definition val_dir_map :: "(string \<times> val_dir) list" where
  "val_dir_map = [(''in'', DIR_IN), (''out'', DIR_OUT)]"

definition mqtt_val_type_map :: "(string \<times> mqtt_type) list" where
  "mqtt_val_type_map = [(''number'', MQTT_NUMBER), (''switch'', MQTT_SWITCH), (''contact'', MQTT_CONTACT)]"

definition can_val_type_map :: "(string \<times> can_type) list" where
  "can_val_type_map =
     [(''bit'', CAN_BIT), (''u8'', CAN_U8), (''s8'', CAN_S8), (''u16'', CAN_U16), (''s16'', CAN_S16),
      (''u32'', CAN_U32), (''s32'', CAN_S32)]"

definition mb_val_type_map :: "(string \<times> mb_type) list" where
  "mb_val_type_map =
     [(''bit'', MB_BIT), (''s16'', MB_S16), (''u16'', MB_U16), (''s32'', MB_S32), (''u32'', MB_U32),
      (''f32'', MB_F32), (''bitmask'', MB_BITMASK)]"

definition mb_reg_type_map :: "(string \<times> mb_reg_type) list" where
  "mb_reg_type_map = [(''inbit'', REG_INBIT), (''bit'', REG_BIT), (''inreg'', REG_INREG), (''reg'', REG_REG)]"

definition counter_sign_map :: "(string \<times> counter_sign) list" where
  "counter_sign_map = [(''positive'', SIGN_POSITIVE), (''negative'', SIGN_NEGATIVE)]"

definition mb_parity_map :: "(string \<times> mb_parity) list" where
  "mb_parity_map = [(''none'', PARITY_NONE), (''even'', PARITY_EVEN), (''odd'', PARITY_ODD)]"

definition mb_rtu_mode_map :: "(string \<times> mb_rtu_mode) list" where
  "mb_rtu_mode_map = [(''rs232'', RTU_RS232), (''rs485'', RTU_RS485)]"

definition mb_rtu_rts_map :: "(string \<times> mb_rtu_rts) list" where
  "mb_rtu_rts_map = [(''none'', RTS_NONE), (''up'', RTS_UP), (''down'', RTS_DOWN)]"

text \<open>The parser of each option; \<open>None\<close> is the error that ends parsing the file.\<close>

definition parse_val_dir :: "string \<Rightarrow> val_dir option" where "parse_val_dir = parse_map val_dir_map"
definition parse_mqtt_val_type :: "string \<Rightarrow> mqtt_type option" where "parse_mqtt_val_type = parse_map mqtt_val_type_map"
definition parse_can_val_type :: "string \<Rightarrow> can_type option" where "parse_can_val_type = parse_map can_val_type_map"
definition parse_mb_val_type :: "string \<Rightarrow> mb_type option" where "parse_mb_val_type = parse_map mb_val_type_map"
definition parse_mb_reg_type :: "string \<Rightarrow> mb_reg_type option" where "parse_mb_reg_type = parse_map mb_reg_type_map"
definition parse_mb_parity :: "string \<Rightarrow> mb_parity option" where "parse_mb_parity = parse_map mb_parity_map"
definition parse_mb_rtu_mode :: "string \<Rightarrow> mb_rtu_mode option" where "parse_mb_rtu_mode = parse_map mb_rtu_mode_map"
definition parse_mb_rtu_rts :: "string \<Rightarrow> mb_rtu_rts option" where "parse_mb_rtu_rts = parse_map mb_rtu_rts_map"
definition parse_counter_sign :: "string \<Rightarrow> counter_sign option" where "parse_counter_sign = parse_map counter_sign_map"

lemma parse_map_map_of: "parse_map m v = map_of m v"
  by (induction m v rule: parse_map.induct) auto

subsection \<open>\<open>strtol\<close>\<close>

definition ch :: "char \<Rightarrow> int" where
  "ch c = int (of_char c)"

definition c_isspace :: "char \<Rightarrow> bool" where
  "c_isspace c \<longleftrightarrow> ch c = 32 \<or> (9 \<le> ch c \<and> ch c \<le> 13)"

definition digit_val :: "char \<Rightarrow> int" where \<comment> \<open>99: not a digit in any base\<close>
  "digit_val c =
     (if 48 \<le> ch c \<and> ch c \<le> 57 then ch c - 48
      else if 65 \<le> ch c \<and> ch c \<le> 90 then ch c - 55
      else if 97 \<le> ch c \<and> ch c \<le> 122 then ch c - 87
      else 99)"

fun scan_digits :: "int \<Rightarrow> int \<Rightarrow> string \<Rightarrow> int \<times> string" where
  "scan_digits base acc [] = (acc, [])"
| "scan_digits base acc (c # cs) =
     (if digit_val c < base then scan_digits base (acc * base + digit_val c) cs else (acc, c # cs))"

definition starts_digit :: "int \<Rightarrow> string \<Rightarrow> bool" where
  "starts_digit base s = (case s of c # _ \<Rightarrow> digit_val c < base | [] \<Rightarrow> False)"

definition long_clamp :: "int \<Rightarrow> int" where
  "long_clamp z = max (- (2 ^ 63)) (min (2 ^ 63 - 1) z)"

text \<open>\<open>strtol(s, &p, base)\<close>: the value and \<open>p\<close>; \<open>p = s\<close> if there is no digit.\<close>

definition strtol :: "int \<Rightarrow> string \<Rightarrow> int \<times> string" where
  "strtol base s =
     (let s1 = dropWhile c_isspace s;
          neg = (take 1 s1 = ''-'');
          s2 = (if take 1 s1 = ''-'' \<or> take 1 s1 = ''+'' then drop 1 s1 else s1);
          s3 = (if base = 16 \<and> (take 2 s2 = ''0x'' \<or> take 2 s2 = ''0X'') \<and> starts_digit 16 (drop 2 s2)
                then drop 2 s2 else s2)
      in if starts_digit base s3
         then let (v, p) = scan_digits base 0 s3 in (long_clamp (if neg then - v else v), p)
         else (0, s))"

text \<open>Assignment of a \<open>long\<close> to an \<open>int\<close>.\<close>

definition to_int :: "int \<Rightarrow> int" where
  "to_int z = sint (word_of_int z :: 32 word)"

subsection \<open>CAN identifiers\<close>

definition ana_id :: "int \<Rightarrow> int \<Rightarrow> int" where
  "ana_id node chan = 0x200 OR (node AND 0x3f) OR push_bit 5 (chan AND 0x0c) OR push_bit 2 (chan AND 0x10)"

definition parse_can_id :: "string \<Rightarrow> int option" where
  "parse_can_id value =
     (if take 4 value = ''ANA:'' then
        let (n, p) = strtol 10 (drop 4 value); node = to_int n in
        if take 1 p \<noteq> '':'' then None
        else let (c, p) = strtol 10 (drop 1 p); chan = to_int c in
          if p \<noteq> [] \<or> node < 0 \<or> 0x3f < node \<or> chan < 0 \<or> 0x1f < chan \<or> chan AND 3 \<noteq> 0 then None
          else Some (ana_id node chan)
      else if take 4 value = ''DIG:'' then
        let (n, p) = strtol 10 (drop 4 value); node = to_int n in
        if p \<noteq> [] \<or> node < 0 \<or> 0x3f < node then None
        else Some (0x180 OR (node AND 0x3f))
      else if take 2 value = ''0x'' then
        let (v, p) = strtol 16 (drop 2 value) in if p \<noteq> [] then None else Some (to_int v)
      else
        let (v, p) = strtol 10 value in if p \<noteq> [] then None else Some (to_int v))"

subsection \<open>Decimal numerals\<close>

definition digit_char :: "nat \<Rightarrow> char" where
  "digit_char d = char_of (48 + d)"

fun dec :: "nat \<Rightarrow> string" where
  "dec n = (if n < 10 then [digit_char n] else dec (n div 10) @ [digit_char (n mod 10)])"

declare dec.simps [simp del]

lemma ch_digit_char: "d < 10 \<Longrightarrow> ch (digit_char d) = 48 + int d"
  by (simp add: ch_def digit_char_def)

lemma digit_val_digit_char: "d < 10 \<Longrightarrow> digit_val (digit_char d) = int d"
  by (simp add: digit_val_def ch_digit_char)

lemma scan_digits_append:
  "(\<forall>c \<in> set ds. digit_val c < base) \<Longrightarrow>
    scan_digits base acc (ds @ rest) = scan_digits base (fst (scan_digits base acc ds)) rest"
  by (induction ds arbitrary: acc) auto

lemma dec_digits: "\<forall>c \<in> set (dec n). \<exists>d < 10. c = digit_char d"
proof (induction n rule: dec.induct)
  case (1 n)
  show ?case
  proof (cases "n < 10")
    case True
    then show ?thesis by (auto simp: dec.simps [of n])
  next
    case False
    have "n mod 10 < 10" by simp
    with False 1 show ?thesis by (subst dec.simps) (auto intro!: exI [of _ "n mod 10"])
  qed
qed

lemma dec_digit_val: "c \<in> set (dec n) \<Longrightarrow> digit_val c < 10"
  using dec_digits [of n] digit_val_digit_char by fastforce

lemma fst_scan_dec: "fst (scan_digits 10 0 (dec n)) = int n"
proof (induction n rule: dec.induct)
  case (1 n)
  show ?case
  proof (cases "n < 10")
    case True
    then show ?thesis by (subst dec.simps) (simp add: digit_val_digit_char)
  next
    case False
    have "scan_digits 10 0 (dec n) = scan_digits 10 (int (n div 10)) [digit_char (n mod 10)]"
      using False 1 by (subst dec.simps) (simp add: scan_digits_append dec_digit_val)
    then have "scan_digits 10 0 (dec n) = (int (n div 10) * 10 + int (n mod 10), [])"
      by (simp add: digit_val_digit_char)
    moreover have "int (n div 10) * 10 + int (n mod 10) = int n"
      by (metis div_mult_mod_eq of_nat_add of_nat_mult of_nat_numeral)
    ultimately show ?thesis by simp
  qed
qed

lemma dec_not_Nil [simp]: "dec n \<noteq> []"
  by (subst dec.simps) simp

lemma digit_char_not_sign: "d < 10 \<Longrightarrow> digit_char d \<noteq> CHR ''-'' \<and> digit_char d \<noteq> CHR ''+''"
  using ch_digit_char [of d] by (auto simp: ch_def)

lemma strtol_dec:
  assumes "\<not> starts_digit 10 rest" "n < 2 ^ 63"
  shows "strtol 10 (dec n @ rest) = (int n, rest)"
proof -
  obtain c cs where c: "dec n = c # cs" by (cases "dec n") auto
  then obtain d where d: "d < 10" "c = digit_char d" using dec_digits [of n] by auto
  have sp: "\<not> c_isspace c" using d by (simp add: c_isspace_def ch_digit_char)
  have sg: "c \<noteq> CHR ''-'' \<and> c \<noteq> CHR ''+''" using digit_char_not_sign [OF d(1)] d(2) by simp
  have st: "starts_digit 10 (dec n @ rest)" using c d by (simp add: starts_digit_def digit_val_digit_char)
  have "scan_digits 10 0 (dec n @ rest) = scan_digits 10 (int n) rest"
    by (subst scan_digits_append) (auto dest: dec_digit_val simp: fst_scan_dec)
  also have "\<dots> = (int n, rest)"
    using assms(1) by (cases rest) (auto simp: starts_digit_def)
  finally have "scan_digits 10 0 (dec n @ rest) = (int n, rest)" .
  moreover have "long_clamp (int n) = int n" using assms(2) by (simp add: long_clamp_def)
  ultimately show ?thesis
    using sp sg st by (simp add: strtol_def Let_def c)
qed

lemma to_int_id: "- (2 ^ 31) \<le> z \<Longrightarrow> z < 2 ^ 31 \<Longrightarrow> to_int z = z"
  by (simp add: to_int_def sint_sbintrunc' signed_take_bit_int_eq_self)

subsection \<open>The \<open>ANA:node:chan\<close> notation\<close>

text \<open>The frame that carries the analogue channels \<open>chan\<close> to \<open>chan + 3\<close> of a node.\<close>

definition ana_frame :: "nat \<Rightarrow> nat \<Rightarrow> int" where
  "ana_frame node chan = 512 + int node + 64 * (2 * (int chan div 4 mod 4) + int chan div 16)"

lemma or_plus: "0 \<le> n \<Longrightarrow> n < 64 \<Longrightarrow> (n :: int) OR push_bit 6 k = n + push_bit 6 k"
proof -
  assume n: "0 \<le> n" "n < 64"
  then have t: "take_bit 6 n = n" by (simp add: take_bit_eq_mod)
  have "n AND push_bit 6 k = 0"
    by (subst t [symmetric]) (rule bit_eqI, auto simp: bit_simps)
  then show ?thesis by (simp add: disjunctive_add_eq_or)
qed

lemma ana_chan_bits:
  "\<forall>chan \<in> set [0..31]. (chan :: int) AND 3 = 0 \<longrightarrow>
    0x200 OR push_bit 5 (chan AND 0x0c) OR push_bit 2 (chan AND 0x10) =
    push_bit 6 (8 + 2 * (chan div 4 mod 4) + chan div 16)"
  by code_simp

lemma ana_chan_aligned: "\<forall>chan \<in> set [0..31]. ((chan :: int) AND 3 = 0) = (4 dvd chan)"
  by code_simp

lemma and_63: "0 \<le> n \<Longrightarrow> n < 64 \<Longrightarrow> n AND (63 :: int) = n"
  using take_bit_eq_mask [of 6 n] by (simp add: take_bit_eq_mod mask_eq_exp_minus_1)

lemma ana_id_frame:
  assumes "node < 64" "chan < 32" "int chan AND 3 = 0"
  shows "ana_id (int node) (int chan) = ana_frame node chan"
proof -
  have c: "int chan \<in> set [0..31]" using assms(2) by auto
  have "ana_id (int node) (int chan) =
      int node OR (0x200 OR push_bit 5 (int chan AND 0x0c) OR push_bit 2 (int chan AND 0x10))"
    using assms(1) by (simp add: ana_id_def and_63 ac_simps)
  also have "\<dots> = int node + push_bit 6 (8 + 2 * (int chan div 4 mod 4) + int chan div 16)"
    using ana_chan_bits c assms(1,3) by (simp add: or_plus)
  finally show ?thesis by (simp add: ana_frame_def push_bit_eq_mult)
qed

lemma ana_frame_range:
  "node \<le> 63 \<and> chan \<le> 31 \<longrightarrow> 0x200 \<le> ana_frame node chan \<and> ana_frame node chan \<le> 0x3ff"
proof
  assume a: "node \<le> 63 \<and> chan \<le> 31"
  have "0 \<le> int chan div 4 mod 4" "int chan div 4 mod 4 \<le> 3" "0 \<le> int chan div 16" by simp_all
  moreover have "int chan div 16 \<le> 1" using a by linarith
  ultimately show "0x200 \<le> ana_frame node chan \<and> ana_frame node chan \<le> 0x3ff"
    using a by (simp add: ana_frame_def)
qed

lemma ana_frame_inj:
  assumes "node < 64" "node' < 64" "4 dvd chan" "4 dvd chan'" "chan < 32" "chan' < 32"
    and "ana_frame node chan = ana_frame node' chan'"
  shows "node = node' \<and> chan = chan'"
proof -
  have split: "a = b \<and> x = y" if "512 + a + 64 * x = 512 + b + 64 * y" "0 \<le> a" "a < 64" "0 \<le> b" "b < 64"
    for a b x y :: int
  proof -
    have "(a + 64 * x) mod 64 = (b + 64 * y) mod 64" using that(1) by (simp add: add.assoc)
    then have "a = b" using that by simp
    then show ?thesis using that(1) by simp
  qed
  have parts: "k = l" if "2 * (k mod 4) + k div 4 = 2 * (l mod 4) + l div 4" "0 \<le> k" "k < 8" "0 \<le> l" "l < 8"
    for k l :: int
  proof -
    have "\<forall>k \<in> set [0..7]. \<forall>l \<in> set [0..7].
        2 * (k mod 4) + k div 4 = 2 * (l mod 4) + l div 4 \<longrightarrow> k = (l :: int)"
      by code_simp
    moreover have "k \<in> set [0..7]" "l \<in> set [0..7]"
      using that(2-5) unfolding set_upto atLeastAtMost_iff by linarith+
    ultimately show ?thesis using that(1) by blast
  qed
  obtain k l where kl: "chan = 4 * k" "chan' = 4 * l" using assms(3,4) by (elim dvdE)
  have "int (4 * k) div 16 = int k div 4" for k :: nat
    using div_mult_mult1 [of "4 :: int" "int k" 4] by simp
  then have eq: "512 + int node + 64 * (2 * (int k mod 4) + int k div 4) =
      512 + int node' + 64 * (2 * (int l mod 4) + int l div 4)"
    using assms(7) kl by (simp add: ana_frame_def)
  have nn: "0 \<le> int node" "int node < 64" "0 \<le> int node'" "int node' < 64"
    using assms(1,2) by simp_all
  have kl8: "0 \<le> int k" "int k < 8" "0 \<le> int l" "int l < 8"
    using assms(5,6) kl by simp_all
  have e: "int node = int node'" "2 * (int k mod 4) + int k div 4 = 2 * (int l mod 4) + int l div 4"
    using split [OF eq nn] by (rule conjunct1) (rule conjunct2 [OF split [OF eq nn]])
  have "int k = int l" by (rule parts [OF e(2) kl8])
  then show ?thesis using kl e(1) by simp
qed

text \<open>
  A frame given as node and first channel is parsed to its 11-bit identifier, which lies in the
  range of analogue frames and is different for different nodes and channels; a channel that is
  not the first of a frame, or a node or channel out of range, is an error.
\<close>

theorem parse_can_id_analogue:
  assumes "node < 2 ^ 31" "chan < 2 ^ 31"
  shows "parse_can_id (''ANA:'' @ dec node @ '':'' @ dec chan) =
      (if node \<le> 63 \<and> chan \<le> 31 \<and> 4 dvd chan then Some (ana_frame node chan) else None) \<and>
    (node \<le> 63 \<and> chan \<le> 31 \<longrightarrow> 0x200 \<le> ana_frame node chan \<and> ana_frame node chan \<le> 0x3ff)"
proof -
  have n: "strtol 10 (dec node @ '':'' @ dec chan) = (int node, '':'' @ dec chan)"
    using assms(1) by (intro strtol_dec) (auto simp: starts_digit_def digit_val_def ch_def)
  have c: "strtol 10 (dec chan) = (int chan, [])"
    using strtol_dec [of "[]" chan] assms(2) by (simp add: starts_digit_def)
  have t: "to_int (int node) = int node" "to_int (int chan) = int chan"
    using assms by (auto intro!: to_int_id)
  have "chan \<le> 31 \<Longrightarrow> int chan AND 3 = 0 \<longleftrightarrow> 4 dvd chan"
  proof -
    assume "chan \<le> 31"
    then have "int chan \<in> set [0..31]" by auto
    then have "(int chan AND 3 = 0) = ((4 :: int) dvd int chan)" using ana_chan_aligned by blast
    also have "((4 :: int) dvd int chan) = (4 dvd chan)" by presburger
    finally show ?thesis .
  qed
  then have "parse_can_id (''ANA:'' @ dec node @ '':'' @ dec chan) =
      (if node \<le> 63 \<and> chan \<le> 31 \<and> 4 dvd chan then Some (ana_frame node chan) else None)"
    using n c t ana_id_frame [of node chan]
    by (auto simp: parse_can_id_def Let_def)
  moreover have "node \<le> 63 \<and> chan \<le> 31 \<longrightarrow> 0x200 \<le> ana_frame node chan \<and> ana_frame node chan \<le> 0x3ff"
    by (rule ana_frame_range)
  ultimately show ?thesis by blast
qed

theorem parse_can_id_analogue_witness:
  "parse_can_id (''ANA:'' @ dec 5 @ '':'' @ dec 20) = Some (ana_frame 5 20)"
  using parse_can_id_analogue [of 5 20] by simp

text \<open>
  The parser accepts an identifier without digits: each of the prefixes alone, and the empty
  string, stands for the number 0 (strtol reports no digits only through its end pointer, which
  is compared with the end of the string but not with its start), and a number beyond 32 bits is
  truncated.
\<close>

theorem parse_can_id_lenient:
  "parse_can_id ''DIG:'' = Some 0x180 \<and> parse_can_id ''ANA::'' = Some 0x200 \<and>
   parse_can_id ''0x'' = Some 0 \<and> parse_can_id [] = Some 0 \<and>
   parse_can_id ''0x100000100'' = Some 0x100"
  by code_simp

end
