(* ===== verification/Float32.thy ===== *)
theory Float32
  imports CDouble
begin

text \<open>
  The bit patterns of IEEE single precision numbers, for the code that moves a \<open>float\<close> through a
  \<open>uint32_t\<close> with memcpy (mb.c and sunspec.c). A single is a value of type \<open>dbl\<close> that rounding to
  single precision leaves unchanged. The payload of a NaN is not modelled: the one that is written
  is the default quiet NaN.
\<close>

definition is_single :: "dbl \<Rightarrow> bool" where
  "is_single d = (case d of DFin r \<Rightarrow> rnd32 r = r \<and> \<bar>r\<bar> < pow2 128 | _ \<Rightarrow> True)"

definition f32_of_bits :: "u32 \<Rightarrow> dbl" where
  "f32_of_bits w =
     (let z = uint w; neg = (2 ^ 31 \<le> z); e = z div 2 ^ 23 mod 2 ^ 8; m = z mod 2 ^ 23;
          mk = (\<lambda>n q. let x = of_int n * pow2 q in if n = 0 then mk_zero neg else DFin (if neg then - x else x))
      in if e = 255 then (if m = 0 then DInf neg else DNaN)
         else if e = 0 then mk m (- 149)
         else mk (m + 2 ^ 23) (e - 150))"

definition f32_fields :: "rat \<Rightarrow> int" where \<comment> \<open>exponent and mantissa of a positive single\<close>
  "f32_fields x =
     (let q = quantum 24 (- 149) x; m = \<lfloor>x / pow2 q\<rfloor>
      in if m < 2 ^ 23 then m else (q + 150) * 2 ^ 23 + (m - 2 ^ 23))"

definition f32_to_bits :: "dbl \<Rightarrow> u32" where
  "f32_to_bits d =
     (if isnan d then 0x7fc00000
      else word_of_int ((if signbit d then 2 ^ 31 else 0) +
        (if \<not> isfinite d then 255 * 2 ^ 23 else if rval d = 0 then 0 else f32_fields \<bar>rval d\<bar>)))"

subsection \<open>Round trip\<close>

lemma single_grid:
  assumes "0 < x" "rnd32 x = x" "x < pow2 128"
  obtains m q where "x = of_int m * pow2 q" "q = quantum 24 (- 149) x" "0 < m" "m < 2 ^ 24"
    "m < 2 ^ 23 \<longrightarrow> q = - 149" "- 149 \<le> q" "q \<le> 104"
proof -
  let ?q = "quantum 24 (- 149) x"
  let ?m = "rne (x / pow2 ?q)"
  have x: "x = of_int ?m * pow2 ?q"
    using assms(1,2) by (simp add: rnd_def rnd_pos_def Let_def)
  have b: "pow2 (rlog2 x) \<le> x" "x < pow2 (rlog2 x + 1)" using rlog2_bounds [OF assms(1)] by auto
  have k: "rlog2 x < 128"
  proof -
    have "pow2 (rlog2 x) < pow2 128" using b(1) assms(3) by (rule le_less_trans)
    then show ?thesis by simp
  qed
  have pos: "0 < ?m"
  proof -
    have "0 < of_int ?m * pow2 ?q" using assms(1) by (simp only: x [symmetric])
    then show ?thesis by (simp add: zero_less_mult_iff)
  qed
  have "of_int ?m * pow2 ?q < pow2 (24 + ?q)"
  proof -
    have "pow2 (rlog2 x + 1) \<le> pow2 (24 + ?q)" by (simp add: quantum_def)
    with b(2) have "x < pow2 (24 + ?q)" by (rule less_le_trans)
    then show ?thesis by (simp only: x [symmetric])
  qed
  moreover have "pow2 (24 + ?q) = 2 ^ 24 * pow2 ?q"
    using pow2_of_nat [of 24] unfolding pow2_add by simp
  ultimately have "of_int ?m * pow2 ?q < 2 ^ 24 * pow2 ?q" by simp
  then have lt: "(of_int ?m :: rat) < 2 ^ 24" by simp
  have "?q = - 149" if "?m < 2 ^ 23"
  proof (rule ccontr)
    assume "?q \<noteq> - 149"
    then have q: "?q = rlog2 x - 23" by (auto simp: quantum_def max_def split: if_splits)
    have "(of_int ?m :: rat) < 2 ^ 23" using that by simp
    then have "of_int ?m * pow2 ?q < 2 ^ 23 * pow2 ?q" by simp
    also have "2 ^ 23 * pow2 ?q = pow2 (rlog2 x)"
      using pow2_add [of 23 ?q] pow2_of_nat [of 23] q by simp
    finally show False using b(1) by (simp only: x [symmetric])
  qed
  moreover have "?m < 2 ^ 24" using lt by simp
  moreover have "?q \<le> 104" using k by (simp add: quantum_def)
  moreover have "- 149 \<le> ?q" by (simp add: quantum_def)
  ultimately show ?thesis using that [OF x refl pos] by blast
qed

lemma uint_fields: "0 \<le> z \<Longrightarrow> z < 2 ^ 32 \<Longrightarrow> uint (word_of_int z :: u32) = z"
  by (simp add: unsigned_of_int take_bit_int_eq_self)

lemma f32_of_fields:
  assumes "0 \<le> e" "e < 256" "0 \<le> m" "m < 2 ^ 23"
  shows "f32_of_bits (word_of_int ((if neg then 2 ^ 31 else 0) + e * 2 ^ 23 + m)) =
    (let mk = (\<lambda>n q. let x = of_int n * pow2 q in if n = 0 then mk_zero neg else DFin (if neg then - x else x))
     in if e = 255 then (if m = 0 then DInf neg else DNaN)
        else if e = 0 then mk m (- 149) else mk (m + 2 ^ 23) (e - 150))"
proof -
  let ?s = "if neg then 1 else 0 :: int"
  let ?z = "(if neg then 2 ^ 31 else 0) + e * 2 ^ 23 + m"
  have z: "?z = (256 * ?s + e) * 2 ^ 23 + m" by simp
  have g: "(k * 2 ^ 23 + m) div 2 ^ 23 = k" "(k * 2 ^ 23 + m) mod 2 ^ 23 = m" for k
    using assms(3,4) by simp_all
  have d: "?z div 2 ^ 23 = 256 * ?s + e" "?z mod 2 ^ 23 = m"
    unfolding z by (rule g)+
  have e: "(256 * ?s + e) mod 2 ^ 8 = e" using assms(1,2) by simp
  have u: "uint (word_of_int ?z :: u32) = ?z"
    using assms by (intro uint_fields) (cases neg; simp)+
  have n: "(2 ^ 31 \<le> ?z) = neg" using assms by (cases neg) auto
  show ?thesis unfolding f32_of_bits_def u Let_def d e n ..
qed

text \<open>Every single survives the way through its bit pattern.\<close>

lemma f32_roundtrip:
  assumes "is_single d"
  shows "f32_of_bits (f32_to_bits d) = d"
proof (cases d)
  case DNaN
  have "uint (0x7fc00000 :: u32) = 0x7fc00000" by simp
  then show ?thesis using DNaN by (simp add: f32_to_bits_def isnan_def f32_of_bits_def)
next
  case (DInf s)
  then show ?thesis
    using f32_of_fields [of 255 0 s] by (cases s) (simp_all add: f32_to_bits_def isnan_def)
next
  case DNegZero
  then show ?thesis
    using f32_of_fields [of 0 0 True] by (simp add: f32_to_bits_def isnan_def mk_zero_def)
next
  case (DFin r)
  show ?thesis
  proof (cases "r = 0")
    case True
    then show ?thesis
      using DFin f32_of_fields [of 0 0 False] by (simp add: f32_to_bits_def isnan_def mk_zero_def)
  next
    case False
    let ?x = "\<bar>r\<bar>"
    have "rnd32 ?x = ?x" "?x < pow2 128" "0 < ?x"
      using assms DFin False by (auto simp: is_single_def abs_if)
    then obtain m q where g: "?x = of_int m * pow2 q" "q = quantum 24 (- 149) ?x" "0 < m" "m < 2 ^ 24"
      "m < 2 ^ 23 \<longrightarrow> q = - 149" "- 149 \<le> q" "q \<le> 104" using single_grid by blast
    have fl: "\<lfloor>?x / pow2 q\<rfloor> = m" by (simp add: g(1))
    define neg where "neg \<longleftrightarrow> r < 0"
    have sg: "DFin (if neg then - ?x else ?x) = DFin r" by (simp add: neg_def)
    have b: "f32_to_bits d = word_of_int ((if neg then 2 ^ 31 else 0) + f32_fields ?x)"
      using DFin False by (simp add: f32_to_bits_def isnan_def neg_def)
    have f: "f32_fields ?x = (if m < 2 ^ 23 then m else (q + 150) * 2 ^ 23 + (m - 2 ^ 23))"
      unfolding f32_fields_def g(2) [symmetric] fl Let_def ..
    show ?thesis
    proof (cases "m < 2 ^ 23")
      case True
      then have "f32_to_bits d = word_of_int ((if neg then 2 ^ 31 else 0) + 0 * 2 ^ 23 + m)" using b f by simp
      then show ?thesis
        using f32_of_fields [of 0 m neg] g(1,3,5) True sg DFin by (simp only:) simp
    next
      case False
      then have "f32_to_bits d = word_of_int ((if neg then 2 ^ 31 else 0) + (q + 150) * 2 ^ 23 + (m - 2 ^ 23))"
        using b f by (simp add: add.assoc)
      then show ?thesis
        using f32_of_fields [of "q + 150" "m - 2 ^ 23" neg] g(1,3,4,6,7) False sg DFin by (simp only:) simp
    qed
  qed
qed

lemma is_single_to_float [simp]: "is_single (d_to_float d)"
proof (cases d)
  case (DFin r)
  then show ?thesis using b32.idem [of r] by (simp add: is_single_def mk_zero_def Let_def)
qed (simp_all add: is_single_def)

end
