(* ===== verification/Modbus.thy ===== *)
theory Modbus
  imports Dispatch Config_Parse Float32
begin

text \<open>
  The Modbus masters of mb.c: configuration with its checks, reading blocks and converting
  registers, queueing and executing writes, and the scheduling of one master. A master thread
  calls \<open>master_task\<close>; \<open>write_schedule\<close> is called by other threads under \<open>write_lock\<close>.

  libmodbus is a parameter: a record of operations on an environment state. A failed operation
  yields its errno. \<open>pow(10, n)\<close> of the C library is a parameter too. Back-pointers of the C
  structures are the indices of the containing lists.
\<close>

subsection \<open>State\<close>

record mb_val =
  mv_name :: string
  mv_reg :: int
  mv_type :: mb_type
  mv_bit :: int
  mv_scale :: dbl
  mv_offset :: dbl
  mv_word_swap :: bool
  mv_disp :: nat
  mv_valbuf :: u16
  mv_write_pending :: bool
  mv_write_value :: dbl
  mv_write_failed :: bool
  mv_sf_name :: "string option"
  mv_sf_source :: "nat option"  \<comment> \<open>index in the block\<close>
  mv_bitmask_base :: nat        \<comment> \<open>index in the block\<close>

record mb_block =
  bl_dir :: val_dir
  bl_regtype :: mb_reg_type
  bl_addr :: int
  bl_count :: int
  bl_sunspec_na :: bool
  bl_expect_reg :: int
  bl_expect_value :: int
  bl_unexpected :: bool
  bl_read_failed :: bool
  bl_values :: "mb_val list"

record mb_slave =
  sl_id :: int
  sl_interval :: int
  sl_init_value :: dbl
  sl_stale_timeout :: int
  sl_blocks :: "mb_block list"
  sl_block_read_idx :: nat
  sl_value_out_head :: "(nat \<times> nat) list" \<comment> \<open>output values: block and value index\<close>
  sl_value_out_curr :: "(nat \<times> nat) list" \<comment> \<open>the rest of the list still to be visited\<close>
  sl_next_poll :: ticks
  sl_next_write :: ticks

text \<open>How a master is connected: the serial line, or the TCP port.\<close>

record rtu_line =
  rt_baud :: int
  rt_parity :: mb_parity
  rt_data_bits :: int
  rt_stop_bits :: int
  rt_mode :: mb_rtu_mode
  rt_rts :: mb_rtu_rts
  rt_rts_delay :: int

datatype mb_line = Rtu rtu_line | Tcp int

record mb_master =
  ma_tcp :: bool
  ma_name :: string \<comment> \<open>\<open>ip\<close> or \<open>interface\<close>\<close>
  ma_separation_time :: int
  ma_timeout :: int
  ma_line :: mb_line \<comment> \<open>\<open>Tcp\<close> for a master with \<open>tcp\<close>\<close>
  ma_slaves :: "mb_slave list"
  ma_next_transaction :: ticks
  ma_slave_curr_idx :: nat
  ma_reconnect :: bool
  ma_connect_failed :: bool
  ma_ctx :: bool \<comment> \<open>\<open>ctx\<close> is not NULL\<close>
  ma_thread_running :: bool

text \<open>libmodbus.\<close>

record 'e modbus =
  md_connect :: "'e \<Rightarrow> int option \<times> 'e"
  md_set_mode :: "mb_rtu_mode \<Rightarrow> 'e \<Rightarrow> int option \<times> 'e"
  md_set_rts :: "mb_rtu_rts \<Rightarrow> 'e \<Rightarrow> int option \<times> 'e"
  md_set_rts_delay :: "int \<Rightarrow> 'e \<Rightarrow> int option \<times> 'e"
  md_close :: "'e \<Rightarrow> 'e"
  md_flush :: "'e \<Rightarrow> 'e"
  md_set_slave :: "int \<Rightarrow> 'e \<Rightarrow> int option \<times> 'e"
  md_read_bits :: "mb_reg_type \<Rightarrow> int \<Rightarrow> int \<Rightarrow> 'e \<Rightarrow> (int + u8 list) \<times> 'e"
  md_read_registers :: "mb_reg_type \<Rightarrow> int \<Rightarrow> int \<Rightarrow> 'e \<Rightarrow> (int + u16 list) \<times> 'e"
  md_write_bit :: "int \<Rightarrow> bool \<Rightarrow> 'e \<Rightarrow> int option \<times> 'e"
  md_write_register :: "int \<Rightarrow> u16 \<Rightarrow> 'e \<Rightarrow> int option \<times> 'e"
  md_write_registers :: "int \<Rightarrow> u16 list \<Rightarrow> 'e \<Rightarrow> int option \<times> 'e"

definition MODBUS_ENOBASE :: int where "MODBUS_ENOBASE = 112345678"
definition ETIMEDOUT :: int where "ETIMEDOUT = 110"

subsection \<open>Configuration\<close>

record mb_val_cfg =
  mvc_title :: string
  mvc_reg :: int
  mvc_type :: "mb_type option"
  mvc_bit :: int
  mvc_scale :: dbl
  mvc_offset :: dbl
  mvc_scale_factor :: "string option"
  mvc_word_swap :: bool
  mvc_init_value :: "dbl option"
  mvc_stale_timeout :: "int option"

record mb_block_cfg =
  mbc_dir :: "val_dir option"
  mbc_regtype :: "mb_reg_type option"
  mbc_addr :: int
  mbc_count :: int
  mbc_sunspec_na :: bool
  mbc_expect_reg :: int
  mbc_expect_value :: int
  mbc_values :: "mb_val_cfg list"

record mb_slave_cfg =
  msc_id :: int
  msc_interval :: int
  msc_init_value :: dbl
  msc_stale_timeout :: int
  msc_blocks :: "mb_block_cfg list"

record mb_master_cfg =
  mmc_name :: "string option" \<comment> \<open>\<open>ip\<close> or \<open>interface\<close>\<close>
  mmc_separation_time :: int
  mmc_timeout :: int
  mmc_line :: mb_line
  mmc_slaves :: "mb_slave_cfg list"

definition mb_block_val_opts :: "string \<Rightarrow> mb_val_cfg" where
  "mb_block_val_opts title =
     \<lparr>mvc_title = title, mvc_reg = - 1, mvc_type = None, mvc_bit = - 1, mvc_scale = DFin 1,
      mvc_offset = DFin 0, mvc_scale_factor = None, mvc_word_swap = False, mvc_init_value = None,
      mvc_stale_timeout = None\<rparr>"

definition mb_block_opts :: mb_block_cfg where
  "mb_block_opts =
     \<lparr>mbc_dir = None, mbc_regtype = None, mbc_addr = - 1, mbc_count = - 1, mbc_sunspec_na = False,
      mbc_expect_reg = - 1, mbc_expect_value = - 1, mbc_values = []\<rparr>"

definition mb_slave_opts :: mb_slave_cfg where
  "mb_slave_opts =
     \<lparr>msc_id = - 1, msc_interval = 0, msc_init_value = DFin 0, msc_stale_timeout = 0, msc_blocks = []\<rparr>"

definition mb_rtu_opts :: mb_master_cfg where
  "mb_rtu_opts =
     \<lparr>mmc_name = None, mmc_separation_time = 0, mmc_timeout = 250,
      mmc_line = Rtu \<lparr>rt_baud = 9600, rt_parity = PARITY_NONE, rt_data_bits = 8, rt_stop_bits = 1,
        rt_mode = RTU_RS232, rt_rts = RTS_NONE, rt_rts_delay = - 1\<rparr>, mmc_slaves = []\<rparr>"

definition mb_tcp_opts :: mb_master_cfg where
  "mb_tcp_opts =
     \<lparr>mmc_name = None, mmc_separation_time = 0, mmc_timeout = 250, mmc_line = Tcp 502, mmc_slaves = []\<rparr>"

datatype mb_error =
    MbNameNotGiven | SlaveIdInvalid | IntervalInvalid | AddrNotGiven | BlockDirNotGiven
  | RegtypeNotGiven | CountInvalid | OutputReadOnly | CheckNotAllowed | ExpectIncomplete
  | ExpectOutOfRange | CountTooBig | RegOutOfRange string | ScaleFactorNotFound string
  | ScaleFactorNested string | ScaleFactorType string | ValueTypeNotGiven | BitTypeMismatch
  | BitOutOfRange | BitNotAllowed | WordSwapNotAllowed | ScaleFactorOutput
  | ScaleFactorNotInteger | MbOutputScaleZero | MbConf conf_error

fun value_reg_count :: "mb_type \<Rightarrow> int" where
  "value_reg_count MB_S32 = 2"
| "value_reg_count MB_U32 = 2"
| "value_reg_count MB_F32 = 2"
| "value_reg_count _ = 1"

definition bit_regtype :: "mb_reg_type \<Rightarrow> bool" where
  "bit_regtype t \<longleftrightarrow> t = REG_INBIT \<or> t = REG_BIT"

text \<open>What a value's configuration reads of its master, slave and block.\<close>

record mb_ctx =
  mx_tcp :: bool
  mx_name :: string
  mx_master :: nat
  mx_slave :: nat
  mx_block :: nat
  mx_init_value :: dbl
  mx_stale_timeout :: int
  mx_dir :: val_dir
  mx_regtype :: mb_reg_type

definition new_mb_val :: "mb_val_cfg \<Rightarrow> mb_type \<Rightarrow> nat \<Rightarrow> mb_val" where
  "new_mb_val cfg type d =
     \<lparr>mv_name = mvc_title cfg, mv_reg = mvc_reg cfg, mv_type = type, mv_bit = mvc_bit cfg,
      mv_scale = mvc_scale cfg, mv_offset = mvc_offset cfg, mv_word_swap = mvc_word_swap cfg, mv_disp = d,
      mv_valbuf = 0, mv_write_pending = False, mv_write_value = DFin 0, mv_write_failed = False,
      mv_sf_name = mvc_scale_factor cfg, mv_sf_source = None, mv_bitmask_base = 0\<rparr>"

definition mb_value_check :: "mb_ctx \<Rightarrow> mb_val_cfg \<Rightarrow> mb_type \<Rightarrow> mb_error option" where
  "mb_value_check ctx cfg type =
     (if bit_regtype (mx_regtype ctx) \<noteq> (type = MB_BIT) then Some BitTypeMismatch
      else if type = MB_BITMASK \<and> (mvc_bit cfg < 0 \<or> 15 < mvc_bit cfg) then Some BitOutOfRange
      else if type \<noteq> MB_BITMASK \<and> 0 \<le> mvc_bit cfg then Some BitNotAllowed
      else if mvc_word_swap cfg \<and> value_reg_count type \<noteq> 2 then Some WordSwapNotAllowed
      else if mvc_scale_factor cfg \<noteq> None \<and> mx_dir ctx \<noteq> DIR_IN then Some ScaleFactorOutput
      else if mvc_scale_factor cfg \<noteq> None \<and> type \<notin> {MB_S16, MB_U16, MB_S32, MB_U32} then Some ScaleFactorNotInteger
      else if mx_dir ctx = DIR_OUT \<and> d_eq (mvc_scale cfg) (DFin 0) then Some MbOutputScaleZero
      else None)"

definition mb_value_configure ::
  "mb_ctx \<Rightarrow> mb_val_cfg \<Rightarrow> nat \<Rightarrow> dnode list \<Rightarrow> mb_error + mb_val \<times> dnode list" where
  "mb_value_configure ctx cfg vi ds =
     (let init_value = (case mvc_init_value cfg of Some x \<Rightarrow> x | None \<Rightarrow> mx_init_value ctx);
          stale_timeout = (case mvc_stale_timeout cfg of Some x \<Rightarrow> x | None \<Rightarrow> mx_stale_timeout ctx)
      in case mvc_type cfg of
           None \<Rightarrow> Inl ValueTypeNotGiven
         | Some type \<Rightarrow>
             (case mb_value_check ctx cfg type of
                Some e \<Rightarrow> Inl e
              | None \<Rightarrow>
                  let (ds1, d) = uvrgw_conf_get_dispatcher (mvc_title cfg) (mx_dir ctx = DIR_OUT) ds;
                      val = new_mb_val cfg type d
                  in if mx_dir ctx = DIR_IN
                     then case uvrgw_conf_set_producer (if mx_tcp ctx then ''modbus_tcp'' else ''modbus_rtu'') (mx_name ctx)
                                 (Some (MbVal (mx_tcp ctx) (mx_master ctx) (mx_slave ctx) (mx_block ctx) vi)) True
                                 init_value stale_timeout (ds1 ! d) of
                            Inl e \<Rightarrow> Inl (MbConf e)
                          | Inr dp \<Rightarrow> Inr (val, ds1[d := dp])
                     else Inr (val, ds1)))"

fun find_block_value :: "mb_val list \<Rightarrow> string \<Rightarrow> nat option" where
  "find_block_value [] name = None"
| "find_block_value (v # vs) name =
     (if mv_name v = name then Some 0 else map_option Suc (find_block_value vs name))"

text \<open>The first bitmask value at a register.\<close>

fun find_base :: "mb_val list \<Rightarrow> int \<Rightarrow> nat option" where
  "find_base [] reg = None"
| "find_base (v # vs) reg =
     (if mv_reg v = reg \<and> mv_type v = MB_BITMASK then Some 0 else map_option Suc (find_base vs reg))"

definition set_base :: "mb_val list \<Rightarrow> nat \<Rightarrow> mb_val \<Rightarrow> mb_val" where
  "set_base vals vi v =
     (if mv_type v = MB_BITMASK
      then v\<lparr>mv_bitmask_base := (case find_base vals (mv_reg v) of Some b \<Rightarrow> b | None \<Rightarrow> vi)\<rparr> else v)"

fun map_idx :: "nat \<Rightarrow> (nat \<Rightarrow> 'a \<Rightarrow> 'a) \<Rightarrow> 'a list \<Rightarrow> 'a list" where
  "map_idx i f [] = []"
| "map_idx i f (x # xs) = f i x # map_idx (Suc i) f xs"

text \<open>The scale factor reference of a value; the result is the resolved index.\<close>

definition resolve_sf :: "mb_val list \<Rightarrow> mb_val \<Rightarrow> mb_error + nat option" where
  "resolve_sf vals v =
     (case mv_sf_name v of
        None \<Rightarrow> Inr None
      | Some name \<Rightarrow>
          (case find_block_value vals name of
             None \<Rightarrow> Inl (ScaleFactorNotFound name)
           | Some i \<Rightarrow>
               if mv_sf_name (vals ! i) \<noteq> None then Inl (ScaleFactorNested name)
               else if mv_type (vals ! i) \<noteq> MB_S16 then Inl (ScaleFactorType name)
               else Inr (Some i)))"

fun resolve_sfs :: "mb_val list \<Rightarrow> mb_val list \<Rightarrow> mb_error + mb_val list" where
  "resolve_sfs vals [] = Inr []"
| "resolve_sfs vals (v # vs) =
     (case resolve_sf vals v of
        Inl e \<Rightarrow> Inl e
      | Inr src \<Rightarrow>
          (case resolve_sfs vals vs of
             Inl e \<Rightarrow> Inl e
           | Inr vs' \<Rightarrow> Inr (v\<lparr>mv_sf_source := src\<rparr> # vs')))"

definition max_count :: "val_dir \<Rightarrow> mb_reg_type \<Rightarrow> int" where \<comment> \<open>limits of libmodbus\<close>
  "max_count dir regtype =
     (if bit_regtype regtype then (if dir = DIR_IN then 2000 else 1968)
      else (if dir = DIR_IN then 125 else 123))"

definition mb_block_check :: "mb_block_cfg \<Rightarrow> val_dir \<Rightarrow> mb_reg_type \<Rightarrow> mb_error option" where
  "mb_block_check cfg dir regtype =
     (if mbc_count cfg \<le> 0 then Some CountInvalid
      else if dir = DIR_OUT \<and> (regtype = REG_INBIT \<or> regtype = REG_INREG) then Some OutputReadOnly
      else if (mbc_sunspec_na cfg \<or> 0 \<le> mbc_expect_reg cfg \<or> 0 \<le> mbc_expect_value cfg) \<and>
              (dir \<noteq> DIR_IN \<or> bit_regtype regtype) then Some CheckNotAllowed
      else if (0 \<le> mbc_expect_reg cfg) \<noteq> (0 \<le> mbc_expect_value cfg) then Some ExpectIncomplete
      else if mbc_count cfg \<le> mbc_expect_reg cfg \<or> 0xffff < mbc_expect_value cfg then Some ExpectOutOfRange
      else if max_count dir regtype < mbc_count cfg then Some CountTooBig
      else None)"

text \<open>The pair holds the dispatchers and the slave's list of output values.\<close>

definition mb_block_configure ::
  "mb_ctx \<Rightarrow> mb_block_cfg \<Rightarrow> nat \<Rightarrow> dnode list \<times> (nat \<times> nat) list \<Rightarrow>
    mb_error + mb_block \<times> dnode list \<times> (nat \<times> nat) list" where
  "mb_block_configure ctx cfg bi st =
     (let (ds, out_head) = st in
      if mbc_addr cfg < 0 then Inl AddrNotGiven
      else case mbc_dir cfg of None \<Rightarrow> Inl BlockDirNotGiven | Some dir \<Rightarrow>
        (case mbc_regtype cfg of None \<Rightarrow> Inl RegtypeNotGiven | Some regtype \<Rightarrow>
          (case mb_block_check cfg dir regtype of Some e \<Rightarrow> Inl e | None \<Rightarrow>
            (case config_childs (mb_value_configure (ctx\<lparr>mx_block := bi, mx_dir := dir, mx_regtype := regtype\<rparr>))
                0 (mbc_values cfg) ds of
               Inl e \<Rightarrow> Inl e
             | Inr (vals, ds') \<Rightarrow>
                 (case find (\<lambda>v. mv_reg v < 0 \<or> mbc_count cfg < s32 (mv_reg v + value_reg_count (mv_type v))) vals of
                    Some v \<Rightarrow> Inl (RegOutOfRange (mv_name v))
                  | None \<Rightarrow>
                      (case resolve_sfs (map_idx 0 (set_base vals) vals) (map_idx 0 (set_base vals) vals) of
                         Inl e \<Rightarrow> Inl e
                       | Inr vals' \<Rightarrow>
                           Inr (\<lparr>bl_dir = dir, bl_regtype = regtype, bl_addr = mbc_addr cfg, bl_count = mbc_count cfg,
                                 bl_sunspec_na = mbc_sunspec_na cfg, bl_expect_reg = mbc_expect_reg cfg,
                                 bl_expect_value = mbc_expect_value cfg, bl_unexpected = False,
                                 bl_read_failed = False, bl_values = vals'\<rparr>, ds',
                                if dir = DIR_OUT
                                then rev (map (\<lambda>vi. (bi, vi)) [0..<length vals']) @ out_head else out_head)))))))"

definition slave_id_valid :: "bool \<Rightarrow> int \<Rightarrow> bool" where
  "slave_id_valid tcp id' =
     (if tcp then (0 \<le> id' \<and> id' \<le> 247) \<or> id' = 255 else 1 \<le> id' \<and> id' \<le> 247)"

definition mb_slave_configure ::
  "mb_ctx \<Rightarrow> mb_slave_cfg \<Rightarrow> nat \<Rightarrow> dnode list \<Rightarrow> mb_error + mb_slave \<times> dnode list" where
  "mb_slave_configure ctx cfg si ds =
     (if \<not> slave_id_valid (mx_tcp ctx) (msc_id cfg) then Inl SlaveIdInvalid
      else if msc_interval cfg \<le> 0 then Inl IntervalInvalid
      else case config_childs (mb_block_configure (ctx\<lparr>mx_slave := si, mx_init_value := msc_init_value cfg,
                mx_stale_timeout := msc_stale_timeout cfg\<rparr>)) 0 (msc_blocks cfg) (ds, []) of
             Inl e \<Rightarrow> Inl e
           | Inr (blocks, ds', out_head) \<Rightarrow>
               Inr (\<lparr>sl_id = msc_id cfg, sl_interval = msc_interval cfg, sl_init_value = msc_init_value cfg,
                     sl_stale_timeout = msc_stale_timeout cfg, sl_blocks = blocks, sl_block_read_idx = 0,
                     sl_value_out_head = out_head, sl_value_out_curr = [], sl_next_poll = 0,
                     sl_next_write = 0\<rparr>, ds'))"

definition mb_master_configure ::
  "bool \<Rightarrow> mb_master_cfg \<Rightarrow> nat \<Rightarrow> dnode list \<Rightarrow> mb_error + mb_master \<times> dnode list" where
  "mb_master_configure tcp cfg mi ds =
     (case mmc_name cfg of
        None \<Rightarrow> Inl MbNameNotGiven
      | Some name \<Rightarrow>
          (case config_childs (mb_slave_configure
              \<lparr>mx_tcp = tcp, mx_name = name, mx_master = mi, mx_slave = 0, mx_block = 0, mx_init_value = DFin 0,
               mx_stale_timeout = 0, mx_dir = DIR_IN, mx_regtype = REG_REG\<rparr>) 0 (mmc_slaves cfg) ds of
             Inl e \<Rightarrow> Inl e
           | Inr (slaves, ds') \<Rightarrow>
               Inr (\<lparr>ma_tcp = tcp, ma_name = name, ma_separation_time = mmc_separation_time cfg,
                     ma_timeout = mmc_timeout cfg, ma_line = mmc_line cfg, ma_slaves = slaves,
                     ma_next_transaction = 0, ma_slave_curr_idx = 0, ma_reconnect = False,
                     ma_connect_failed = False, ma_ctx = False, ma_thread_running = False\<rparr>, ds')))"

text \<open>All \<open>modbus_rtu\<close> sections, then all \<open>modbus_tcp\<close> sections.\<close>

definition mb_configure ::
  "mb_master_cfg list \<Rightarrow> mb_master_cfg list \<Rightarrow> dnode list \<Rightarrow>
    mb_error + mb_master list \<times> mb_master list \<times> dnode list" where
  "mb_configure rtu tcp ds =
     (case config_childs (mb_master_configure False) 0 rtu ds of
        Inl e \<Rightarrow> Inl e
      | Inr (rtus, ds1) \<Rightarrow>
          (case config_childs (mb_master_configure True) 0 tcp ds1 of
             Inl e \<Rightarrow> Inl e
           | Inr (tcps, ds2) \<Rightarrow> Inr (rtus, tcps, ds2)))"

text \<open>The output values of a master, in registration order.\<close>

definition mb_outputs :: "bool \<Rightarrow> nat \<Rightarrow> mb_master \<Rightarrow> (val_ref \<times> nat) list" where
  "mb_outputs tcp mi master =
     [(MbVal tcp mi si bi vi, mv_disp (bl_values (sl_blocks (ma_slaves master ! si) ! bi) ! vi)).
        si \<leftarrow> [0..<length (ma_slaves master)],
        bi \<leftarrow> [0..<length (sl_blocks (ma_slaves master ! si))],
        vi \<leftarrow> [0..<length (bl_values (sl_blocks (ma_slaves master ! si) ! bi))],
        bl_dir (sl_blocks (ma_slaves master ! si) ! bi) = DIR_OUT]"

definition mb_register_disp_cbs :: "mb_master list \<Rightarrow> mb_master list \<Rightarrow> dnode list \<Rightarrow> conf_error + dnode list" where
  "mb_register_disp_cbs rtus tcps ds =
     register_vals (concat (map (\<lambda>mi. mb_outputs False mi (rtus ! mi)) [0..<length rtus]) @
       concat (map (\<lambda>mi. mb_outputs True mi (tcps ! mi)) [0..<length tcps])) Mb_write_schedule ds"

subsection \<open>Registers\<close>

definition get_u32 :: "bool \<Rightarrow> u16 list \<Rightarrow> u32" where
  "get_u32 word_swap regs =
     (if word_swap then push_bit 16 (ucast (regs ! 1)) OR ucast (regs ! 0)
      else push_bit 16 (ucast (regs ! 0)) OR ucast (regs ! 1))"

definition set_u32 :: "bool \<Rightarrow> u32 \<Rightarrow> u16 list" where
  "set_u32 word_swap v =
     (let hi = ucast (drop_bit 16 v); lo = ucast (v AND 0xffff)
      in if word_swap then [lo, hi] else [hi, lo])"

fun sunspec_is_na :: "mb_type \<Rightarrow> bool \<Rightarrow> u16 list \<Rightarrow> bool" where
  "sunspec_is_na MB_S16 ws regs = (regs ! 0 = 0x8000)"
| "sunspec_is_na MB_U16 ws regs = (regs ! 0 = 0xffff)"
| "sunspec_is_na MB_BITMASK ws regs = (regs ! 0 = 0xffff)"
| "sunspec_is_na MB_S32 ws regs = (get_u32 ws regs = 0x80000000)"
| "sunspec_is_na MB_U32 ws regs = (get_u32 ws regs = 0xffffffff)"
| "sunspec_is_na _ ws regs = False"

text \<open>The number in the registers; \<open>None\<close> for the types that are not numbers.\<close>

fun raw_value :: "mb_type \<Rightarrow> bool \<Rightarrow> u16 list \<Rightarrow> dbl option" where
  "raw_value MB_S16 ws regs = Some (d_of_int (sint (regs ! 0)))"
| "raw_value MB_U16 ws regs = Some (d_of_int (uint (regs ! 0)))"
| "raw_value MB_S32 ws regs = Some (d_of_int (sint (get_u32 ws regs)))"
| "raw_value MB_U32 ws regs = Some (d_of_int (uint (get_u32 ws regs)))"
| "raw_value MB_F32 ws regs = Some (f32_of_bits (get_u32 ws regs))"
| "raw_value MB_BITMASK ws regs = None"
| "raw_value MB_BIT ws regs = None"

text \<open>\<open>regs\<close> are the registers of the block from the value on.\<close>

definition dispatch_value :: "val_ref \<Rightarrow> mb_val \<Rightarrow> u16 list \<Rightarrow> dbl \<Rightarrow> disp_req list" where
  "dispatch_value self val regs sf =
     (case mv_type val of
        MB_BITMASK \<Rightarrow>
          [Disp (mv_disp val) (Some self)
             (if regs ! 0 AND push_bit (nat (mv_bit val)) 1 \<noteq> 0 then DFin 1 else DFin 0) True]
      | t \<Rightarrow>
          (case raw_value t (mv_word_swap val) regs of
             None \<Rightarrow> []
           | Some raw \<Rightarrow>
               let f = d_add (d_mul (d_mul raw sf) (mv_scale val)) (mv_offset val) in
               if isfinite f then [Disp (mv_disp val) (Some self) f True] else []))"

subsection \<open>Reading a block\<close>

text \<open>The result is the errno of a failed operation.\<close>

fun bit_values :: "(nat \<Rightarrow> val_ref) \<Rightarrow> nat \<Rightarrow> u8 list \<Rightarrow> mb_val list \<Rightarrow> disp_req list" where
  "bit_values self vi buf [] = []"
| "bit_values self vi buf (v # vs) =
     Disp (mv_disp v) (Some (self vi)) (if buf ! nat (mv_reg v) \<noteq> 0 then DFin 1 else DFin 0) True
     # bit_values self (Suc vi) buf vs"

definition read_block_bits ::
  "'e modbus \<Rightarrow> int \<Rightarrow> (nat \<Rightarrow> val_ref) \<Rightarrow> mb_block \<Rightarrow> 'e \<Rightarrow> int option \<times> disp_req list \<times> 'e" where
  "read_block_bits md slave_id self blk e =
     (let (r, e1) = md_set_slave md slave_id e in
      case r of
        Some err \<Rightarrow> (Some err, [], e1)
      | None \<Rightarrow>
          (let (r, e2) = md_read_bits md (bl_regtype blk) (bl_addr blk) (bl_count blk) e1 in
           case r of
             Inl err \<Rightarrow> (Some err, [], e2)
           | Inr buf \<Rightarrow> (None, bit_values self 0 buf (bl_values blk), e2)))"

fun register_values ::
  "(int \<Rightarrow> dbl) \<Rightarrow> bool \<Rightarrow> mb_val list \<Rightarrow> (nat \<Rightarrow> val_ref) \<Rightarrow> nat \<Rightarrow> u16 list \<Rightarrow> mb_val list \<Rightarrow> disp_req list" where
  "register_values pow10 na vals self vi buf [] = []"
| "register_values pow10 na vals self vi buf (v # vs) =
     (let sfreg = map_option (\<lambda>src. buf ! nat (mv_reg (vals ! src))) (mv_sf_source v) in
      if na \<and> (sunspec_is_na (mv_type v) (mv_word_swap v) (drop (nat (mv_reg v)) buf) \<or> sfreg = Some 0x8000) then []
      else dispatch_value (self vi) v (drop (nat (mv_reg v)) buf)
             (case sfreg of Some r \<Rightarrow> pow10 (sint r) | None \<Rightarrow> DFin 1))
     @ register_values pow10 na vals self (Suc vi) buf vs"

text \<open>The check of the expected register: whether the values are used.\<close>

definition check_expected :: "u16 list \<Rightarrow> mb_block \<Rightarrow> bool \<times> mb_block \<times> logmsg list" where
  "check_expected buf blk =
     (if bl_expect_reg blk < 0 then (True, blk, [])
      else if uint (buf ! nat (bl_expect_reg blk)) \<noteq> bl_expect_value blk then
        (False, blk\<lparr>bl_unexpected := True\<rparr>,
         if bl_unexpected blk then [] else [(LOG_WARNING, ''unexpected register, values ignored'')])
      else (True, blk\<lparr>bl_unexpected := False\<rparr>,
            if bl_unexpected blk then [(LOG_INFO, ''register as expected again'')] else []))"

definition read_block_registers ::
  "(int \<Rightarrow> dbl) \<Rightarrow> 'e modbus \<Rightarrow> int \<Rightarrow> (nat \<Rightarrow> val_ref) \<Rightarrow> mb_block \<Rightarrow> 'e \<Rightarrow>
    int option \<times> mb_block \<times> disp_req list \<times> logmsg list \<times> 'e" where
  "read_block_registers pow10 md slave_id self blk e =
     (let (r, e1) = md_set_slave md slave_id e in
      case r of
        Some err \<Rightarrow> (Some err, blk, [], [], e1)
      | None \<Rightarrow>
          (let (r, e2) = md_read_registers md (bl_regtype blk) (bl_addr blk) (bl_count blk) e1 in
           case r of
             Inl err \<Rightarrow> (Some err, blk, [], [], e2)
           | Inr buf \<Rightarrow>
               let (use, blk', l) = check_expected buf blk in
               (None, blk',
                if use then register_values pow10 (bl_sunspec_na blk) (bl_values blk) self 0 buf (bl_values blk) else [],
                l, e2)))"

subsection \<open>Polling a slave\<close>

text \<open>The index of the next input block from \<open>i\<close> on; the number of blocks if there is none.\<close>

function next_input :: "mb_block list \<Rightarrow> nat \<Rightarrow> nat" where
  "next_input blks i =
     (if i < length blks then (if bl_dir (blks ! i) = DIR_IN then i else next_input blks (i + 1)) else i)"
  by pat_completeness auto

termination next_input by (relation "measure (\<lambda>(blks, i). length blks - i)") auto

declare next_input.simps [simp del]

text \<open>The outcome of a read: the failure flag of the block and the messages.\<close>

definition log_read :: "bool \<Rightarrow> mb_block \<Rightarrow> mb_block \<times> logmsg list" where
  "log_read ok blk =
     (blk\<lparr>bl_read_failed := \<not> ok\<rparr>,
      if ok = bl_read_failed blk
      then [if ok then (LOG_INFO, ''MODBUS block read again'') else (LOG_WARNING, ''Failed to read MODBUS block'')]
      else [])"

text \<open>
  Results: the code's result (1 read, 0 nothing, -1 error), the errno for which \<open>link_error\<close> is called
  as the last action, the slave, what is dispatched, messages, environment.
\<close>

definition slave_task_read ::
  "(int \<Rightarrow> dbl) \<Rightarrow> 'e modbus \<Rightarrow> (nat \<Rightarrow> nat \<Rightarrow> val_ref) \<Rightarrow> ticks \<Rightarrow> mb_slave \<Rightarrow> 'e \<Rightarrow>
    int \<times> int option \<times> mb_slave \<times> disp_req list \<times> logmsg list \<times> 'e" where
  "slave_task_read pow10 md self now slave e =
     (if now < sl_next_poll slave then (0, None, slave, [], [], e)
      else let i = next_input (sl_blocks slave) (sl_block_read_idx slave) in
        if length (sl_blocks slave) \<le> i then
          (0, None, slave\<lparr>sl_block_read_idx := i, sl_next_poll := now + sl_interval slave\<rparr>, [], [], e)
        else let
          blk = sl_blocks slave ! i;
          (r, blk1, rs, l1, e1) =
            (if bit_regtype (bl_regtype blk)
             then let (r, rs, e1) = read_block_bits md (sl_id slave) (self i) blk e in (r, blk, rs, [], e1)
             else read_block_registers pow10 md (sl_id slave) (self i) blk e);
          (blk2, l2) = log_read (r = None) blk1;
          slave1 = slave\<lparr>sl_blocks := (sl_blocks slave)[i := blk2], sl_block_read_idx := i + 1\<rparr>
        in case r of
             Some err \<Rightarrow>
               if err < MODBUS_ENOBASE
               then (-1, Some err, slave1\<lparr>sl_next_poll := now + sl_interval slave\<rparr>, rs, l1 @ l2, e1)
               else (-1, None, slave1, rs, l1 @ l2, e1)
           | None \<Rightarrow> (1, None, slave1, rs, l1 @ l2, e1))"

subsection \<open>Writing\<close>

definition write_schedule :: "dbl \<Rightarrow> bool \<Rightarrow> mb_val \<Rightarrow> mb_val" where
  "write_schedule f valid val = val\<lparr>mv_write_value := f, mv_write_pending := True\<rparr>"

text \<open>The request for a value: \<open>None\<close> if the conversion to the integer type is undefined in C.\<close>

datatype mb_write = Write_bit bool | Write_register u16 | Write_registers "u16 list"

definition mb_encode :: "mb_val \<Rightarrow> dbl \<Rightarrow> u16 \<Rightarrow> mb_write option" where
  "mb_encode val f img =
     (let g = d_div (d_sub f (mv_offset val)) (mv_scale val) in
      case mv_type val of
        MB_BIT \<Rightarrow> Some (Write_bit (d_lt (DFin (1/2)) f))
      | MB_S16 \<Rightarrow> map_option (\<lambda>z. Write_register (word_of_int z)) (d_to_int_limited (-32768) 32767 g)
      | MB_U16 \<Rightarrow> map_option (\<lambda>z. Write_register (word_of_int z)) (d_to_int_limited 0 65535 g)
      | MB_S32 \<Rightarrow> map_option (\<lambda>z. Write_registers (set_u32 (mv_word_swap val) (word_of_int z)))
          (d_to_int_limited (-2147483648) 2147483647 g)
      | MB_U32 \<Rightarrow> map_option (\<lambda>z. Write_registers (set_u32 (mv_word_swap val) (word_of_int z)))
          (d_to_int_limited 0 4294967295 g)
      | MB_F32 \<Rightarrow> Some (Write_registers (set_u32 (mv_word_swap val) (f32_to_bits (d_to_float g))))
      | MB_BITMASK \<Rightarrow> Some (Write_register img))"

text \<open>The shared image after the bit of a bitmask value was set.\<close>

definition mb_image :: "mb_val \<Rightarrow> dbl \<Rightarrow> u16 \<Rightarrow> u16" where
  "mb_image val f img =
     (let m = push_bit (nat (mv_bit val)) 1
      in if d_lt (DFin (1/2)) f then img OR m else img AND NOT m)"

fun issue_write :: "'e modbus \<Rightarrow> int \<Rightarrow> mb_write \<Rightarrow> 'e \<Rightarrow> int option \<times> 'e" where
  "issue_write md addr (Write_bit b) e = md_write_bit md addr b e"
| "issue_write md addr (Write_register w) e = md_write_register md addr w e"
| "issue_write md addr (Write_registers ws) e = md_write_registers md addr ws e"

definition upd_value :: "nat \<Rightarrow> (mb_val \<Rightarrow> mb_val) \<Rightarrow> mb_block \<Rightarrow> mb_block" where
  "upd_value vi g b = b\<lparr>bl_values := (bl_values b)[vi := g (bl_values b ! vi)]\<rparr>"

text \<open>A bitmask output first changes its bit of the image in the first value of its register.\<close>

definition set_image :: "mb_val \<Rightarrow> dbl \<Rightarrow> mb_block \<Rightarrow> mb_block" where
  "set_image val f b =
     (if mv_type val = MB_BITMASK
      then upd_value (mv_bitmask_base val) (\<lambda>v. v\<lparr>mv_valbuf := mb_image val f (mv_valbuf v)\<rparr>) b else b)"

text \<open>
  \<open>newer\<close> is a value that another thread queues while the request is under way (the lock is not held
  then); it is stored before the outcome is. \<open>None\<close> is undefined behaviour. The results are those of
  \<open>slave_task_read\<close> with the value's block.
\<close>

definition write_execute ::
  "'e modbus \<Rightarrow> int \<Rightarrow> dbl option \<Rightarrow> mb_block \<Rightarrow> nat \<Rightarrow> 'e \<Rightarrow>
    (int \<times> int option \<times> mb_block \<times> logmsg list \<times> 'e) option" where
  "write_execute md slave_id newer blk vi e =
     (let val = bl_values blk ! vi;
          f = mv_write_value val;
          blk1 = upd_value vi (\<lambda>v. v\<lparr>mv_write_pending := False\<rparr>) blk
      in if \<not> mv_write_pending val then Some (0, None, blk1, [], e)
         else let (r, e1) = md_set_slave md slave_id e in
           if r \<noteq> None then Some (-1, None, blk1, [(LOG_WARNING, ''Failed to set MODBUS slave id'')], e1)
           else let blk2 = set_image val f blk1
           in case mb_encode val f (mv_valbuf (bl_values blk2 ! mv_bitmask_base val)) of
                None \<Rightarrow> None
              | Some req \<Rightarrow>
                  let (r, e2) = issue_write md (bl_addr blk + mv_reg val) req e1;
                      blk3 = (case newer of Some g \<Rightarrow> upd_value vi (write_schedule g True) blk2 | None \<Rightarrow> blk2)
                  in case r of
                       Some err \<Rightarrow>
                         let l = (if mv_write_failed val then [] else [(LOG_WARNING, ''Failed to write MODBUS value'')]);
                             blk4 = upd_value vi (\<lambda>v. (if mv_write_pending v then v
                               else v\<lparr>mv_write_value := f, mv_write_pending := True\<rparr>)\<lparr>mv_write_failed := True\<rparr>) blk3
                         in Some (-1, if err < MODBUS_ENOBASE then Some err else None, blk4, l, e2)
                     | None \<Rightarrow>
                         let l = (if mv_write_failed val then [(LOG_INFO, ''MODBUS value written again'')] else [])
                         in Some (1, None, upd_value vi (\<lambda>v. v\<lparr>mv_write_failed := False\<rparr>) blk3, l, e2))"

text \<open>\<open>later\<close> is the time read again after a failed write.\<close>

fun write_next ::
  "'e modbus \<Rightarrow> ticks \<Rightarrow> dbl option \<Rightarrow> mb_slave \<Rightarrow> (nat \<times> nat) list \<Rightarrow> 'e \<Rightarrow>
    (int \<times> int option \<times> mb_slave \<times> logmsg list \<times> 'e) option" where
  "write_next md later newer slave [] e = Some (0, None, slave\<lparr>sl_value_out_curr := []\<rparr>, [], e)"
| "write_next md later newer slave ((bi, vi) # rest) e =
     (case write_execute md (sl_id slave) newer (sl_blocks slave ! bi) vi e of
        None \<Rightarrow> None
      | Some (ret, lerr, blk, l, e1) \<Rightarrow>
          let slave1 = slave\<lparr>sl_blocks := (sl_blocks slave)[bi := blk], sl_value_out_curr := rest\<rparr>;
              slave2 = (if ret < 0 then slave1\<lparr>sl_next_write := later + sl_interval slave\<rparr> else slave1)
          in if ret \<noteq> 0 then Some (ret, lerr, slave2, l, e1)
             else map_option (\<lambda>(ret, lerr, s, l', e2). (ret, lerr, s, l @ l', e2))
                    (write_next md later newer slave2 rest e1))"

definition slave_task_write ::
  "'e modbus \<Rightarrow> ticks \<Rightarrow> ticks \<Rightarrow> dbl option \<Rightarrow> mb_slave \<Rightarrow> 'e \<Rightarrow>
    (int \<times> int option \<times> mb_slave \<times> logmsg list \<times> 'e) option" where
  "slave_task_write md now later newer slave e =
     (if now < sl_next_write slave then Some (0, None, slave, [], e)
      else write_next md later newer slave (sl_value_out_curr slave) e)"

subsection \<open>One master\<close>

definition link_error :: "'e modbus \<Rightarrow> int \<Rightarrow> mb_master \<Rightarrow> 'e \<Rightarrow> mb_master \<times> 'e" where
  "link_error md err master e =
     (if ma_tcp master \<or> err \<noteq> ETIMEDOUT then (master\<lparr>ma_reconnect := True\<rparr>, md_close md e) else (master, e))"

definition apply_link_error :: "'e modbus \<Rightarrow> int option \<Rightarrow> mb_master \<Rightarrow> 'e \<Rightarrow> mb_master \<times> 'e" where
  "apply_link_error md lerr master e =
     (case lerr of None \<Rightarrow> (master, e) | Some err \<Rightarrow> link_error md err master e)"

text \<open>The outcome of connecting: the failure flag and the messages.\<close>

definition log_connect :: "bool \<Rightarrow> mb_master \<Rightarrow> mb_master \<times> logmsg list" where
  "log_connect ok master =
     (master\<lparr>ma_connect_failed := \<not> ok\<rparr>,
      if ok = ma_connect_failed master
      then [if ok then (LOG_INFO, ''Connected'') else (LOG_WARNING, ''Could not connect'')] else [])"

definition set_serial_line :: "'e modbus \<Rightarrow> rtu_line \<Rightarrow> 'e \<Rightarrow> int option \<times> 'e" where
  "set_serial_line md l e =
     (let (r1, e1) = md_set_mode md (rt_mode l) e in
      if r1 \<noteq> None then (r1, e1)
      else let (r2, e2) = md_set_rts md (rt_rts l) e1 in
        if r2 \<noteq> None then (r2, e2)
        else if 0 \<le> rt_rts_delay l then md_set_rts_delay md (rt_rts_delay l) e2 else (None, e2))"

definition master_connect :: "'e modbus \<Rightarrow> mb_master \<Rightarrow> 'e \<Rightarrow> bool \<times> mb_master \<times> logmsg list \<times> 'e" where
  "master_connect md master e =
     (let (r, e1) = md_connect md e;
          (ok, e2) =
            (if r \<noteq> None then (False, e1)
             else case ma_line master of
               Rtu l \<Rightarrow> let (r, e2) = set_serial_line md l e1 in if r \<noteq> None then (False, md_close md e2) else (True, e2)
             | Tcp port \<Rightarrow> (True, e1));
          (master', l) = log_connect ok master
      in (ok, master', l, e2))"

subsection \<open>Startup and shutdown\<close>

text \<open>
  What the calls of a startup return: \<open>modbus_new_rtu\<close> for the device and its line, \<open>modbus_new_tcp\<close> for the
  address and port, \<open>modbus_set_response_timeout\<close> for seconds and microseconds (converted to \<open>uint32_t\<close>),
  and \<open>pthread_create\<close>.
\<close>

record mb_start =
  ms_new_rtu :: "string \<Rightarrow> rtu_line \<Rightarrow> bool"
  ms_new_tcp :: "string \<Rightarrow> int \<Rightarrow> bool"
  ms_set_response_timeout :: "32 word \<Rightarrow> 32 word \<Rightarrow> bool"
  ms_created :: bool

datatype mb_res = Mb_ctx | Mb_thread

text \<open>A master without slaves has no thread.\<close>

definition master_startup :: "mb_start \<Rightarrow> mb_master \<Rightarrow> bool \<times> mb_master \<times> mb_res event list" where
  "master_startup env master =
     (if 0 < length (ma_slaves master)
      then if ms_created env then (True, master\<lparr>ma_thread_running := True\<rparr>, [Acquire Mb_thread])
        else (False, master\<lparr>ma_thread_running := False\<rparr>, [])
      else (True, master, []))"

definition master_new_startup :: "bool \<Rightarrow> mb_start \<Rightarrow> mb_master \<Rightarrow> bool \<times> mb_master \<times> mb_res event list" where
  "master_new_startup new_ok env master =
     (if \<not> new_ok then (False, master\<lparr>ma_ctx := False\<rparr>, [])
      else if \<not> ms_set_response_timeout env (word_of_int (c_div (ma_timeout master) 1000))
                 (word_of_int (c_mod (ma_timeout master) 1000 * 1000))
        then (False, master\<lparr>ma_ctx := False\<rparr>, [Acquire Mb_ctx, Release Mb_ctx])
      else let (ok, m, evs) = master_startup env (master\<lparr>ma_ctx := True, ma_reconnect := True\<rparr>) in
        if ok then (True, m, Acquire Mb_ctx # evs)
        else (False, m\<lparr>ma_ctx := False\<rparr>, Acquire Mb_ctx # evs @ [Release Mb_ctx]))"

definition master_link_startup :: "mb_start \<Rightarrow> mb_master \<Rightarrow> bool \<times> mb_master \<times> mb_res event list" where
  "master_link_startup env master =
     (case ma_line master of
        Rtu l \<Rightarrow> master_new_startup (ms_new_rtu env (ma_name master) l) env master
      | Tcp port \<Rightarrow> master_new_startup (ms_new_tcp env (ma_name master) port) env master)"

definition master_shutdown :: "mb_master \<Rightarrow> mb_master \<times> mb_res event list" where
  "master_shutdown master =
     (master\<lparr>ma_thread_running := False, ma_ctx := False\<rparr>,
      (if ma_thread_running master then [Release Mb_thread] else []) @ (if ma_ctx master then [Release Mb_ctx] else []))"

text \<open>The masters are those of \<open>modbus_rtu\<close>, then those of \<open>modbus_tcp\<close>.\<close>

definition mb_shutdown :: "mb_master list \<Rightarrow> mb_master list \<times> (nat \<times> mb_res) event list" where
  "mb_shutdown masters = stop_units master_shutdown 0 masters"

definition mb_startup ::
  "(nat \<Rightarrow> mb_start) \<Rightarrow> mb_master list \<Rightarrow> bool \<times> mb_master list \<times> (nat \<times> mb_res) event list" where
  "mb_startup env masters = startup_all master_link_startup master_shutdown env masters"

text \<open>The resources of a master: the thread uses the context.\<close>

definition master_owns :: "mb_master \<Rightarrow> mb_res set" where
  "master_owns master = (if ma_ctx master then {Mb_ctx} else {}) \<union> (if ma_thread_running master then {Mb_thread} else {})"

fun mb_needs :: "mb_res \<Rightarrow> mb_res set" where
  "mb_needs Mb_ctx = {}"
| "mb_needs Mb_thread = {Mb_ctx}"

interpretation mb_unit: startable master_link_startup master_shutdown master_owns mb_needs mb_needs "\<lambda>_. True"
  by unfold_locales
    (auto simp: master_link_startup_def master_new_startup_def master_startup_def master_shutdown_def master_owns_def
      split: mb_line.splits if_split_asm)

subsection \<open>The task of a master\<close>

definition MASTER_RECONNECT_DELAY_MS :: ticks where "MASTER_RECONNECT_DELAY_MS = 1000"

text \<open>The service of the current slave and the step to the next one.\<close>

definition set_slave :: "nat \<Rightarrow> mb_slave \<Rightarrow> mb_master \<Rightarrow> mb_master" where
  "set_slave si slave master = master\<lparr>ma_slaves := (ma_slaves master)[si := slave]\<rparr>"

definition wrap_slave_idx :: "mb_master \<Rightarrow> mb_master" where
  "wrap_slave_idx master =
     (if length (ma_slaves master) \<le> ma_slave_curr_idx master then master\<lparr>ma_slave_curr_idx := 0\<rparr> else master)"

definition master_service ::
  "(int \<Rightarrow> dbl) \<Rightarrow> 'e modbus \<Rightarrow> (nat \<Rightarrow> nat \<Rightarrow> nat \<Rightarrow> val_ref) \<Rightarrow> ticks \<Rightarrow> ticks \<Rightarrow> dbl option \<Rightarrow> mb_master \<Rightarrow> 'e \<Rightarrow>
    (int \<times> mb_master \<times> disp_req list \<times> logmsg list \<times> 'e) option" where
  "master_service pow10 md self now later newer master e =
     (let si = ma_slave_curr_idx master in
      if length (ma_slaves master) \<le> si then Some (0, wrap_slave_idx master, [], [], e)
      else let (ret, lerr, slave1, rs, l1, e1) = slave_task_read pow10 md (self si) now (ma_slaves master ! si) e in
        if ret \<noteq> 0 then
          let (master1, e2) = apply_link_error md lerr (set_slave si slave1 master) e1 in Some (ret, master1, rs, l1, e2)
        else (case slave_task_write md now later newer slave1 e1 of
                None \<Rightarrow> None
              | Some (ret, lerr, slave2, l2, e2) \<Rightarrow>
                  if ret \<noteq> 0 then
                    let (master1, e3) = apply_link_error md lerr (set_slave si slave2 master) e2
                    in Some (ret, master1, rs, l1 @ l2, e3)
                  else Some (0, wrap_slave_idx ((set_slave si (slave2\<lparr>sl_block_read_idx := 0,
                         sl_value_out_curr := sl_value_out_head slave2\<rparr>) master)\<lparr>ma_slave_curr_idx := si + 1\<rparr>),
                         rs, l1 @ l2, e2)))"

definition master_task ::
  "(int \<Rightarrow> dbl) \<Rightarrow> 'e modbus \<Rightarrow> (nat \<Rightarrow> nat \<Rightarrow> nat \<Rightarrow> val_ref) \<Rightarrow> ticks \<Rightarrow> ticks \<Rightarrow> dbl option \<Rightarrow> mb_master \<Rightarrow> 'e \<Rightarrow>
    (int \<times> mb_master \<times> disp_req list \<times> logmsg list \<times> 'e) option" where
  "master_task pow10 md self now later newer master e =
     (let (ok, master1, l, e1) =
        (if ma_reconnect master then
           let (ok, m, l, e1) = master_connect md master e
           in (ok, if ok then m\<lparr>ma_reconnect := False\<rparr>
                   else m\<lparr>ma_next_transaction := later + MASTER_RECONNECT_DELAY_MS\<rparr>, l, e1)
         else (True, master, [], e))
      in if \<not> ok then Some (0, master1, [], l, e1)
         else let e2 = (if ma_tcp master1 then e1 else md_flush md e1) in
           map_option (\<lambda>(ret, m, rs, l', e3). (ret, m, rs, l @ l', e3))
             (master_service pow10 md self now later newer master1 e2))"

text \<open>One pass of the thread's loop; \<open>finished\<close> is the time read after the transaction.\<close>

definition master_thread_pass ::
  "(int \<Rightarrow> dbl) \<Rightarrow> 'e modbus \<Rightarrow> (nat \<Rightarrow> nat \<Rightarrow> nat \<Rightarrow> val_ref) \<Rightarrow> ticks \<Rightarrow> ticks \<Rightarrow> ticks \<Rightarrow> dbl option \<Rightarrow> mb_master \<Rightarrow> 'e \<Rightarrow>
    (mb_master \<times> disp_req list \<times> logmsg list \<times> 'e) option" where
  "master_thread_pass pow10 md self now later finished newer master e =
     (if now < ma_next_transaction master then Some (master, [], [], e)
      else map_option (\<lambda>(ret, m, rs, l, e'). (if ret \<noteq> 0
          then m\<lparr>ma_next_transaction := finished + ma_separation_time m\<rparr> else m, rs, l, e'))
        (master_task pow10 md self now later newer master e))"

lemmas [mb_simps] = log_read_def log_connect_def link_error_def apply_link_error_def set_slave_def
  wrap_slave_idx_def write_schedule_def check_expected_def Let_def

subsection \<open>State logging\<close>

interpretation mb_read_log: edge_logger bl_read_failed log_read
  by unfold_locales (auto simp: log_read_def)

interpretation mb_connect_log: edge_logger ma_connect_failed log_connect
  by unfold_locales (auto simp: log_connect_def)

subsection \<open>32-bit values\<close>

lemma bit_65535: "bit (65535 :: int) k \<longleftrightarrow> k < 16"
proof -
  have "(65535 :: int) = mask 16" by (simp add: mask_eq_exp_minus_1)
  then show ?thesis by (simp only: bit_mask_iff) simp
qed

lemma u32_words: "push_bit 16 (ucast (ucast (drop_bit 16 v) :: u16)) OR ucast (ucast (v AND 0xffff) :: u16) = (v :: u32)"
  by (rule bit_word_eqI) (auto simp: bit_simps bit_65535)

lemma get_set_u32: "get_u32 ws (set_u32 ws v) = v"
  using u32_words [of v] by (simp add: get_u32_def set_u32_def Let_def)

lemma set_u32_length [simp]: "length (set_u32 ws v) = 2"
  by (simp add: set_u32_def Let_def)

interpretation reg32: byte_codec 2 "set_u32 ws" "get_u32 ws" "\<lambda>_. True" for ws
  by unfold_locales (simp_all add: get_set_u32 set_u32_length)

subsection \<open>What configuration guarantees\<close>

definition mb_val_ok :: "mb_block \<Rightarrow> mb_val \<Rightarrow> bool" where
  "mb_val_ok blk v \<longleftrightarrow> 0 \<le> mv_reg v \<and> mv_reg v + value_reg_count (mv_type v) \<le> bl_count blk \<and>
     bit_regtype (bl_regtype blk) = (mv_type v = MB_BIT) \<and>
     (mv_type v = MB_BITMASK \<longrightarrow> 0 \<le> mv_bit v \<and> mv_bit v \<le> 15 \<and>
        mv_bitmask_base v < length (bl_values blk) \<and>
        mv_reg (bl_values blk ! mv_bitmask_base v) = mv_reg v \<and>
        mv_type (bl_values blk ! mv_bitmask_base v) = MB_BITMASK) \<and>
     (\<forall>i. mv_sf_source v = Some i \<longrightarrow> i < length (bl_values blk) \<and>
        mv_type (bl_values blk ! i) = MB_S16 \<and> mv_sf_source (bl_values blk ! i) = None) \<and>
     (bl_dir blk = DIR_OUT \<longrightarrow> \<not> d_eq (mv_scale v) (DFin 0))"

definition mb_block_ok :: "mb_block \<Rightarrow> bool" where
  "mb_block_ok blk \<longleftrightarrow> 0 \<le> bl_addr blk \<and> 0 < bl_count blk \<and> bl_count blk \<le> max_count (bl_dir blk) (bl_regtype blk) \<and>
     bl_expect_reg blk < bl_count blk \<and> (bl_dir blk = DIR_OUT \<longrightarrow> bl_regtype blk \<in> {REG_BIT, REG_REG}) \<and>
     (\<forall>v \<in> set (bl_values blk). mb_val_ok blk v)"

lemma map_idx_length [simp]: "length (map_idx i f xs) = length xs"
  by (induction xs arbitrary: i) simp_all

lemma map_idx_nth: "k < length xs \<Longrightarrow> map_idx i f xs ! k = f (i + k) (xs ! k)"
proof (induction xs arbitrary: i k)
  case (Cons x xs)
  then show ?case by (cases k) simp_all
qed simp

lemma find_base_Some:
  "find_base vals reg = Some b \<Longrightarrow> b < length vals \<and> mv_reg (vals ! b) = reg \<and> mv_type (vals ! b) = MB_BITMASK"
  by (induction vals arbitrary: b) (auto split: if_splits)

lemma find_base_None: "find_base vals reg = None \<Longrightarrow> v \<in> set vals \<Longrightarrow> mv_type v = MB_BITMASK \<Longrightarrow> mv_reg v \<noteq> reg"
  by (induction vals) (auto split: if_splits)

lemma find_block_value_Some: "find_block_value vals name = Some i \<Longrightarrow> i < length vals \<and> mv_name (vals ! i) = name"
  by (induction vals arbitrary: i) (auto split: if_splits)

lemma resolve_sfs_nth:
  "resolve_sfs vals vs = Inr vs' \<Longrightarrow> length vs' = length vs \<and>
    (\<forall>k < length vs. \<exists>src. resolve_sf vals (vs ! k) = Inr src \<and> vs' ! k = (vs ! k)\<lparr>mv_sf_source := src\<rparr>)"
proof (induction vs arbitrary: vs')
  case (Cons v vs)
  from Cons.prems obtain src where r: "resolve_sf vals v = Inr src"
    by (cases "resolve_sf vals v") simp_all
  with Cons.prems obtain vs2 where s: "resolve_sfs vals vs = Inr vs2" "vs' = v\<lparr>mv_sf_source := src\<rparr> # vs2"
    by (cases "resolve_sfs vals vs") simp_all
  note ih = Cons.IH [OF s(1)]
  have "\<exists>src. resolve_sf vals ((v # vs) ! k) = Inr src \<and> vs' ! k = ((v # vs) ! k)\<lparr>mv_sf_source := src\<rparr>"
    if "k < length (v # vs)" for k
  proof (cases k)
    case 0
    then show ?thesis by (intro exI [of _ src]) (simp only: nth_Cons_0 r s(2) simp_thms)
  next
    case (Suc j)
    then obtain src' where "resolve_sf vals (vs ! j) = Inr src'" "vs2 ! j = (vs ! j)\<lparr>mv_sf_source := src'\<rparr>"
      using ih \<open>k < length (v # vs)\<close> by auto
    then show ?thesis by (intro exI [of _ src']) (simp only: Suc nth_Cons_Suc s(2) simp_thms)
  qed
  moreover have "length vs' = length (v # vs)" using ih s(2) by simp
  ultimately show ?case by blast
qed simp

lemma resolve_sf_Some:
  assumes "resolve_sf vals v = Inr (Some i)"
  shows "i < length vals \<and> mv_type (vals ! i) = MB_S16 \<and> mv_sf_name (vals ! i) = None"
  using assms find_block_value_Some
  by (fastforce simp: resolve_sf_def split: option.splits if_splits)

lemma resolve_sf_None: "mv_sf_name v = None \<Longrightarrow> resolve_sf vals v = Inr None"
  by (simp add: resolve_sf_def)

lemma set_base_frame [simp]:
  "mv_reg (set_base vals i v) = mv_reg v" "mv_type (set_base vals i v) = mv_type v"
  "mv_bit (set_base vals i v) = mv_bit v" "mv_scale (set_base vals i v) = mv_scale v"
  "mv_sf_name (set_base vals i v) = mv_sf_name v"
  by (simp_all add: set_base_def)

text \<open>What the first loop over the values of a block leaves to be checked.\<close>

definition mb_val_pre :: "mb_ctx \<Rightarrow> mb_val \<Rightarrow> bool" where
  "mb_val_pre ctx v \<longleftrightarrow> bit_regtype (mx_regtype ctx) = (mv_type v = MB_BIT) \<and>
     (mv_type v = MB_BITMASK \<longrightarrow> 0 \<le> mv_bit v \<and> mv_bit v \<le> 15) \<and>
     (mx_dir ctx = DIR_OUT \<longrightarrow> \<not> d_eq (mv_scale v) (DFin 0))"

lemma mb_value_configure_pre:
  "mb_value_configure ctx cfg vi ds = Inr (val, ds') \<Longrightarrow> mb_val_pre ctx val"
proof -
  assume a: "mb_value_configure ctx cfg vi ds = Inr (val, ds')"
  then obtain type where t: "mb_value_check ctx cfg type = None" "\<exists>d. val = new_mb_val cfg type d"
    unfolding mb_value_configure_def Let_def
    by (cases "mvc_type cfg"; cases "mb_value_check ctx cfg (the (mvc_type cfg))")
      (auto split: if_splits prod.splits sum.splits)
  then have v: "mv_type val = type" "mv_bit val = mvc_bit cfg" "mv_scale val = mvc_scale cfg"
    by (auto simp: new_mb_val_def)
  show ?thesis using t(1) unfolding mb_val_pre_def v mb_value_check_def by (simp split: if_splits) linarith
qed

lemma resolved_val_ok:
  assumes pre: "\<forall>v \<in> set vals. mb_val_pre ctx v"
    and regs: "\<forall>v \<in> set vals. 0 \<le> mv_reg v \<and> mv_reg v + value_reg_count (mv_type v) \<le> bl_count blk"
    and res: "resolve_sfs (map_idx 0 (set_base vals) vals) (map_idx 0 (set_base vals) vals) = Inr (bl_values blk)"
    and ctx: "mx_regtype ctx = bl_regtype blk" "mx_dir ctx = bl_dir blk" and k: "k < length vals"
  shows "mb_val_ok blk (bl_values blk ! k)"
proof -
  let ?vs = "map_idx 0 (set_base vals) vals"
  have len: "length (bl_values blk) = length vals" using resolve_sfs_nth [OF res] by simp
  have nth: "\<exists>src. resolve_sf ?vs (set_base vals j (vals ! j)) = Inr src \<and>
      bl_values blk ! j = (set_base vals j (vals ! j))\<lparr>mv_sf_source := src\<rparr>" if "j < length vals" for j
    using resolve_sfs_nth [OF res] that by (simp add: map_idx_nth)
  have frame: "mv_type (bl_values blk ! j) = mv_type (vals ! j)" "mv_reg (bl_values blk ! j) = mv_reg (vals ! j)"
    "mv_bit (bl_values blk ! j) = mv_bit (vals ! j)" "mv_scale (bl_values blk ! j) = mv_scale (vals ! j)"
    if "j < length vals" for j
    using nth [OF that] by auto
  obtain src where v: "resolve_sf ?vs (set_base vals k (vals ! k)) = Inr src"
    "bl_values blk ! k = (set_base vals k (vals ! k))\<lparr>mv_sf_source := src\<rparr>" using nth [OF k] by blast
  have kv: "vals ! k \<in> set vals" using k by simp
  have sf: "i < length (bl_values blk) \<and> mv_type (bl_values blk ! i) = MB_S16 \<and> mv_sf_source (bl_values blk ! i) = None"
    if "src = Some i" for i
  proof -
    have r: "i < length ?vs \<and> mv_type (?vs ! i) = MB_S16 \<and> mv_sf_name (?vs ! i) = None"
      using resolve_sf_Some v(1) that by blast
    then have i: "i < length vals" by simp
    then have "mv_type (vals ! i) = MB_S16" "mv_sf_name (vals ! i) = None"
      using r by (simp_all add: map_idx_nth)
    note i = i this
    then have "resolve_sf ?vs (set_base vals i (vals ! i)) = Inr None" by (simp add: resolve_sf_None)
    then have "mv_sf_source (bl_values blk ! i) = None" using nth [OF i(1)] by auto
    then show ?thesis using i frame [OF i(1)] len by simp
  qed
  have base: "mv_bitmask_base (bl_values blk ! k) < length vals \<and>
      mv_reg (vals ! mv_bitmask_base (bl_values blk ! k)) = mv_reg (vals ! k) \<and>
      mv_type (vals ! mv_bitmask_base (bl_values blk ! k)) = MB_BITMASK"
    if bm: "mv_type (vals ! k) = MB_BITMASK"
  proof -
    obtain b where b: "find_base vals (mv_reg (vals ! k)) = Some b"
      using find_base_None [OF _ kv bm] by (cases "find_base vals (mv_reg (vals ! k))") auto
    then have "mv_bitmask_base (bl_values blk ! k) = b" using v(2) bm by (simp add: set_base_def)
    then show ?thesis using find_base_Some [OF b] by simp
  qed
  show ?thesis
    using pre regs kv sf base frame k len ctx v(2)
    by (auto simp: mb_val_ok_def mb_val_pre_def)
qed

lemma resolved_regs:
  assumes "resolve_sfs (map_idx 0 (set_base vals) vals) (map_idx 0 (set_base vals) vals) = Inr vals'"
    and "\<forall>v \<in> set vals'. mv_reg v \<le> n"
  shows "\<forall>v \<in> set vals. mv_reg v \<le> n"
proof
  fix v
  assume "v \<in> set vals"
  then obtain j where j: "j < length vals" "v = vals ! j" by (auto simp: in_set_conv_nth)
  then have "\<exists>src. vals' ! j = (set_base vals j (vals ! j))\<lparr>mv_sf_source := src\<rparr>" "vals' ! j \<in> set vals'"
    using resolve_sfs_nth [OF assms(1)] by (auto simp: map_idx_nth)
  then show "mv_reg v \<le> n" using assms(2) j by fastforce
qed

lemma reg_end_id: "0 \<le> r \<Longrightarrow> r \<le> 2147483645 \<Longrightarrow> s32 (r + value_reg_count t) = r + value_reg_count t"
  by (cases t) (simp_all add: s32_id)

abbreviation small_regs :: "mb_block \<Rightarrow> bool" where
  "small_regs blk \<equiv> \<forall>v \<in> set (bl_values blk). mv_reg v \<le> 2147483645"

lemma mb_block_configure_ok:
  assumes "mb_block_configure ctx cfg bi (ds, hd0) = Inr (blk, ds', hd')"
    and small: "\<forall>v \<in> set (bl_values blk). mv_reg v \<le> 2147483645"
  shows "mb_block_ok blk"
proof -
  obtain dir regtype vals where c: "mbc_dir cfg = Some dir" "mbc_regtype cfg = Some regtype"
    "mb_block_check cfg dir regtype = None" "0 \<le> mbc_addr cfg"
    "config_childs (mb_value_configure (ctx\<lparr>mx_block := bi, mx_dir := dir, mx_regtype := regtype\<rparr>)) 0 (mbc_values cfg) ds = Inr (vals, ds')"
    "find (\<lambda>v. mv_reg v < 0 \<or> mbc_count cfg < s32 (mv_reg v + value_reg_count (mv_type v))) vals = None"
    "resolve_sfs (map_idx 0 (set_base vals) vals) (map_idx 0 (set_base vals) vals) = Inr (bl_values blk)"
    "bl_dir blk = dir" "bl_regtype blk = regtype" "bl_addr blk = mbc_addr cfg" "bl_count blk = mbc_count cfg"
    "bl_expect_reg blk = mbc_expect_reg cfg"
    using assms(1) by (auto simp: mb_block_configure_def split: if_splits option.splits sum.splits)
  let ?ctx = "ctx\<lparr>mx_block := bi, mx_dir := dir, mx_regtype := regtype\<rparr>"
  have pre: "\<forall>v \<in> set vals. mb_val_pre ?ctx v"
    by (rule config_childs_all [OF c(5) mb_value_configure_pre])
  have regs: "\<forall>v \<in> set vals. 0 \<le> mv_reg v \<and> mv_reg v + value_reg_count (mv_type v) \<le> bl_count blk"
    using c(6,11) resolved_regs [OF c(7) small] by (auto simp: find_None_iff not_less reg_end_id)
  have len: "length (bl_values blk) = length vals" using resolve_sfs_nth [OF c(7)] by simp
  have "mb_val_ok blk v" if "v \<in> set (bl_values blk)" for v
    using that resolved_val_ok [OF pre regs c(7)] c(8,9) len by (auto simp: in_set_conv_nth)
  moreover have "regtype \<noteq> REG_INBIT \<and> regtype \<noteq> REG_INREG \<Longrightarrow> regtype = REG_BIT \<or> regtype = REG_REG"
    by (cases regtype) simp_all
  ultimately show ?thesis
    using c(3,4,8-12) by (auto simp: mb_block_ok_def mb_block_check_def split: if_splits)
qed

lemma mb_slave_configure_ok:
  assumes "mb_slave_configure ctx cfg si ds = Inr (slave, ds')"
  shows "slave_id_valid (mx_tcp ctx) (sl_id slave) \<and> 0 < sl_interval slave \<and>
    (\<forall>blk \<in> set (sl_blocks slave). small_regs blk \<longrightarrow> mb_block_ok blk)"
proof -
  obtain blocks hd' where c: "slave_id_valid (mx_tcp ctx) (msc_id cfg)" "0 < msc_interval cfg"
    "config_childs (mb_block_configure (ctx\<lparr>mx_slave := si, mx_init_value := msc_init_value cfg,
       mx_stale_timeout := msc_stale_timeout cfg\<rparr>)) 0 (msc_blocks cfg) (ds, []) = Inr (blocks, ds', hd')"
    "sl_id slave = msc_id cfg" "sl_interval slave = msc_interval cfg" "sl_blocks slave = blocks"
    using assms by (auto simp: mb_slave_configure_def split: if_splits sum.splits)
  have "\<forall>blk \<in> set blocks. small_regs blk \<longrightarrow> mb_block_ok blk"
    by (rule config_childs_all [OF c(3)]) (metis mb_block_configure_ok prod.collapse)
  then show ?thesis using c by simp
qed

lemma mb_master_configure_ok:
  assumes "mb_master_configure tcp cfg mi ds = Inr (master, ds')"
  shows "ma_tcp master = tcp \<and> (\<forall>slave \<in> set (ma_slaves master). slave_id_valid tcp (sl_id slave) \<and> 0 < sl_interval slave \<and>
    (\<forall>blk \<in> set (sl_blocks slave). small_regs blk \<longrightarrow> mb_block_ok blk))"
proof -
  obtain ctx slaves where c: "config_childs (mb_slave_configure ctx) 0 (mmc_slaves cfg) ds = Inr (slaves, ds')"
    "mx_tcp ctx = tcp" "ma_slaves master = slaves" "ma_tcp master = tcp"
    using assms by (fastforce simp: mb_master_configure_def split: option.splits sum.splits)
  have "\<forall>slave \<in> set slaves. slave_id_valid (mx_tcp ctx) (sl_id slave) \<and> 0 < sl_interval slave \<and>
      (\<forall>blk \<in> set (sl_blocks slave). small_regs blk \<longrightarrow> mb_block_ok blk)"
    by (rule config_childs_all [OF c(1) mb_slave_configure_ok])
  then show ?thesis using c(2-4) by simp
qed


text \<open>
  Without that bound it fails: the end of a 16-bit value at the largest \<open>int\<close> is the smallest, which is not
  beyond the block.
\<close>

definition overflow_mb_block_cfg :: mb_block_cfg where
  "overflow_mb_block_cfg = mb_block_opts\<lparr>mbc_dir := Some DIR_OUT, mbc_regtype := Some REG_REG, mbc_addr := 0, mbc_count := 1,
     mbc_values := [(mb_block_val_opts ''w'')\<lparr>mvc_reg := 2147483647, mvc_type := Some MB_U16\<rparr>]\<rparr>"

lemma mb_reg_overflow_accepted:
  "case mb_block_configure \<lparr>mx_tcp = True, mx_name = ''m'', mx_master = 0, mx_slave = 0, mx_block = 0, mx_init_value = DFin 0,
       mx_stale_timeout = 0, mx_dir = DIR_OUT, mx_regtype = REG_REG\<rparr> overflow_mb_block_cfg 0 ([], []) of
     Inl e \<Rightarrow> False
   | Inr (blk, ds, out_head) \<Rightarrow> bl_count blk = 1 \<and> map mv_reg (bl_values blk) = [2147483647] \<and> out_head = [(0, 0)]"
  by code_simp

definition example_mb_cfg :: "mb_master_cfg list" where
  "example_mb_cfg = [\<lparr>mmc_name = Some ''10.0.0.1'', mmc_separation_time = 0, mmc_timeout = 250, mmc_line = Tcp 502,
     mmc_slaves = [mb_slave_opts\<lparr>msc_id := 1, msc_interval := 1000, msc_blocks := [mb_block_opts
       \<lparr>mbc_dir := Some DIR_IN, mbc_regtype := Some REG_REG, mbc_addr := 40000, mbc_count := 3, mbc_values :=
         [(mb_block_val_opts ''w'')\<lparr>mvc_reg := 0, mvc_type := Some MB_S32, mvc_scale_factor := Some ''sf''\<rparr>,
          (mb_block_val_opts ''sf'')\<lparr>mvc_reg := 2, mvc_type := Some MB_S16\<rparr>]\<rparr>]\<rparr>]\<rparr>]"


subsection \<open>Written values read back\<close>

fun mb_range :: "mb_type \<Rightarrow> int \<times> int" where
  "mb_range MB_S16 = (-32768, 32767)"
| "mb_range MB_U16 = (0, 65535)"
| "mb_range MB_S32 = (-2147483648, 2147483647)"
| "mb_range MB_U32 = (0, 4294967295)"
| "mb_range _ = (0, 1)"

fun written_regs :: "mb_write \<Rightarrow> u16 list" where
  "written_regs (Write_bit b) = []"
| "written_regs (Write_register w) = [w]"
| "written_regs (Write_registers ws) = ws"

lemma word_fields:
  "0 \<le> z \<Longrightarrow> z \<le> 65535 \<Longrightarrow> uint (word_of_int z :: u16) = z"
  "- 32768 \<le> z \<Longrightarrow> z \<le> 32767 \<Longrightarrow> sint (word_of_int z :: u16) = z"
  "0 \<le> z \<Longrightarrow> z \<le> 4294967295 \<Longrightarrow> uint (word_of_int z :: u32) = z"
  "- 2147483648 \<le> z \<Longrightarrow> z \<le> 2147483647 \<Longrightarrow> sint (word_of_int z :: u32) = z"
  by (simp_all add: unsigned_of_int take_bit_int_eq_self sint_sbintrunc' signed_take_bit_int_eq_self)

lemma raw_of_written:
  assumes "t \<in> {MB_S16, MB_U16, MB_S32, MB_U32}" "fst (mb_range t) \<le> z" "z \<le> snd (mb_range t)"
  shows "raw_value t ws (if t \<in> {MB_S16, MB_U16} then [word_of_int z] else set_u32 ws (word_of_int z)) =
    Some (DFin (of_int z))"
proof -
  have "d_of_int z = DFin (of_int z)" using assms by (intro d_of_int_exact) auto
  then show ?thesis using assms by (auto simp: word_fields get_set_u32)
qed

text \<open>
  C13. A value written to an integer register type reads back as the transformed value rounded to the
  nearest integer and limited to the range of the type, for 16 and 32 bits and both word orders;
  a value written as float reads back as its single precision rounding. The request covers
  exactly the registers that configuration reserves for the type.
\<close>

theorem mb_write_read:
  assumes "isfinite g" "g = d_div (d_sub f (mv_offset val)) (mv_scale val)"
    and "mv_type val \<notin> {MB_BIT, MB_BITMASK}"
  shows "\<exists>req. mb_encode val f img = Some req \<and>
    int (length (written_regs req)) = value_reg_count (mv_type val) \<and>
    raw_value (mv_type val) (mv_word_swap val) (written_regs req) =
      Some (if mv_type val = MB_F32 then d_to_float g
            else DFin (of_int (limit_int (fst (mb_range (mv_type val))) (snd (mb_range (mv_type val))) (rval g))))"
proof (cases "mv_type val = MB_F32")
  case True
  then show ?thesis
    using f32_roundtrip [of "d_to_float g"] by (simp add: mb_encode_def assms(2) get_set_u32 Let_def)
next
  case False
  let ?lo = "fst (mb_range (mv_type val))" and ?hi = "snd (mb_range (mv_type val))"
  let ?z = "limit_int ?lo ?hi (rval g)"
  have t: "mv_type val \<in> {MB_S16, MB_U16, MB_S32, MB_U32}"
    using False assms(3) by (cases "mv_type val") simp_all
  have lh: "?lo \<le> ?hi" by (cases "mv_type val") simp_all
  have z: "d_to_int_limited ?lo ?hi g = Some ?z" by (rule d_to_int_limited_finite [OF assms(1) lh])
  have r: "raw_value (mv_type val) (mv_word_swap val) (if mv_type val \<in> {MB_S16, MB_U16} then [word_of_int ?z]
      else set_u32 (mv_word_swap val) (word_of_int ?z)) = Some (DFin (of_int ?z))"
    using lh by (intro raw_of_written [OF t]) (simp_all add: limit_int_def)
  show ?thesis using t z r by (auto simp: mb_encode_def Let_def assms(2) [symmetric])
qed

definition example_mb_val :: mb_val where
  "example_mb_val = new_mb_val ((mb_block_val_opts ''w'')\<lparr>mvc_reg := 0, mvc_word_swap := True\<rparr>) MB_S32 0"

theorem mb_write_read_witness:
  "\<exists>req. mb_encode example_mb_val (DFin (- 5)) 0 = Some req \<and>
    raw_value MB_S32 True (written_regs req) = Some (DFin (- 5))"
proof -
  have g: "DFin (- 5) = d_div (d_sub (DFin (- 5)) (DFin 0)) (DFin 1)"
    using int_is_double [of "- 5"] by (simp add: d_sub_zero d_div_one)
  have "limit_int (-2147483648) 2147483647 (- 5) = - 5"
    using limit_int_of_int [of "-2147483648" "- 5" 2147483647] by simp
  then show ?thesis
    using mb_write_read [of "DFin (- 5)" "DFin (- 5)" example_mb_val 0] g
    by (auto simp: example_mb_val_def new_mb_val_def mb_block_val_opts_def)
qed

text \<open>The writes of the bitmask values of one register, in order, on their shared image.\<close>

fun mb_images :: "(nat \<times> dbl) list \<Rightarrow> u16 \<Rightarrow> u16" where
  "mb_images [] img = img"
| "mb_images ((b, f) # ws) img = mb_images ws (mb_image (example_mb_val\<lparr>mv_bit := int b\<rparr>) f img)"

lemma bit_mb_image:
  "k < 16 \<Longrightarrow> 0 \<le> mv_bit val \<Longrightarrow> bit (mb_image val f img) k =
    (if k = nat (mv_bit val) then d_lt (DFin (1/2)) f else bit img k)"
  by (auto simp: mb_image_def Let_def bit_simps)

lemma mb_image_bit: "mv_bit v = mv_bit w \<Longrightarrow> mb_image v = mb_image w"
  by (rule ext)+ (simp add: mb_image_def)

text \<open>
  Bitmask outputs of one register do not disturb each other: after any sequence of writes, each
  bit of the shared image is what its own value last commanded (set above 0.5), and bits that
  were never commanded keep their content.
\<close>

theorem bitmask_outputs_independent:
  assumes "k < 16" "\<forall>(b, f) \<in> set ws. b < 16"
  shows "bit (mb_images ws img) k =
    (case find (\<lambda>(b, f). b = k) (rev ws) of Some (b, f) \<Rightarrow> d_lt (DFin (1/2)) f | None \<Rightarrow> bit img k)"
  using assms(2)
proof (induction ws arbitrary: img)
  case Nil
  then show ?case by simp
next
  case (Cons w ws)
  obtain b f where w: "w = (b, f)" by force
  have fa: "find P (xs @ ys) = (case find P xs of Some x \<Rightarrow> Some x | None \<Rightarrow> find P ys)" for P and xs ys :: "(nat \<times> dbl) list"
    by (induction xs) auto
  have "bit (mb_image (example_mb_val\<lparr>mv_bit := int b\<rparr>) f img) k =
      (if k = b then d_lt (DFin (1/2)) f else bit img k)"
    using bit_mb_image [OF assms(1), of "example_mb_val\<lparr>mv_bit := int b\<rparr>" f img] by simp
  then show ?case
    using Cons by (auto simp: w fa split: option.splits)
qed

theorem bitmask_outputs_independent_witness:
  "bit (mb_images [(3, DFin 1), (4, DFin 1), (3, DFin 0)] 0) 4 \<and>
   \<not> bit (mb_images [(3, DFin 1), (4, DFin 1), (3, DFin 0)] 0) 3"
  using bitmask_outputs_independent [of 4 "[(3, DFin 1), (4, DFin 1), (3, DFin 0)]" 0]
    bitmask_outputs_independent [of 3 "[(3, DFin 1), (4, DFin 1), (3, DFin 0)]" 0] by simp

subsection \<open>Queued writes\<close>

lemma upd_value_simps [simp]:
  "length (bl_values (upd_value vi g b)) = length (bl_values b)"
  "vi < length (bl_values b) \<Longrightarrow> bl_values (upd_value vi g b) ! vi = g (bl_values b ! vi)"
  by (simp_all add: upd_value_def)

lemma set_image_keeps [simp]:
  "length (bl_values (set_image val f b)) = length (bl_values b)"
  "mv_write_pending (bl_values (set_image val f b) ! vi) = mv_write_pending (bl_values b ! vi)"
  "mv_write_value (bl_values (set_image val f b) ! vi) = mv_write_value (bl_values b ! vi)"
  "mv_write_failed (bl_values (set_image val f b) ! vi) = mv_write_failed (bl_values b ! vi)"
  by (cases "mv_bitmask_base val < length (bl_values b)";
      simp add: set_image_def upd_value_def nth_list_update list_update_beyond)+

end
