(* ===== verification/Modbus_Poll.thy ===== *)
theory Modbus_Poll
  imports Modbus
begin

text \<open>
  What polling a MODBUS master guarantees (\<open>mb.c\<close>): which register values reach the dispatcher, how a
  failing block affects the others, and that every slave gets its turn. The operations are
  those of the theory \<open>Modbus\<close>; here they are composed into runs of the master's thread.
\<close>

subsection \<open>Which values are dispatched\<close>

lemma dispatch_value_finite:
  assumes "Disp d src f valid \<in> set (dispatch_value self v regs sf)"
  shows "d = mv_disp v \<and> src = Some self \<and> isfinite f \<and> valid"
  using assms by (auto simp: dispatch_value_def Let_def split: mb_type.splits option.splits if_splits)

lemma register_values_mem:
  assumes "Disp d src f valid \<in> set (register_values pow10 na vals self vi buf vs)"
  shows "\<exists>k < length vs. d = mv_disp (vs ! k) \<and> src = Some (self (vi + k)) \<and> isfinite f \<and> valid \<and>
    (na \<longrightarrow> \<not> sunspec_is_na (mv_type (vs ! k)) (mv_word_swap (vs ! k)) (drop (nat (mv_reg (vs ! k))) buf) \<and>
      (\<forall>i. mv_sf_source (vs ! k) = Some i \<longrightarrow> buf ! nat (mv_reg (vals ! i)) \<noteq> 0x8000))"
  using assms
proof (induction vs arbitrary: vi)
  case (Cons v vs)
  show ?case
  proof (cases "Disp d src f valid \<in> set (register_values pow10 na vals self (Suc vi) buf vs)")
    case True
    then obtain k where k: "k < length vs" and k': "d = mv_disp (vs ! k) \<and> src = Some (self (Suc vi + k)) \<and> isfinite f \<and> valid \<and>
      (na \<longrightarrow> \<not> sunspec_is_na (mv_type (vs ! k)) (mv_word_swap (vs ! k)) (drop (nat (mv_reg (vs ! k))) buf) \<and>
        (\<forall>i. mv_sf_source (vs ! k) = Some i \<longrightarrow> buf ! nat (mv_reg (vals ! i)) \<noteq> 0x8000))"
      using Cons.IH [of "Suc vi"] by blast
    have "(v # vs) ! Suc k = vs ! k" "vi + Suc k = Suc vi + k" by simp_all
    then show ?thesis using k k' by (intro exI [of _ "Suc k"]) auto
  next
    case False
    define na' where "na' \<longleftrightarrow> na \<and> (sunspec_is_na (mv_type v) (mv_word_swap v) (drop (nat (mv_reg v)) buf) \<or>
      map_option (\<lambda>src. buf ! nat (mv_reg (vals ! src))) (mv_sf_source v) = Some 0x8000)"
    have "\<not> na'" "\<exists>sf. Disp d src f valid \<in> set (dispatch_value (self vi) v (drop (nat (mv_reg v)) buf) sf)"
      using Cons.prems False by (auto simp: na'_def Let_def split: if_splits)
    then have "d = mv_disp v \<and> src = Some (self vi) \<and> isfinite f \<and> valid" "\<not> na'"
      using dispatch_value_finite by blast+
    then show ?thesis by (intro exI [of _ 0]) (auto simp: na'_def)
  qed
qed simp

text \<open>
  C14. Only good register values are dispatched: every request a register block makes comes from a
  successful read, is finite and marked valid, goes to the dispatcher of one of the block's
  values in that value's name, and is made only if the expected register holds the expected
  value and, in a SunSpec block, neither the value nor its scale factor is marked not available.
\<close>

theorem only_good_registers_dispatched:
  assumes "read_block_registers pow10 md sid self blk e = (r, blk', rs, l, e')"
    and "Disp d src f valid \<in> set rs"
  shows "r = None \<and> isfinite f \<and> valid \<and>
    (\<exists>buf k. fst (md_read_registers md (bl_regtype blk) (bl_addr blk) (bl_count blk) (snd (md_set_slave md sid e))) = Inr buf \<and>
      k < length (bl_values blk) \<and> d = mv_disp (bl_values blk ! k) \<and> src = Some (self k) \<and>
      (0 \<le> bl_expect_reg blk \<longrightarrow> uint (buf ! nat (bl_expect_reg blk)) = bl_expect_value blk) \<and>
      (bl_sunspec_na blk \<longrightarrow>
        \<not> sunspec_is_na (mv_type (bl_values blk ! k)) (mv_word_swap (bl_values blk ! k))
            (drop (nat (mv_reg (bl_values blk ! k))) buf) \<and>
        (\<forall>i. mv_sf_source (bl_values blk ! k) = Some i \<longrightarrow> buf ! nat (mv_reg (bl_values blk ! i)) \<noteq> 0x8000)))"
proof -
  obtain e1 buf e2 where s: "md_set_slave md sid e = (None, e1)"
    "md_read_registers md (bl_regtype blk) (bl_addr blk) (bl_count blk) e1 = (Inr buf, e2)" "r = None"
    using assms by (auto simp: read_block_registers_def Let_def split: prod.splits option.splits sum.splits)
  have u: "fst (check_expected buf blk)"
    and m: "Disp d src f valid \<in> set (register_values pow10 (bl_sunspec_na blk) (bl_values blk) self 0 buf (bl_values blk))"
    using assms s by (auto simp: read_block_registers_def Let_def split: prod.splits if_splits)
  have x: "0 \<le> bl_expect_reg blk \<longrightarrow> uint (buf ! nat (bl_expect_reg blk)) = bl_expect_value blk"
    using u by (auto simp: check_expected_def split: if_splits)
  show ?thesis using register_values_mem [OF m] s x by auto
qed

text \<open>A device whose registers all hold zero except the ones listed.\<close>

definition example_modbus :: "u16 list \<Rightarrow> int option \<Rightarrow> unit modbus" where
  "example_modbus regs failure =
     \<lparr>md_connect = \<lambda>e. (None, e), md_set_mode = \<lambda>m e. (None, e), md_set_rts = \<lambda>r e. (None, e),
      md_set_rts_delay = \<lambda>d e. (None, e), md_close = id, md_flush = id,
      md_set_slave = \<lambda>i e. (None, e), md_read_bits = \<lambda>t a n e. (Inl 4, e),
      md_read_registers = \<lambda>t a n e. (case failure of Some err \<Rightarrow> Inl err | None \<Rightarrow> Inr regs, e),
      md_write_bit = \<lambda>a b e. (failure, e), md_write_register = \<lambda>a w e. (failure, e),
      md_write_registers = \<lambda>a ws e. (failure, e)\<rparr>"

definition example_block :: mb_block where
  "example_block = \<lparr>bl_dir = DIR_IN, bl_regtype = REG_INREG, bl_addr = 0, bl_count = 2, bl_sunspec_na = True,
     bl_expect_reg = 0, bl_expect_value = 7,
     bl_unexpected = False, bl_read_failed = False, bl_values =
       [example_mb_val\<lparr>mv_type := MB_BITMASK, mv_bit := 1, mv_reg := 1, mv_disp := 4\<rparr>]\<rparr>"

theorem only_good_registers_dispatched_witness:
  "isfinite (DFin 1) \<and> \<not> sunspec_is_na MB_BITMASK True [2]"
proof -
  have "read_block_registers (\<lambda>_. DFin 1) (example_modbus [7, 2] None) 1 (\<lambda>k. MbVal True 0 0 0 k) example_block () =
    (None, example_block, [Disp 4 (Some (MbVal True 0 0 0 0)) (DFin 1) True], [], ())"
    by (simp add: read_block_registers_def example_modbus_def example_block_def check_expected_def
      dispatch_value_def example_mb_val_def new_mb_val_def mb_block_val_opts_def)
  from only_good_registers_dispatched [OF this, of 4 "Some (MbVal True 0 0 0 0)" "DFin 1" True]
  show ?thesis
    by (simp add: example_modbus_def example_block_def example_mb_val_def new_mb_val_def mb_block_val_opts_def)
qed

subsection \<open>Polling goes on\<close>

text \<open>What a slave still has to do before the master turns to the next one.\<close>

definition work :: "mb_slave \<Rightarrow> nat" where
  "work slave = (length (sl_blocks slave) - sl_block_read_idx slave) + length (sl_value_out_curr slave)"

lemma next_input_ge: "i \<le> next_input blks i"
proof (induction blks i rule: next_input.induct)
  case (1 blks i)
  show ?case
  proof (cases "i < length blks \<and> bl_dir (blks ! i) \<noteq> DIR_IN")
    case True
    then have "next_input blks i = next_input blks (i + 1)" by (subst next_input.simps) simp
    then show ?thesis using 1 True by simp
  next
    case False
    then show ?thesis by (subst next_input.simps) auto
  qed
qed

lemma next_input_dir: "next_input blks i < length blks \<Longrightarrow> bl_dir (blks ! next_input blks i) = DIR_IN"
proof (induction blks i rule: next_input.induct)
  case (1 blks i)
  then show ?case using next_input.simps [of blks i] by (auto split: if_splits)
qed

lemma slave_task_read_work:
  assumes "slave_task_read pow10 md self now s e = (ret, lerr, s', rs, l, e')"
  shows "length (sl_blocks s') = length (sl_blocks s)" "sl_value_out_curr s' = sl_value_out_curr s"
    "sl_block_read_idx s \<le> sl_block_read_idx s'"
    "ret \<noteq> 0 \<Longrightarrow> sl_block_read_idx s < sl_block_read_idx s' \<and> sl_block_read_idx s' \<le> length (sl_blocks s)"
proof -
  have n: "sl_block_read_idx s \<le> next_input (sl_blocks s) (sl_block_read_idx s)" by (rule next_input_ge)
  show "length (sl_blocks s') = length (sl_blocks s)" "sl_value_out_curr s' = sl_value_out_curr s"
    using assms by (auto simp: slave_task_read_def Let_def split: prod.splits option.splits if_splits)
  show "sl_block_read_idx s \<le> sl_block_read_idx s'"
    using assms n by (auto simp: slave_task_read_def Let_def split: prod.splits option.splits if_splits)
  show "sl_block_read_idx s < sl_block_read_idx s' \<and> sl_block_read_idx s' \<le> length (sl_blocks s)" if "ret \<noteq> 0"
    using assms n that by (auto simp: slave_task_read_def Let_def split: prod.splits option.splits if_splits)
qed

lemma write_next_work:
  assumes "write_next md later newer s ws e = Some (ret, lerr, s', l, e')"
  shows "sl_block_read_idx s' = sl_block_read_idx s \<and> length (sl_blocks s') = length (sl_blocks s) \<and>
    length (sl_value_out_curr s') \<le> length ws \<and> (ret \<noteq> 0 \<longrightarrow> length (sl_value_out_curr s') < length ws)"
  using assms
proof (induction md later newer s ws e arbitrary: ret lerr s' l e' rule: write_next.induct)
  case (2 md later newer s bi vi rest e)
  obtain r1 lerr1 blk l1 e1 where x: "write_execute md (sl_id s) newer (sl_blocks s ! bi) vi e = Some (r1, lerr1, blk, l1, e1)"
    using 2(2) by (auto split: option.splits)
  show ?case
  proof (cases "r1 = 0")
    case False
    then show ?thesis using 2(2) x by (auto simp: Let_def)
  next
    case True
    define s1 where "s1 = s\<lparr>sl_blocks := (sl_blocks s)[bi := blk], sl_value_out_curr := rest\<rparr>"
    obtain l2 where "write_next md later newer s1 rest e1 = Some (ret, lerr, s', l2, e')"
      using 2(2) x True by (auto simp: Let_def s1_def)
    from 2(1) [OF x refl refl refl refl refl refl _ _, of ret lerr s' l2 e'] this
    show ?thesis using True by (auto simp: s1_def)
  qed
qed auto

lemma read_work:
  assumes "slave_task_read pow10 md self now s e = (ret, lerr, s', rs, l, e')"
  shows "work s' \<le> work s" "ret \<noteq> 0 \<Longrightarrow> work s' < work s"
  using slave_task_read_work [OF assms] by (auto simp: work_def)

lemma write_work:
  assumes "slave_task_write md now later newer s e = Some (ret, lerr, s', l, e')" "ret \<noteq> 0"
  shows "work s' < work s"
  using assms write_next_work [of md later newer s "sl_value_out_curr s" e]
  by (auto simp: slave_task_write_def work_def split: if_splits)

lemma apply_link_error_keeps:
  "apply_link_error md lerr m e = (m', e') \<Longrightarrow> ma_slaves m' = ma_slaves m \<and> ma_slave_curr_idx m' = ma_slave_curr_idx m"
  by (auto simp: mb_simps split: option.splits if_splits)

text \<open>The slave the master serves, and the one after it.\<close>

abbreviation curr_slave :: "mb_master \<Rightarrow> mb_slave" where
  "curr_slave m \<equiv> ma_slaves m ! ma_slave_curr_idx m"

lemma master_service_progress:
  assumes "master_service pow10 md self now later newer m e = Some (ret, m', rs, l, e')"
    and i: "ma_slave_curr_idx m < length (ma_slaves m)"
  shows "length (ma_slaves m') = length (ma_slaves m) \<and>
    (if ret = 0 then ma_slave_curr_idx m' = Suc (ma_slave_curr_idx m) mod length (ma_slaves m)
     else ma_slave_curr_idx m' = ma_slave_curr_idx m \<and> work (curr_slave m') < work (curr_slave m))"
proof -
  let ?si = "ma_slave_curr_idx m"
  obtain ret1 lerr1 s1 rs1 l1 e1 where r: "slave_task_read pow10 md (self ?si) now (curr_slave m) e =
    (ret1, lerr1, s1, rs1, l1, e1)" by (metis prod_cases6)
  note rw = read_work [OF r]
  note w = assms(1) [unfolded master_service_def Let_def r prod.case]
  show ?thesis
  proof (cases "ret1 = 0")
    case False
    obtain m1 e2 where a: "apply_link_error md lerr1 (set_slave ?si s1 m) e1 = (m1, e2)" by force
    from w have "ret = ret1" "m' = m1" using i False a by auto
    then show ?thesis using apply_link_error_keeps [OF a] rw(2) i False by (simp add: set_slave_def)
  next
    case True
    obtain ret2 lerr2 s2 l2 e2 where q: "slave_task_write md now later newer s1 e1 = Some (ret2, lerr2, s2, l2, e2)"
      using w i True by (auto split: option.splits)
    show ?thesis
    proof (cases "ret2 = 0")
      case False
      obtain m1 e3 where a: "apply_link_error md lerr2 (set_slave ?si s2 m) e2 = (m1, e3)" by force
      from w have "ret = ret2" "m' = m1" using i True False q a by auto
      then show ?thesis using apply_link_error_keeps [OF a] rw(1) write_work [OF q False] i False
        by (simp add: set_slave_def)
    next
      case idle: True
      from w have "ret = 0" "m' = wrap_slave_idx ((set_slave ?si (s2\<lparr>sl_block_read_idx := 0,
          sl_value_out_curr := sl_value_out_head s2\<rparr>) m)\<lparr>ma_slave_curr_idx := ?si + 1\<rparr>)"
        using i True idle q by simp_all
      then show ?thesis using i by (auto simp: wrap_slave_idx_def set_slave_def mod_Suc)
    qed
  qed
qed

text \<open>
  The services of the master on a working connection, one per pass: each with the time of the pass,
  the time read during it and the value another thread queues meanwhile.
\<close>

fun services ::
  "(int \<Rightarrow> dbl) \<Rightarrow> 'e modbus \<Rightarrow> (nat \<Rightarrow> nat \<Rightarrow> nat \<Rightarrow> val_ref) \<Rightarrow> (ticks \<times> ticks \<times> dbl option) list \<Rightarrow>
    mb_master \<Rightarrow> 'e \<Rightarrow> (mb_master \<times> 'e) option" where
  "services pow10 md self [] m e = Some (m, e)"
| "services pow10 md self ((now, later, newer) # ts) m e =
     (case master_service pow10 md self now later newer m e of
        None \<Rightarrow> None
      | Some (ret, m', rs, l, e') \<Rightarrow> services pow10 md self ts m' e')"

text \<open>
  C15. No slave starves the others: whatever the slaves answer and whatever is queued meanwhile, after
  at most one service per block and queued value left (and one more) the master turns to the next
  slave in the round; a failing block or a failing write cannot hold it back.
\<close>

theorem every_slave_gets_its_turn:
  assumes "services pow10 md self ts m e \<noteq> None"
    and "ma_slave_curr_idx m < length (ma_slaves m)" "work (curr_slave m) < length ts"
  shows "\<exists>k m' e'. k \<le> Suc (work (curr_slave m)) \<and> services pow10 md self (take k ts) m e = Some (m', e') \<and>
    length (ma_slaves m') = length (ma_slaves m) \<and>
    ma_slave_curr_idx m' = Suc (ma_slave_curr_idx m) mod length (ma_slaves m)"
  using assms
proof (induction ts arbitrary: m e)
  case (Cons t ts)
  obtain now later newer where t: "t = (now, later, newer)" by (cases t)
  obtain ret m1 rs l e1 where s: "master_service pow10 md self now later newer m e = Some (ret, m1, rs, l, e1)"
    using Cons.prems(1) by (auto simp: t split: option.splits)
  note p = master_service_progress [OF s Cons.prems(2)]
  show ?case
  proof (cases "ret = 0")
    case True
    then show ?thesis using p by (intro exI [of _ 1] exI [of _ m1] exI [of _ e1]) (simp add: t s)
  next
    case False
    then have q: "length (ma_slaves m1) = length (ma_slaves m)" "ma_slave_curr_idx m1 = ma_slave_curr_idx m"
      "work (curr_slave m1) < work (curr_slave m)" using p by auto
    have "services pow10 md self ts m1 e1 \<noteq> None" using Cons.prems(1) s by (simp add: t)
    then obtain k m' e' where "k \<le> Suc (work (curr_slave m1))" "services pow10 md self (take k ts) m1 e1 = Some (m', e')"
      "length (ma_slaves m') = length (ma_slaves m1)"
      "ma_slave_curr_idx m' = Suc (ma_slave_curr_idx m1) mod length (ma_slaves m1)"
      using Cons.IH [of m1 e1] q Cons.prems(2,3) by auto
    then show ?thesis using q by (intro exI [of _ "Suc k"] exI [of _ m'] exI [of _ e']) (simp add: t s)
  qed
qed simp

definition example_slave :: mb_slave where
  "example_slave = \<lparr>sl_id = 1, sl_interval = 1000, sl_init_value = DFin 0, sl_stale_timeout = 0,
     sl_blocks = [example_block], sl_block_read_idx = 0, sl_value_out_head = [], sl_value_out_curr = [],
     sl_next_poll = 0, sl_next_write = 0\<rparr>"

definition example_master :: mb_master where
  "example_master = \<lparr>ma_tcp = True, ma_name = ''m'', ma_separation_time = 0, ma_timeout = 250, ma_line = Tcp 502,
     ma_slaves = [example_slave, example_slave], ma_next_transaction = 0, ma_slave_curr_idx = 0,
     ma_reconnect = False, ma_connect_failed = False, ma_ctx = True, ma_thread_running = True\<rparr>"

theorem every_slave_gets_its_turn_witness:
  "\<exists>k m'. k \<le> 2 \<and> services (\<lambda>_. DFin 1) (example_modbus [] (Some ETIMEDOUT)) (MbVal True 0)
     (take k [(0, 0, None), (10, 10, None)]) example_master () = Some (m', ()) \<and> ma_slave_curr_idx m' = 1"
proof -
  have n: "next_input [example_block] 0 = 0" by (subst next_input.simps) (simp add: example_block_def)
  have "services (\<lambda>_. DFin 1) (example_modbus [] (Some ETIMEDOUT)) (MbVal True 0)
     [(0, 0, None), (10, 10, None)] example_master () \<noteq> None"
    by (simp add: master_service_def slave_task_read_def slave_task_write_def n read_block_registers_def
      example_master_def example_slave_def example_modbus_def example_block_def bit_regtype_def ETIMEDOUT_def
      MODBUS_ENOBASE_def mb_simps n [unfolded example_block_def])
  moreover have "work (curr_slave example_master) = 1" "ma_slave_curr_idx example_master = 0"
    "length (ma_slaves example_master) = 2"
    by (simp_all add: example_master_def example_slave_def work_def)
  ultimately show ?thesis
    using every_slave_gets_its_turn [of "\<lambda>_. DFin 1" "example_modbus [] (Some ETIMEDOUT)" "MbVal True 0"
      "[(0, 0, None), (10, 10, None)]" example_master "()"]
    by (simp add: numeral_2_eq_2 del: services.simps) blast
qed

text \<open>
  A failed read is contained: nothing is dispatched, the block is marked failed and left behind,
  a warning is logged only at its first failure, and the other blocks of the slave are polled on
  if the slave answered (with a protocol error), or wait for the next interval if it did not,
  which the connection is told of.
\<close>

theorem failed_read_is_contained:
  assumes "slave_task_read pow10 md self now s e = (- 1, lerr, s', rs, l, e')"
  shows "rs = [] \<and>
    (\<exists>i < length (sl_blocks s). bl_dir (sl_blocks s ! i) = DIR_IN \<and> sl_block_read_idx s \<le> i \<and> sl_block_read_idx s' = Suc i \<and>
      sl_blocks s' = (sl_blocks s)[i := (sl_blocks s ! i)\<lparr>bl_read_failed := True\<rparr>] \<and>
      (l = [] \<longleftrightarrow> bl_read_failed (sl_blocks s ! i))) \<and>
    sl_next_poll s' = (if lerr = None then sl_next_poll s else now + sl_interval s) \<and>
    (\<forall>err. lerr = Some err \<longrightarrow> err < MODBUS_ENOBASE)"
proof -
  define i where "i = next_input (sl_blocks s) (sl_block_read_idx s)"
  define blk where "blk = sl_blocks s ! i"
  have "\<not> now < sl_next_poll s" "\<not> length (sl_blocks s) \<le> i"
    using assms by (auto simp: slave_task_read_def Let_def i_def split: if_splits)
  note a = assms [unfolded slave_task_read_def Let_def, folded i_def blk_def, simplified this if_False]
  have i: "i < length (sl_blocks s)" "sl_block_read_idx s \<le> i" "bl_dir blk = DIR_IN"
    using \<open>\<not> length (sl_blocks s) \<le> i\<close> next_input_ge next_input_dir [of "sl_blocks s" "sl_block_read_idx s"]
    by (auto simp: i_def blk_def)
  obtain r blk1 rs1 l1 e1 where r: "(if bit_regtype (bl_regtype blk)
      then case read_block_bits md (sl_id s) (self i) blk e of (r, rs, e1) \<Rightarrow> (r, blk, rs, [], e1)
      else read_block_registers pow10 md (sl_id s) (self i) blk e) = (r, blk1, rs1, l1, e1)"
    by (metis prod_cases5)
  note a = a [unfolded r prod.case]
  obtain err where err: "r = Some err" using a by (cases r) (auto split: prod.splits)
  then have "rs1 = [] \<and> l1 = [] \<and> blk1 = blk"
    using r by (auto simp: read_block_bits_def read_block_registers_def Let_def split: if_splits prod.splits option.splits sum.splits)
  then show ?thesis
    using a i unfolding err by (auto simp: log_read_def blk_def split: if_splits)
qed

theorem failed_read_is_contained_witness:
  "bl_read_failed (sl_blocks (fst (snd (snd (slave_task_read (\<lambda>_. DFin 1) (example_modbus [] (Some ETIMEDOUT))
    (MbVal True 0 0) 5 example_slave ())))) ! 0)"
proof -
  have n: "next_input [example_block] 0 = 0" by (subst next_input.simps) (simp add: example_block_def)
  obtain lerr s' rs l where r: "slave_task_read (\<lambda>_. DFin 1) (example_modbus [] (Some ETIMEDOUT))
      (MbVal True 0 0) 5 example_slave () = (- 1, lerr, s', rs, l, ())"
    by (simp add: slave_task_read_def n read_block_registers_def example_slave_def example_modbus_def
      bit_regtype_def ETIMEDOUT_def MODBUS_ENOBASE_def mb_simps example_block_def n [unfolded example_block_def])
  have "sl_blocks example_slave = [example_block]" by (simp add: example_slave_def)
  then show ?thesis using failed_read_is_contained [OF r] unfolding r by auto
qed

subsection \<open>Queued writes\<close>

text \<open>
  C17. A queued value is written or stays queued: when a write was attempted, it succeeded, or the
  value (or the newer one that another thread queued meanwhile) is still pending; a value that
  arrives during a successful write stays pending too. A failure is logged once until the next
  success.
\<close>

theorem failed_write_stays_pending:
  assumes "write_execute md slave_id newer blk vi e = Some (ret, lerr, blk', l, e')"
    and "vi < length (bl_values blk)" "mv_write_pending (bl_values blk ! vi)"
    and "fst (md_set_slave md slave_id e) = None"
  shows "ret \<in> {1, - 1} \<and> length (bl_values blk') = length (bl_values blk) \<and>
    mv_write_pending (bl_values blk' ! vi) = (ret = - 1 \<or> newer \<noteq> None) \<and>
    (mv_write_pending (bl_values blk' ! vi) \<longrightarrow>
      mv_write_value (bl_values blk' ! vi) = (case newer of Some g \<Rightarrow> g | None \<Rightarrow> mv_write_value (bl_values blk ! vi))) \<and>
    mv_write_failed (bl_values blk' ! vi) = (ret = - 1) \<and>
    (l = [] \<longleftrightarrow> mv_write_failed (bl_values blk ! vi) = (ret = - 1))"
proof -
  obtain e1 where s: "md_set_slave md slave_id e = (None, e1)"
    using assms(4) by (cases "md_set_slave md slave_id e") simp
  define val where "val = bl_values blk ! vi"
  define blk2 where "blk2 = set_image val (mv_write_value val) (upd_value vi (\<lambda>v. v\<lparr>mv_write_pending := False\<rparr>) blk)"
  define blk3 where "blk3 = (case newer of Some g \<Rightarrow> upd_value vi (write_schedule g True) blk2 | None \<Rightarrow> blk2)"
  have blk3: "length (bl_values blk3) = length (bl_values blk)"
    "mv_write_pending (bl_values blk3 ! vi) = (newer \<noteq> None)"
    "mv_write_value (bl_values blk3 ! vi) = (case newer of Some g \<Rightarrow> g | None \<Rightarrow> mv_write_value val)"
    using assms(2) by (auto simp: blk3_def blk2_def val_def write_schedule_def split: option.splits)
  obtain req where q: "mb_encode val (mv_write_value val) (mv_valbuf (bl_values blk2 ! mv_bitmask_base val)) = Some req"
    using assms(1,3) s by (auto simp: write_execute_def Let_def val_def blk2_def split: option.splits)
  obtain r e2 where i: "issue_write md (bl_addr blk + mv_reg val) req e1 = (r, e2)" by force
  note w = assms(1) [unfolded write_execute_def Let_def, folded val_def, folded blk2_def, folded blk3_def]
  show ?thesis
  proof (cases r)
    case None
    then have "ret = 1" "blk' = upd_value vi (\<lambda>v. v\<lparr>mv_write_failed := False\<rparr>) blk3"
      "l = (if mv_write_failed val then [(LOG_INFO, ''MODBUS value written again'')] else [])"
      using w q i s assms(3) by (simp_all add: val_def [symmetric])
    then show ?thesis using blk3 assms(2) by (auto simp: val_def)
  next
    case (Some err)
    then have "ret = - 1" "blk' = upd_value vi (\<lambda>v. (if mv_write_pending v then v
        else v\<lparr>mv_write_value := mv_write_value val, mv_write_pending := True\<rparr>)\<lparr>mv_write_failed := True\<rparr>) blk3"
      "l = (if mv_write_failed val then [] else [(LOG_WARNING, ''Failed to write MODBUS value'')])"
      using w q i s assms(3) by (simp_all add: val_def [symmetric])
    then show ?thesis using blk3 assms(2) by (auto simp: val_def split: option.splits)
  qed
qed

theorem failed_write_stays_pending_witness:
  "\<exists>blk' l. write_execute (example_modbus [] (Some ETIMEDOUT)) 1 (Some (DFin 3))
      (example_block\<lparr>bl_values := [example_mb_val\<lparr>mv_type := MB_BIT, mv_write_pending := True\<rparr>]\<rparr>) 0 () =
        Some (- 1, Some ETIMEDOUT, blk', l, ()) \<and>
    mv_write_pending (bl_values blk' ! 0) \<and> mv_write_value (bl_values blk' ! 0) = DFin 3 \<and> l \<noteq> []"
proof -
  let ?blk = "example_block\<lparr>bl_values := [example_mb_val\<lparr>mv_type := MB_BIT, mv_write_pending := True\<rparr>]\<rparr>"
  let ?md = "example_modbus [] (Some ETIMEDOUT)"
  obtain blk' l where w: "write_execute ?md 1 (Some (DFin 3)) ?blk 0 () = Some (- 1, Some ETIMEDOUT, blk', l, ())"
    by (simp add: write_execute_def mb_encode_def upd_value_def set_image_def example_modbus_def
      ETIMEDOUT_def MODBUS_ENOBASE_def Let_def)
  have v: "\<not> mv_write_failed (bl_values ?blk ! 0)"
    by (simp add: example_mb_val_def new_mb_val_def)
  show ?thesis
    using failed_write_stays_pending [OF w] w v by (auto simp: example_modbus_def)
qed

end
