(* ===== verification/Te_Expr.thy ===== *)
theory Te_Expr
  imports CDouble Config_Parse
begin

text \<open>
  Compiled expressions: the part of \<open>tinyexpr/tinyexpr.c\<close> behind the parser, and the functions
  \<open>eval.c\<close> adds to it. A function pointer is its symbol. The functions of \<open>math.h\<close> and the largest
  \<open>unsigned long\<close> (32 bits on the target, 64 on a development host) are parameters. A variable is the index
  of its slot in the array of doubles its address points into.
\<close>

subsection \<open>Functions\<close>

record c_env =
  ce_libm :: "string \<Rightarrow> dbl list \<Rightarrow> dbl"
  ce_ulong_max :: int

datatype te_fun =
    Add | Sub | Mul | Divide | Negate | Comma
  | Greater | Greater_eq | Lower | Lower_eq | Equal | Not_equal
  | Logical_and | Logical_or | Logical_not | Logical_notnot | Negate_logical_not | Negate_logical_notnot
  | Pi | E | Fac | Ncr | Npr | Libm string
  | Fn_if | Fn_min | Fn_max | Fn_clamp | Fn_hyst

definition UINT_MAX :: int where "UINT_MAX = 2 ^ 32 - 1"

function fac_loop :: "c_env \<Rightarrow> int \<Rightarrow> int \<Rightarrow> int \<Rightarrow> dbl" where
  "fac_loop m i ua result =
     (if i \<le> ua then (if ce_ulong_max m div result < i then DInf False else fac_loop m (i + 1) ua (result * i))
      else d_of_int result)"
  by pat_completeness auto

termination fac_loop by (relation "measure (\<lambda>(m, i, ua, result). nat (ua + 1 - i))") auto

definition fac :: "c_env \<Rightarrow> dbl \<Rightarrow> dbl" where
  "fac m a =
     (if \<not> d_le (DFin 0) a then DNaN
      else if d_lt (DFin (of_int UINT_MAX)) a then DInf False
      else case d_to_int 0 UINT_MAX a of Some ua \<Rightarrow> fac_loop m 1 ua 1 | None \<Rightarrow> DNaN)"

function ncr_loop :: "c_env \<Rightarrow> int \<Rightarrow> int \<Rightarrow> int \<Rightarrow> int \<Rightarrow> dbl" where
  "ncr_loop m i un ur result =
     (if i \<le> ur then
        (if ce_ulong_max m div (un - ur + i) < result then DInf False
         else ncr_loop m (i + 1) un ur (result * (un - ur + i) div i))
      else d_of_int result)"
  by pat_completeness auto

termination ncr_loop by (relation "measure (\<lambda>(m, i, un, ur, result). nat (ur + 1 - i))") auto

declare fac_loop.simps [simp del] ncr_loop.simps [simp del]

definition ncr :: "c_env \<Rightarrow> dbl \<Rightarrow> dbl \<Rightarrow> dbl" where
  "ncr m n r =
     (if \<not> d_le (DFin 0) n \<or> \<not> d_le (DFin 0) r \<or> d_lt n r then DNaN
      else if d_lt (DFin (of_int UINT_MAX)) n \<or> d_lt (DFin (of_int UINT_MAX)) r then DInf False
      else case (d_to_int 0 UINT_MAX n, d_to_int 0 UINT_MAX r) of
             (Some un, Some ur) \<Rightarrow> ncr_loop m 1 un (if un div 2 < ur then un - ur else ur) 1
           | _ \<Rightarrow> DNaN)"

definition npr :: "c_env \<Rightarrow> dbl \<Rightarrow> dbl \<Rightarrow> dbl" where
  "npr m n r = d_mul (ncr m n r) (fac m r)"

definition fn_if :: "dbl \<Rightarrow> dbl \<Rightarrow> dbl \<Rightarrow> dbl" where
  "fn_if c a b = (if isnan c then DNaN else if \<not> d_eq c (DFin 0) then a else b)"

definition fn_min :: "dbl \<Rightarrow> dbl \<Rightarrow> dbl" where
  "fn_min a b = (if isnan a \<or> isnan b then DNaN else if d_lt a b then a else b)"

definition fn_max :: "dbl \<Rightarrow> dbl \<Rightarrow> dbl" where
  "fn_max a b = (if isnan a \<or> isnan b then DNaN else if d_lt b a then a else b)"

definition fn_clamp :: "dbl \<Rightarrow> dbl \<Rightarrow> dbl \<Rightarrow> dbl" where
  "fn_clamp x lo hi = (if isnan x \<or> isnan lo \<or> isnan hi then DNaN else utl_val_limit x lo hi)"

definition fn_hyst :: "dbl \<Rightarrow> dbl \<Rightarrow> dbl \<Rightarrow> dbl \<Rightarrow> dbl" where
  "fn_hyst prev x on off =
     (if isnan prev \<or> isnan x \<or> isnan on \<or> isnan off then DNaN
      else if d_le off on then
        (if d_le on x then DFin 1 else if d_le x off then DFin 0 else d_of_bool (\<not> d_eq prev (DFin 0)))
      else if d_le x on then DFin 1
      else if d_le off x then DFin 0
      else d_of_bool (\<not> d_eq prev (DFin 0)))"

text \<open>The calls by number of arguments; a wrong number does not occur (see \<open>wf_expr\<close> below).\<close>

fun call0 :: "c_env \<Rightarrow> te_fun \<Rightarrow> dbl" where
  "call0 m Pi = mk_dbl False (314159265358979323846 / 10 ^ 20)"
| "call0 m E = mk_dbl False (271828182845904523536 / 10 ^ 20)"
| "call0 m _ = DNaN"

fun call1 :: "c_env \<Rightarrow> te_fun \<Rightarrow> dbl \<Rightarrow> dbl" where
  "call1 m Negate a = d_neg a"
| "call1 m Logical_not a = d_of_bool (d_eq a (DFin 0))"
| "call1 m Logical_notnot a = d_of_bool (\<not> d_eq a (DFin 0))"
| "call1 m Negate_logical_not a = d_neg (d_of_bool (d_eq a (DFin 0)))"
| "call1 m Negate_logical_notnot a = d_neg (d_of_bool (\<not> d_eq a (DFin 0)))"
| "call1 m Fac a = fac m a"
| "call1 m (Libm f) a = ce_libm m f [a]"
| "call1 m _ a = DNaN"

fun call2 :: "c_env \<Rightarrow> te_fun \<Rightarrow> dbl \<Rightarrow> dbl \<Rightarrow> dbl" where
  "call2 m Add a b = d_add a b"
| "call2 m Sub a b = d_sub a b"
| "call2 m Mul a b = d_mul a b"
| "call2 m Divide a b = d_div a b"
| "call2 m Comma a b = b"
| "call2 m Greater a b = d_of_bool (d_lt b a)"
| "call2 m Greater_eq a b = d_of_bool (d_le b a)"
| "call2 m Lower a b = d_of_bool (d_lt a b)"
| "call2 m Lower_eq a b = d_of_bool (d_le a b)"
| "call2 m Equal a b = d_of_bool (d_eq a b)"
| "call2 m Not_equal a b = d_of_bool (\<not> d_eq a b)"
| "call2 m Logical_and a b = d_of_bool (\<not> d_eq a (DFin 0) \<and> \<not> d_eq b (DFin 0))"
| "call2 m Logical_or a b = d_of_bool (\<not> d_eq a (DFin 0) \<or> \<not> d_eq b (DFin 0))"
| "call2 m Ncr a b = ncr m a b"
| "call2 m Npr a b = npr m a b"
| "call2 m (Libm f) a b = ce_libm m f [a, b]"
| "call2 m Fn_min a b = fn_min a b"
| "call2 m Fn_max a b = fn_max a b"
| "call2 m _ a b = DNaN"

fun call3 :: "c_env \<Rightarrow> te_fun \<Rightarrow> dbl \<Rightarrow> dbl \<Rightarrow> dbl \<Rightarrow> dbl" where
  "call3 m Fn_if a b c = fn_if a b c"
| "call3 m Fn_clamp a b c = fn_clamp a b c"
| "call3 m _ a b c = DNaN"

fun call4 :: "c_env \<Rightarrow> te_fun \<Rightarrow> dbl \<Rightarrow> dbl \<Rightarrow> dbl \<Rightarrow> dbl \<Rightarrow> dbl" where
  "call4 m Fn_hyst a b c d = fn_hyst a b c d"
| "call4 m _ a b c d = DNaN"

fun te_apply :: "c_env \<Rightarrow> te_fun \<Rightarrow> dbl list \<Rightarrow> dbl" where
  "te_apply m f [] = call0 m f"
| "te_apply m f [a] = call1 m f a"
| "te_apply m f [a, b] = call2 m f a b"
| "te_apply m f [a, b, c] = call3 m f a b c"
| "te_apply m f [a, b, c, d] = call4 m f a b c d"
| "te_apply m f _ = DNaN"

subsection \<open>Built-in functions and their lookup\<close>

definition te_functions :: "(string \<times> te_fun \<times> nat) list" where
  "te_functions =
     [(''abs'', Libm ''fabs'', 1), (''acos'', Libm ''acos'', 1), (''asin'', Libm ''asin'', 1),
      (''atan'', Libm ''atan'', 1), (''atan2'', Libm ''atan2'', 2), (''ceil'', Libm ''ceil'', 1),
      (''cos'', Libm ''cos'', 1), (''cosh'', Libm ''cosh'', 1), (''e'', E, 0), (''exp'', Libm ''exp'', 1),
      (''fac'', Fac, 1), (''floor'', Libm ''floor'', 1), (''ln'', Libm ''log'', 1), (''log'', Libm ''log10'', 1),
      (''log10'', Libm ''log10'', 1), (''ncr'', Ncr, 2), (''npr'', Npr, 2), (''pi'', Pi, 0),
      (''pow'', Libm ''pow'', 2), (''sin'', Libm ''sin'', 1), (''sinh'', Libm ''sinh'', 1),
      (''sqrt'', Libm ''sqrt'', 1), (''tan'', Libm ''tan'', 1), (''tanh'', Libm ''tanh'', 1)]"

text \<open>The comparison of the search: \<open>strncmp\<close> with the length of the name, then the character behind it.\<close>

fun strncmp :: "string \<Rightarrow> string \<Rightarrow> int" where
  "strncmp [] f = 0"
| "strncmp (c # cs) [] = ch c"
| "strncmp (c # cs) (d # ds) = (if c = d then strncmp cs ds else ch c - ch d)"

definition te_compare :: "string \<Rightarrow> string \<Rightarrow> int" where
  "te_compare name f =
     (let c = strncmp name f in
      if c = 0 then (if length name < length f then - ch (f ! length name) else 0) else c)"

function te_search :: "(string \<times> 'a) list \<Rightarrow> string \<Rightarrow> int \<Rightarrow> int \<Rightarrow> 'a option" where
  "te_search tab name imin imax =
     (if imax < imin then None
      else let i = imin + (imax - imin) div 2; c = te_compare name (fst (tab ! nat i)) in
        if c = 0 then Some (snd (tab ! nat i))
        else if 0 < c then te_search tab name (i + 1) imax else te_search tab name imin (i - 1))"
  by pat_completeness auto

termination te_search
  by (relation "measure (\<lambda>(tab, name, imin, imax). nat (imax - imin + 1))") (auto simp: Let_def)

declare te_search.simps [simp del]

definition find_builtin :: "string \<Rightarrow> (te_fun \<times> nat) option" where
  "find_builtin name = te_search te_functions name 0 (int (length te_functions) - 1)"

definition te_is_builtin :: "string \<Rightarrow> bool" where
  "te_is_builtin name \<longleftrightarrow> find_builtin name \<noteq> None"

subsection \<open>Expression trees\<close>

text \<open>
  \<open>Fun f pure es\<close>: a function node with its flag; the parameters of a closure (never created here)
  are not modelled.
\<close>

datatype te_expr = Constant dbl | Variable nat | Fun te_fun bool "te_expr list"

fun te_eval :: "c_env \<Rightarrow> dbl list \<Rightarrow> te_expr \<Rightarrow> dbl" where
  "te_eval m slots (Constant v) = v"
| "te_eval m slots (Variable i) = slots ! i"
| "te_eval m slots (Fun f pure es) = te_apply m f (map (te_eval m slots) es)"

fun is_constant :: "te_expr \<Rightarrow> bool" where
  "is_constant (Constant v) = True"
| "is_constant _ = False"

text \<open>\<open>slots\<close> is the content of the slots at compile time.\<close>

fun optimize :: "c_env \<Rightarrow> dbl list \<Rightarrow> te_expr \<Rightarrow> te_expr" where
  "optimize m slots (Constant v) = Constant v"
| "optimize m slots (Variable i) = Variable i"
| "optimize m slots (Fun f pure es) =
     (if pure then
        let es' = map (optimize m slots) es in
        if list_all is_constant es' then Constant (te_eval m slots (Fun f pure es')) else Fun f pure es'
      else Fun f pure es)"

text \<open>The slots an expression reads, in the order of the walk of its tree.\<close>

fun reads :: "te_expr \<Rightarrow> nat list" where
  "reads (Constant v) = []"
| "reads (Variable i) = [i]"
| "reads (Fun f pure es) = concat (map reads es)"

lemma te_eval_reads:
  "(\<And>i. i \<in> set (reads e) \<Longrightarrow> slots ! i = slots' ! i) \<Longrightarrow> te_eval m slots e = te_eval m slots' e"
proof (induction e)
  case (Fun f pure es)
  have "te_eval m slots e = te_eval m slots' e" if "e \<in> set es" for e
    using Fun.IH [OF that] Fun.prems that by auto
  then have "map (te_eval m slots) es = map (te_eval m slots') es" by simp
  then show ?case by (simp only: te_eval.simps)
qed simp_all

lemma constant_eval: "is_constant e \<Longrightarrow> te_eval m slots e = te_eval m slots' e"
  by (cases e) simp_all

lemma constant_reads: "is_constant e \<Longrightarrow> reads e = []"
  by (cases e) simp_all

lemma optimize_eval: "te_eval m slots' (optimize m slots e) = te_eval m slots' e"
proof (induction e)
  case (Fun f pure es)
  let ?es = "map (optimize m slots) es"
  have m: "map (te_eval m slots') ?es = map (te_eval m slots') es" using Fun.IH by simp
  have f: "te_eval m slots' (Fun f pure ?es) = te_eval m slots' (Fun f pure es)" by (simp only: te_eval.simps m)
  have c: "map (te_eval m slots) ?es = map (te_eval m slots') ?es" if "list_all is_constant ?es"
    using that constant_eval by (simp add: list_all_iff)
  then have "te_eval m slots (Fun f pure ?es) = te_eval m slots' (Fun f pure es)" if "list_all is_constant ?es"
    using that f by (simp only: te_eval.simps)
  then show ?case using f by (auto simp: Let_def simp del: te_eval.simps(3) intro: te_eval.simps(1))
qed simp_all

lemma optimize_reads: "reads (optimize m slots e) = reads e"
proof (induction e)
  case (Fun f pure es)
  have m: "map (\<lambda>e. reads (optimize m slots e)) es = map reads es" using Fun.IH by simp
  have c: "concat (map reads (map (optimize m slots) es)) = []" if "list_all is_constant (map (optimize m slots) es)"
    using that constant_reads by (auto simp: list_all_iff)
  have n: "concat (map reads (map (optimize m slots) es)) = concat (map reads es)"
    unfolding map_map comp_def m ..
  show ?case
  proof (cases "pure \<and> list_all is_constant (map (optimize m slots) es)")
    case True
    then have "optimize m slots (Fun f pure es) = Constant (te_eval m slots (Fun f pure (map (optimize m slots) es)))"
      by (simp only: optimize.simps Let_def if_True simp_thms)
    then show ?thesis using c n True by (simp only: reads.simps)
  next
    case False
    then have "optimize m slots (Fun f pure es) = (if pure then Fun f pure (map (optimize m slots) es) else Fun f pure es)"
      by (auto simp only: optimize.simps Let_def split: if_splits)
    then show ?thesis using n by (auto simp only: reads.simps split: if_splits)
  qed
qed simp_all

text \<open>No function of constants is left to be computed at run time.\<close>

fun folded :: "te_expr \<Rightarrow> bool" where
  "folded (Fun f pure es) \<longleftrightarrow> (\<forall>e \<in> set es. folded e) \<and> \<not> list_all is_constant es"
| "folded _ \<longleftrightarrow> True"

fun all_pure :: "te_expr \<Rightarrow> bool" where
  "all_pure (Fun f pure es) \<longleftrightarrow> pure \<and> (\<forall>e \<in> set es. all_pure e)"
| "all_pure _ \<longleftrightarrow> True"

lemma optimize_folded: "all_pure e \<Longrightarrow> folded (optimize m slots e)"
  by (induction e) (auto simp: Let_def)

text \<open>
  C21. Constant folding is invisible: whatever the slots hold, the optimised expression evaluates to
  what the original one does, even though the folding used the content of the slots at compile
  time; it reads the same slots in the same order (so the recorded dependencies are those of
  the expression as written); and nothing constant is left to compute.
\<close>

theorem optimize_equivalent:
  assumes "all_pure e"
  shows "te_eval m slots' (optimize m slots e) = te_eval m slots' e \<and>
    reads (optimize m slots e) = reads e \<and> folded (optimize m slots e)"
  using assms by (simp add: optimize_eval optimize_reads optimize_folded)

definition example_env :: c_env where
  "example_env = \<lparr>ce_libm = \<lambda>f as. DNaN, ce_ulong_max = 2 ^ 32 - 1\<rparr>"

theorem optimize_equivalent_witness:
  "optimize example_env [] (Fun Greater True [Variable 0, Fun Negate True [Constant (DFin 1)]]) =
     Fun Greater True [Variable 0, Constant (DFin (- 1))] \<and>
   te_eval example_env [DFin 3] (Fun Greater True [Variable 0, Constant (DFin (- 1))]) = DFin 1"
  using optimize_equivalent [of "Fun Greater True [Variable 0, Fun Negate True [Constant (DFin 1)]]"
    example_env "[DFin 3]" "[]"] by (simp add: d_of_bool_def)

subsection \<open>The search in the table of functions\<close>

text \<open>The order of the table.\<close>

fun te_less :: "string \<Rightarrow> string \<Rightarrow> bool" where
  "te_less [] [] = False"
| "te_less [] (d # ds) = True"
| "te_less (c # cs) [] = False"
| "te_less (c # cs) (d # ds) = (if c = d then te_less cs ds else ch c < ch d)"

lemma ch_inj [simp]: "ch c = ch d \<longleftrightarrow> c = d"
  by (simp add: ch_def)

lemma te_compare_simps [simp]:
  "te_compare [] [] = 0"
  "te_compare [] (d # ds) = - ch d"
  "0 < ch c \<Longrightarrow> te_compare (c # cs) [] = ch c"
  "te_compare (c # cs) (d # ds) = (if c = d then te_compare cs ds else ch c - ch d)"
  by (auto simp: te_compare_def Let_def)

lemma te_compare_sign:
  assumes "\<forall>c \<in> set name \<union> set f. 0 < ch c"
  shows "(te_compare name f = 0 \<longleftrightarrow> name = f) \<and> (0 < te_compare name f \<longleftrightarrow> te_less f name)"
  using assms
proof (induction name f rule: te_less.induct)
  case (4 c cs d ds)
  then show ?case by (cases "c = d") auto
qed auto

lemma te_less_trans: "te_less a b \<Longrightarrow> te_less b c \<Longrightarrow> te_less a c"
proof (induction a b arbitrary: c rule: te_less.induct)
  case (2 d ds)
  then show ?case by (cases c) auto
next
  case (4 x xs y ys)
  then obtain z zs where c: "c = z # zs" by (cases c) auto
  have l: "if x = y then te_less xs ys else ch x < ch y" "if y = z then te_less ys zs else ch y < ch z"
    using 4(2,3) by (simp_all only: c te_less.simps)
  have "if x = z then te_less xs zs else ch x < ch z"
  proof (cases "x = y")
    case True
    then show ?thesis using l 4(1) by (cases "y = z") simp_all
  next
    case False
    then have "ch x < ch y" "ch y \<le> ch z" using l by (simp, cases "y = z", simp_all)
    then show ?thesis by auto
  qed
  then show ?case by (simp only: c te_less.simps)
qed auto

lemma te_less_irrefl: "\<not> te_less a a"
  by (induction a) simp_all

lemma te_less_linear: "te_less a b \<or> a = b \<or> te_less b a"
proof (induction a b rule: te_less.induct)
  case (4 c cs d ds)
  have "c = d \<or> ch c < ch d \<or> ch d < ch c" using ch_inj [of c d] by linarith
  with 4 show ?case by auto
qed auto

text \<open>A search from \<open>lo\<close> to \<open>hi\<close> in a strictly sorted table without NUL characters.\<close>

definition te_table :: "(string \<times> 'a) list \<Rightarrow> bool" where
  "te_table tab \<longleftrightarrow> sorted_wrt te_less (map fst tab) \<and> (\<forall>(f, x) \<in> set tab. \<forall>c \<in> set f. 0 < ch c)"

lemma te_search_correct:
  assumes "te_table tab" "\<forall>c \<in> set name. 0 < ch c" "0 \<le> lo" "hi < int (length tab)" "lo \<le> hi + 1"
    and "\<And>k. k < length tab \<Longrightarrow> fst (tab ! k) = name \<Longrightarrow> lo \<le> int k \<and> int k \<le> hi"
  shows "te_search tab name lo hi = map_of tab name"
  using assms
proof (induction tab name lo hi rule: te_search.induct)
  case (1 tab name lo hi)
  have key: "map_of tab name = None" if "\<And>k. k < length tab \<Longrightarrow> fst (tab ! k) \<noteq> name"
    using that by (force simp: map_of_eq_None_iff in_set_conv_nth)
  have sorted: "te_less (fst (tab ! j)) (fst (tab ! k))" if "j < k" "k < length tab" for j k
    using 1(3) that by (auto simp: te_table_def sorted_wrt_iff_nth_less)
  show ?case
  proof (cases "hi < lo")
    case True
    then have "map_of tab name = None" using 1(8) by (intro key) force
    then show ?thesis using True by (subst te_search.simps) simp
  next
    case False
    define i where "i = lo + (hi - lo) div 2"
    have i: "lo \<le> i" "i \<le> hi" "0 \<le> i" "nat i < length tab" using False 1(5,6) by (auto simp: i_def)
    define f where "f = fst (tab ! nat i)"
    have nul: "\<forall>c \<in> set name \<union> set f. 0 < ch c" using 1(3,4) i by (auto simp: te_table_def f_def split_beta)
    note cmp = te_compare_sign [OF nul]
    have un: "te_search tab name lo hi = (if te_compare name f = 0 then Some (snd (tab ! nat i))
      else if 0 < te_compare name f then te_search tab name (i + 1) hi else te_search tab name lo (i - 1))"
      using False by (subst te_search.simps) (simp add: i_def f_def Let_def)
    have before: "int k < i" if "k < length tab" "fst (tab ! k) = name" "te_less name f" for k
    proof (rule ccontr)
      assume "\<not> int k < i"
      then have "k = nat i \<or> nat i < k" by linarith
      then have "f = name \<or> te_less f name" using sorted [of "nat i" k] that(1,2) by (auto simp: f_def)
      then show False using that(3) te_less_irrefl te_less_trans by blast
    qed
    have after: "i < int k" if "k < length tab" "fst (tab ! k) = name" "te_less f name" for k
    proof (rule ccontr)
      assume "\<not> i < int k"
      then have "k = nat i \<or> k < nat i" using i(3) by linarith
      then have "f = name \<or> te_less name f" using sorted [of k "nat i"] that(2) i(4) by (auto simp: f_def)
      then show False using that(3) te_less_irrefl te_less_trans by blast
    qed
    consider (here) "name = f" | (right) "te_less f name" "name \<noteq> f" | (left) "te_less name f" "\<not> te_less f name" "name \<noteq> f"
      using te_less_linear te_less_irrefl te_less_trans by blast
    then show ?thesis
    proof cases
      case here
      have "distinct (map fst tab)"
        unfolding distinct_conv_nth
      proof (intro allI impI)
        fix j k assume jk: "j < length (map fst tab)" "k < length (map fst tab)" "j \<noteq> k"
        then have "te_less (fst (tab ! j)) (fst (tab ! k)) \<or> te_less (fst (tab ! k)) (fst (tab ! j))"
          using sorted [of j k] sorted [of k j] by (cases "j < k") simp_all
        then show "map fst tab ! j \<noteq> map fst tab ! k" using jk te_less_irrefl by (auto simp: nth_map)
      qed
      moreover have "(name, snd (tab ! nat i)) \<in> set tab"
        using i(4) here by (metis f_def nth_mem prod.collapse)
      ultimately have "map_of tab name = Some (snd (tab ! nat i))" by simp
      then show ?thesis using here cmp un by simp
    next
      case right
      have "te_search tab name (i + 1) hi = map_of tab name"
      proof (rule "1.IH"(1) [OF False i_def refl, folded f_def])
        show "i + 1 \<le> int k \<and> int k \<le> hi" if "k < length tab" "fst (tab ! k) = name" for k
          using 1(8) [OF that] after [OF that right(1)] by simp
      qed (use 1(3-7) right i cmp in simp_all)
      then show ?thesis using un right cmp by simp
    next
      case left
      have "te_search tab name lo (i - 1) = map_of tab name"
      proof (rule "1.IH"(2) [OF False i_def refl, folded f_def])
        show "lo \<le> int k \<and> int k \<le> i - 1" if "k < length tab" "fst (tab ! k) = name" for k
          using 1(8) [OF that] before [OF that left(1)] by simp
      qed (use 1(3-7) left i cmp in simp_all)
      then show ?thesis using un left cmp by simp
    qed
  qed
qed

lemma te_functions_table: "te_table te_functions"
  unfolding te_table_def te_functions_def by code_simp

text \<open>
  The binary search for built-in functions finds what a linear search of the table would: the
  table is sorted for the comparison used (which mixes \<open>strncmp\<close> with the length of the name),
  so for every name without NUL characters the result is the table's entry, or nothing.
\<close>

theorem find_builtin_is_lookup:
  assumes "\<forall>c \<in> set name. 0 < ch c"
  shows "find_builtin name = map_of te_functions name"
  unfolding find_builtin_def
  by (rule te_search_correct [OF te_functions_table assms]) auto

theorem find_builtin_is_lookup_witness:
  "find_builtin ''log10'' = Some (Libm ''log10'', 1) \<and> find_builtin ''logx'' = None"
  using find_builtin_is_lookup [of "''log10''"] find_builtin_is_lookup [of "''logx''"]
  by (simp add: te_functions_def ch_def)

end
