(* ===== verification/Te_Parse.thy ===== *)
theory Te_Parse
  imports Te_Expr
begin

text \<open>
  The parser of \<open>tinyexpr/tinyexpr.c\<close> (compiled with \<open>TE_POW_FROM_RIGHT\<close>: powers are
  right associative). The
  functions \<open>expr\<close>, \<open>and_expr\<close>, ..., \<open>factor\<close> differ in the operators of their loop only; they are
  the calls \<open>Level 0\<close> to \<open>Level 6\<close> of \<open>parse\<close>, and \<open>power\<close> is below them. The recursion takes fuel;
  \<open>compile_terminates\<close> shows that \<open>te_compile\<close> gives enough. Running out of memory is not modelled,
  so a null expression is the sign of too deep nesting. The grammar of what the parser accepts is \<open>derives\<close>.
\<close>

subsection \<open>Tokens\<close>

datatype token =
    TOK_ERROR | TOK_END | TOK_SEP | TOK_OPEN | TOK_CLOSE
  | TOK_NUMBER dbl | TOK_VARIABLE nat | TOK_FUNCTION te_fun nat bool | TOK_INFIX te_fun

datatype te_address = Slot nat | Function te_fun nat bool \<comment> \<open>arity and purity are in the type\<close>

record te_lookup =
  tl_env :: c_env
  tl_vars :: "(string \<times> te_address) list"

text \<open>The value, the number of digits and the rest.\<close>

fun scan_value :: "int \<Rightarrow> dbl \<Rightarrow> nat \<Rightarrow> string \<Rightarrow> dbl \<times> nat \<times> string" where
  "scan_value base v n [] = (v, n, [])"
| "scan_value base v n (c # cs) =
     (if digit_val c < base
      then scan_value base (d_add (d_mul v (d_of_int base)) (d_of_int (digit_val c))) (Suc n) cs
      else (v, n, c # cs))"

fun scan_exp :: "int \<Rightarrow> string \<Rightarrow> int \<times> string" where
  "scan_exp e [] = (e, [])"
| "scan_exp e (c # cs) =
     (if digit_val c < 10 then scan_exp (if e < 100000000 then e * 10 + digit_val c else e) cs else (e, c # cs))"

text \<open>The exponent after a mantissa, if digits follow; and the rest.\<close>

definition te_exponent :: "string \<Rightarrow> int \<times> string" where
  "te_exponent p =
     (let q = drop 1 p;
          esign = (if take 1 q = ''-'' then -1 else 1);
          ep = (if take 1 q = ''+'' \<or> take 1 q = ''-'' then drop 1 q else q)
      in if (take 1 p = ''e'' \<or> take 1 p = ''E'') \<and> starts_digit 10 ep
         then let (e, r) = scan_exp 0 ep in (esign * e, r) else (0, p))"

definition parse_number :: "c_env \<Rightarrow> string \<Rightarrow> token \<times> string" where
  "parse_number m s =
     (if (take 2 s = ''0x'' \<or> take 2 s = ''0X'') \<and> starts_digit 16 (drop 2 s)
      then let (v, n, p) = scan_value 16 (DFin 0) 0 (drop 2 s) in (TOK_NUMBER v, p)
      else let
        (v1, n1, p1) = scan_value 10 (DFin 0) 0 s;
        (v, n, p) = (if take 1 p1 = ''.'' then scan_value 10 v1 n1 (drop 1 p1) else (v1, n1, p1))
      in if n = 0 then (TOK_ERROR, s)
         else let (e, r) = te_exponent p; exponent = e - int (n - n1) in
           (TOK_NUMBER (if exponent \<noteq> 0 \<and> \<not> d_eq v (DFin 0)
              then d_mul v (ce_libm m ''pow'' [DFin 10, d_of_int exponent]) else v), r))"

definition c_isalpha :: "char \<Rightarrow> bool" where
  "c_isalpha c \<longleftrightarrow> (65 \<le> ch c \<and> ch c \<le> 90) \<or> (97 \<le> ch c \<and> ch c \<le> 122)"

definition ident_char :: "char \<Rightarrow> bool" where
  "ident_char c \<longleftrightarrow> c_isalpha c \<or> digit_val c < 10 \<or> c = CHR ''_''"

fun find_lookup :: "(string \<times> te_address) list \<Rightarrow> string \<Rightarrow> te_address option" where
  "find_lookup [] name = None"
| "find_lookup ((n, a) # vars) name = (if n = name then Some a else find_lookup vars name)"

definition name_token :: "te_lookup \<Rightarrow> string \<Rightarrow> token" where
  "name_token c name =
     (case find_lookup (tl_vars c) name of
        Some (Slot i) \<Rightarrow> TOK_VARIABLE i
      | Some (Function f n pure) \<Rightarrow> TOK_FUNCTION f n pure
      | None \<Rightarrow> (case find_builtin name of Some (f, n) \<Rightarrow> TOK_FUNCTION f n True | None \<Rightarrow> TOK_ERROR))"

text \<open>An operator or special character \<open>c\<close> before the rest \<open>cs\<close>; white space is not one.\<close>

definition op_token :: "char \<Rightarrow> string \<Rightarrow> token \<times> string" where
  "op_token c cs =
     (let double = (\<lambda>d a b. if take 1 cs = [d] then (a, drop 1 cs) else (b, cs)) in
      if c = CHR ''+'' then (TOK_INFIX Add, cs)
      else if c = CHR ''-'' then (TOK_INFIX Sub, cs)
      else if c = CHR ''*'' then (TOK_INFIX Mul, cs)
      else if c = CHR ''/'' then (TOK_INFIX Divide, cs)
      else if c = CHR ''^'' then (TOK_INFIX (Libm ''pow''), cs)
      else if c = CHR ''%'' then (TOK_INFIX (Libm ''fmod''), cs)
      else if c = CHR ''!'' then double (CHR ''='') (TOK_INFIX Not_equal) (TOK_INFIX Logical_not)
      else if c = CHR ''='' then double (CHR ''='') (TOK_INFIX Equal) TOK_ERROR
      else if c = CHR ''<'' then double (CHR ''='') (TOK_INFIX Lower_eq) (TOK_INFIX Lower)
      else if c = CHR ''>'' then double (CHR ''='') (TOK_INFIX Greater_eq) (TOK_INFIX Greater)
      else if c = CHR ''&'' then double (CHR ''&'') (TOK_INFIX Logical_and) TOK_ERROR
      else if c = CHR ''|'' then double (CHR ''|'') (TOK_INFIX Logical_or) TOK_ERROR
      else if c = CHR ''('' then (TOK_OPEN, cs)
      else if c = CHR '')'' then (TOK_CLOSE, cs)
      else if c = CHR '','' then (TOK_SEP, cs)
      else (TOK_ERROR, cs))"

fun next_token :: "te_lookup \<Rightarrow> string \<Rightarrow> token \<times> string" where
  "next_token c [] = (TOK_END, [])"
| "next_token c (x # xs) =
     (if digit_val x < 10 \<or> x = CHR ''.'' then parse_number (tl_env c) (x # xs)
      else if c_isalpha x then (name_token c (takeWhile ident_char (x # xs)), dropWhile ident_char (x # xs))
      else if ch x = 32 \<or> ch x = 9 \<or> ch x = 10 \<or> ch x = 13 then next_token c xs
      else op_token x xs)"

text \<open>The parser's state: the current token (\<open>type\<close> and its value) and \<open>next\<close>.\<close>

type_synonym tstate = "token \<times> string"

definition advance :: "te_lookup \<Rightarrow> tstate \<Rightarrow> tstate" where
  "advance c st = next_token c (snd st)"

text \<open>What is left to read; the end and an error are never passed.\<close>

definition tsize :: "tstate \<Rightarrow> nat" where
  "tsize st = length (snd st) + (if fst st \<in> {TOK_END, TOK_ERROR} then 0 else 1)"

lemma scan_value_length: "scan_value base v n s = (v', n', p) \<Longrightarrow> length p + n' = length s + n"
  by (induction s arbitrary: v n) (auto split: if_splits)

lemma scan_exp_length: "scan_exp e s = (e', p) \<Longrightarrow> length p \<le> length s"
  by (induction s arbitrary: e) (auto split: if_splits intro: le_SucI)

lemma te_exponent_length: "te_exponent p = (e, r) \<Longrightarrow> length r \<le> length p"
  by (auto simp: te_exponent_def Let_def split: if_splits prod.splits dest!: scan_exp_length)

lemma parse_number_tsize: "tsize (parse_number m (x # xs)) \<le> length (x # xs)"
proof (cases "(take 2 (x # xs) = ''0x'' \<or> take 2 (x # xs) = ''0X'') \<and> starts_digit 16 (drop 2 (x # xs))")
  case True
  obtain v n p where s: "scan_value 16 (DFin 0) 0 (drop 2 (x # xs)) = (v, n, p)" by (metis prod_cases3)
  have "length p \<le> length xs - 1" using scan_value_length [OF s] by simp
  moreover have "xs \<noteq> []" using True by auto
  ultimately show ?thesis using True s by (cases xs) (simp_all add: parse_number_def tsize_def)
next
  case False
  obtain v1 n1 p1 where s1: "scan_value 10 (DFin 0) 0 (x # xs) = (v1, n1, p1)" by (metis prod_cases3)
  obtain v n p where s2: "(if take 1 p1 = ''.'' then scan_value 10 v1 n1 (drop 1 p1) else (v1, n1, p1)) = (v, n, p)"
    by (metis prod_cases3)
  obtain e r where s3: "te_exponent p = (e, r)" by force
  have "length p1 + n1 = Suc (length xs)" using scan_value_length [OF s1] by simp
  moreover have "length p + n \<le> length p1 + n1"
    using s2 scan_value_length [of 10 v1 n1 "drop 1 p1" v n p] by (auto split: if_splits)
  ultimately have "length r + n \<le> Suc (length xs)" using te_exponent_length [OF s3] by simp
  then show ?thesis using False s1 s2 s3
    by (auto simp: parse_number_def tsize_def Let_def simp del: take_Suc_Cons)
qed

lemma op_token_length: "length (snd (op_token c cs)) \<le> length cs"
  by (simp add: op_token_def Let_def)

lemma next_token_tsize: "tsize (next_token c s) \<le> length s"
proof (induction s)
  case (Cons x xs)
  have "length (dropWhile ident_char (x # xs)) \<le> length xs" if "c_isalpha x"
    using that length_dropWhile_le [of ident_char xs] by (simp add: ident_char_def)
  moreover have "tsize (op_token x xs) \<le> Suc (length xs)"
    using op_token_length [of x xs] by (simp add: tsize_def)
  ultimately show ?case
    using Cons.IH parse_number_tsize [of "tl_env c" x xs] by (auto simp: tsize_def simp del: dropWhile.simps)
qed (simp add: tsize_def)

text \<open>Passing a token consumes something.\<close>

lemma advance_tsize: "fst st \<notin> {TOK_END, TOK_ERROR} \<Longrightarrow> tsize (advance c st) < tsize st"
  using next_token_tsize [of c "snd st"] by (simp add: advance_def tsize_def)

subsection \<open>The grammar\<close>

definition level_op :: "nat \<Rightarrow> te_fun \<Rightarrow> bool" where
  "level_op k g \<longleftrightarrow>
     (if k = 0 then g = Logical_or
      else if k = 1 then g = Logical_and
      else if k = 2 then g = Equal \<or> g = Not_equal
      else if k = 3 then g = Greater \<or> g = Greater_eq \<or> g = Lower \<or> g = Lower_eq
      else if k = 4 then g = Add \<or> g = Sub
      else g = Mul \<or> g = Divide \<or> g = Libm ''fmod'')"

datatype 'a parsed = Fuel | Null | Parsed 'a tstate

fun parsed_bind :: "'a parsed \<Rightarrow> ('a \<Rightarrow> tstate \<Rightarrow> 'b parsed) \<Rightarrow> 'b parsed" where
  "parsed_bind Fuel k = Fuel"
| "parsed_bind Null k = Null"
| "parsed_bind (Parsed x st) k = k x st"

text \<open>The unary operators of \<open>power\<close>: \<open>sign\<close> and \<open>logical\<close>.\<close>

function signs :: "te_lookup \<Rightarrow> int \<Rightarrow> tstate \<Rightarrow> int \<times> tstate" where
  "signs c sg st =
     (if fst st = TOK_INFIX Add then signs c sg (advance c st)
      else if fst st = TOK_INFIX Sub then signs c (- sg) (advance c st)
      else (sg, st))"
  by pat_completeness auto

termination signs
  by (relation "measure (\<lambda>(c, sg, st). tsize st)") (auto intro!: advance_tsize)

function nots :: "te_lookup \<Rightarrow> int \<Rightarrow> tstate \<Rightarrow> int \<times> tstate" where
  "nots c lg st =
     (if fst st = TOK_INFIX Add \<or> fst st = TOK_INFIX Sub then nots c lg (advance c st)
      else if fst st = TOK_INFIX Logical_not then nots c (if lg = 0 then -1 else - lg) (advance c st)
      else (lg, st))"
  by pat_completeness auto

termination nots
  by (relation "measure (\<lambda>(c, lg, st). tsize st)") (auto intro!: advance_tsize)

declare signs.simps [simp del] nots.simps [simp del]

definition unary :: "int \<Rightarrow> int \<Rightarrow> te_expr \<Rightarrow> te_expr" where
  "unary sg lg b =
     (if sg = 1 then
        (if lg = 0 then b else if lg = -1 then Fun Logical_not True [b] else Fun Logical_notnot True [b])
      else if lg = 0 then Fun Negate True [b]
      else if lg = -1 then Fun Negate_logical_not True [b]
      else Fun Negate_logical_notnot True [b])"

text \<open>\<open>s->applied_unary\<close> as the call of \<open>power\<close> before \<open>st\<close> leaves it.\<close>

definition applied_unary :: "te_lookup \<Rightarrow> tstate \<Rightarrow> bool" where
  "applied_unary c st = (let (sg, st1) = signs c 1 st; (lg, st2) = nots c 0 st1 in sg \<noteq> 1 \<or> lg \<noteq> 0)"

text \<open>
  The tree of \<open>factor\<close>, as it is compiled with \<open>TE_POW_FROM_RIGHT\<close>. The pointer \<open>slot\<close> into the tree is
  the path to the node it points at, as the list of parameter numbers (\<open>[]\<close>, the root, also stands
  for the null pointer before the first exponent): \<open>slot_read\<close> reads the slot, \<open>slot_write\<close> writes it.
\<close>

fun slot_read :: "te_expr \<Rightarrow> nat list \<Rightarrow> te_expr" where
  "slot_read e [] = e"
| "slot_read (Fun g pure es) (i # slot) = (if i < length es then slot_read (es ! i) slot else Fun g pure es)"
| "slot_read e (i # slot) = e"

fun slot_write :: "te_expr \<Rightarrow> nat list \<Rightarrow> te_expr \<Rightarrow> te_expr" where
  "slot_write e [] x = x"
| "slot_write (Fun g pure es) (i # slot) x = (if i < length es then Fun g pure (es[i := slot_write (es ! i) slot x]) else Fun g pure es)"
| "slot_write e (i # slot) x = e"

text \<open>The start of \<open>factor\<close>: an operator written to the left of the first operand is taken off, and put back at the end.\<close>

definition factor_start :: "bool \<Rightarrow> te_expr \<Rightarrow> te_fun option \<times> te_expr" where
  "factor_start applied e = (case e of Fun g True [b] \<Rightarrow> if applied then (Some g, b) else (None, e) | _ \<Rightarrow> (None, e))"

definition factor_end :: "te_fun option \<Rightarrow> te_expr \<Rightarrow> te_expr" where
  "factor_end left_function e = (case left_function of Some g \<Rightarrow> Fun g True [e] | None \<Rightarrow> e)"

text \<open>The insertion of an exponent \<open>p\<close> at the slot, and the next slot.\<close>

definition insert_pow :: "bool \<Rightarrow> te_expr \<Rightarrow> te_expr \<Rightarrow> nat list \<Rightarrow> te_expr \<times> nat list" where
  "insert_pow p_unary p e slot =
     (slot_write e slot (Fun (Libm ''pow'') True [slot_read e slot, p]), slot @ (if p_unary then [1, 0] else [1]))"

definition TE_MAX_DEPTH :: nat where "TE_MAX_DEPTH = 512"

text \<open>Close a bracket: an error if it is not there.\<close>

definition expect_close :: "te_lookup \<Rightarrow> 'a \<Rightarrow> tstate \<Rightarrow> 'a parsed" where
  "expect_close c e st =
     (if fst st = TOK_CLOSE then Parsed e (advance c st) else Parsed e (TOK_ERROR, snd st))"

text \<open>
  The calls: \<open>list\<close> and its loop with the expression so far, \<open>expr\<close> to \<open>term\<close> (\<open>Level 0\<close> to \<open>Level 5\<close>) and
  their loops, \<open>factor\<close> (\<open>Level 6\<close>) and its loop with the tree and the slot, \<open>power\<close>, \<open>base\<close>, and the
  loop for the parameters of a function with those already read.
\<close>

datatype call =
    List | List_loop te_expr | Level nat | Level_loop nat te_expr
  | Factor | Factor_loop "te_fun option" te_expr "nat list" | Power | Base
  | Params te_fun nat bool "te_expr list"

text \<open>The end of the loop for the parameters, left with the index \<open>i\<close>.\<close>

definition params_end :: "te_lookup \<Rightarrow> te_fun \<Rightarrow> nat \<Rightarrow> bool \<Rightarrow> te_expr list \<Rightarrow> nat \<Rightarrow> tstate \<Rightarrow> te_expr parsed" where
  "params_end c g n pure es i st =
     (if fst st \<noteq> TOK_CLOSE \<or> i \<noteq> n - 1 then Parsed (Fun g pure es) (TOK_ERROR, snd st)
      else Parsed (Fun g pure es) (advance c st))"

text \<open>\<open>d\<close> is the nesting depth.\<close>

fun parse :: "nat \<Rightarrow> te_lookup \<Rightarrow> nat \<Rightarrow> call \<Rightarrow> tstate \<Rightarrow> te_expr parsed" where
  "parse 0 c d a st = Fuel"
| "parse (Suc f) c d List st = parsed_bind (parse f c d (Level 0) st) (\<lambda>e. parse f c d (List_loop e))"
| "parse (Suc f) c d (List_loop e) st =
     (if fst st = TOK_SEP
      then parsed_bind (parse f c d (Level 0) (advance c st))
        (\<lambda>e'. parse f c d (List_loop (Fun Comma True [e, e'])))
      else Parsed e st)"
| "parse (Suc f) c d (Level k) st =
     (if 6 \<le> k then parse f c d Factor st
      else parsed_bind (parse f c d (Level (k + 1)) st) (\<lambda>e. parse f c d (Level_loop k e)))"
| "parse (Suc f) c d (Level_loop k e) st =
     (case fst st of
        TOK_INFIX g \<Rightarrow>
          if level_op k g
          then parsed_bind (parse f c d (Level (k + 1)) (advance c st))
            (\<lambda>e'. parse f c d (Level_loop k (Fun g True [e, e'])))
          else Parsed e st
      | _ \<Rightarrow> Parsed e st)"
| "parse (Suc f) c d Factor st =
     parsed_bind (parse f c d Power st) (\<lambda>e st'.
       let (left_function, e') = factor_start (applied_unary c st) e in parse f c d (Factor_loop left_function e' []) st')"
| "parse (Suc f) c d (Factor_loop left_function e slot) st =
     (if fst st = TOK_INFIX (Libm ''pow'')
      then let st1 = advance c st in
        parsed_bind (parse f c d Power st1) (\<lambda>p st'.
          let (e', slot') = insert_pow (applied_unary c st1) p e slot in parse f c d (Factor_loop left_function e' slot') st')
      else Parsed (factor_end left_function e) st)"
| "parse (Suc f) c d Power st =
     (let (sg, st1) = signs c 1 st; (lg, st2) = nots c 0 st1 in
      parsed_bind (parse f c d Base st2) (\<lambda>b. Parsed (unary sg lg b)))"
| "parse (Suc f) c d Base st =
     (if TE_MAX_DEPTH \<le> d then Null
      else case fst st of
        TOK_NUMBER v \<Rightarrow> Parsed (Constant v) (advance c st)
      | TOK_VARIABLE i \<Rightarrow> Parsed (Variable i) (advance c st)
      | TOK_FUNCTION g n pure \<Rightarrow>
          (let st1 = advance c st in
           if n = 0 then
             (if fst st1 = TOK_OPEN then expect_close c (Fun g pure []) (advance c st1)
              else Parsed (Fun g pure []) st1)
           else if n = 1 then parsed_bind (parse f c (d + 1) Power st1) (\<lambda>e. Parsed (Fun g pure [e]))
           else if fst st1 \<noteq> TOK_OPEN then Parsed (Fun g pure []) (TOK_ERROR, snd st1)
           else parse f c (d + 1) (Params g n pure []) st1)
      | TOK_OPEN \<Rightarrow> parsed_bind (parse f c (d + 1) List (advance c st)) (expect_close c)
      | _ \<Rightarrow> Parsed (Constant DNaN) (TOK_ERROR, snd st))"
| "parse (Suc f) c d (Params g n pure es) st =
     (if n \<le> length es then params_end c g n pure es (length es) st
      else parsed_bind (parse f c d (Level 0) (advance c st)) (\<lambda>e st1.
        if fst st1 \<noteq> TOK_SEP then params_end c g n pure (es @ [e]) (length es) st1
        else parse f c d (Params g n pure (es @ [e])) st1))"

text \<open>
  The result: the error position (-1 for too deep nesting) or the expression; \<open>None\<close> if the fuel
  did not suffice.
\<close>

definition te_compile :: "te_lookup \<Rightarrow> dbl list \<Rightarrow> string \<Rightarrow> (int + te_expr) option" where
  "te_compile c slots expression =
     (case parse (20 * length expression + 12) c 0 List (next_token c expression) of
        Fuel \<Rightarrow> None
      | Null \<Rightarrow> Some (Inl (- 1))
      | Parsed e st \<Rightarrow>
          if fst st \<noteq> TOK_END then
            let pos = int (length expression) - int (length (snd st)) in Some (Inl (if pos = 0 then 1 else pos))
          else Some (Inr (optimize (tl_env c) slots e)))"

definition te_interp :: "c_env \<Rightarrow> string \<Rightarrow> (dbl \<times> int) option" where
  "te_interp m expression =
     map_option (\<lambda>r. case r of Inl err \<Rightarrow> (DNaN, err) | Inr e \<Rightarrow> (te_eval m [] e, 0))
       (te_compile \<lparr>tl_env = m, tl_vars = []\<rparr> [] expression)"

subsection \<open>Termination\<close>

lemma signs_tsize: "signs c sg st = (sg', st') \<Longrightarrow> tsize st' \<le> tsize st"
proof (induction c sg st rule: signs.induct)
  case (1 c sg st)
  show ?case
  proof (cases "fst st = TOK_INFIX Add \<or> fst st = TOK_INFIX Sub")
    case True
    then have "tsize (advance c st) < tsize st" by (intro advance_tsize) auto
    then show ?thesis using 1 True by (subst (asm) (3) signs.simps) (auto split: if_splits)
  next
    case False
    then show ?thesis using 1(3) by (subst (asm) signs.simps) simp
  qed
qed

lemma nots_tsize: "nots c lg st = (lg', st') \<Longrightarrow> tsize st' \<le> tsize st"
proof (induction c lg st rule: nots.induct)
  case (1 c lg st)
  show ?case
  proof (cases "fst st = TOK_INFIX Add \<or> fst st = TOK_INFIX Sub \<or> fst st = TOK_INFIX Logical_not")
    case True
    then have "tsize (advance c st) < tsize st" by (intro advance_tsize) auto
    then show ?thesis using 1 True by (subst (asm) (3) nots.simps) (auto split: if_splits)
  next
    case False
    then show ?thesis using 1(3) by (subst (asm) nots.simps) simp
  qed
qed

text \<open>A parse that has enough fuel if \<open>enough\<close>, and does not go back before \<open>n\<close>.\<close>

definition runs :: "bool \<Rightarrow> nat \<Rightarrow> 'a parsed \<Rightarrow> bool" where
  "runs enough n r \<longleftrightarrow> (enough \<longrightarrow> r \<noteq> Fuel) \<and> (\<forall>x st. r = Parsed x st \<longrightarrow> tsize st \<le> n)"

lemma runs_Parsed [simp]: "runs b n (Parsed x st) \<longleftrightarrow> tsize st \<le> n"
  by (cases st) (auto simp: runs_def)

lemma runs_Null [simp]: "runs b n Null"
  by (simp add: runs_def)

lemma runs_bind:
  assumes "runs b n r" "\<And>x st. tsize st \<le> n \<Longrightarrow> runs b m (k x st)"
  shows "runs b m (parsed_bind r k)"
  using assms by (cases r) (auto simp: runs_def)

lemma runs_mono: "runs b n r \<Longrightarrow> (b' \<Longrightarrow> b) \<Longrightarrow> n \<le> m \<Longrightarrow> runs b' m r"
  by (auto simp: runs_def intro: le_trans)

lemma tsize_error: "tsize (TOK_ERROR, snd st) \<le> tsize st"
  by (simp add: tsize_def)

lemma expect_close_runs: "runs b (tsize st) (expect_close c e st)"
  using advance_tsize [of st c] tsize_error [of st] by (auto simp: expect_close_def)

lemma params_end_runs: "runs b (tsize st) (params_end c g n pure es i st)"
  using advance_tsize [of st c] tsize_error [of st] by (auto simp: params_end_def)

text \<open>The fuel a call needs, in terms of what is left to read.\<close>

fun need :: "call \<Rightarrow> nat \<Rightarrow> nat" where
  "need List n = 20 * n + 12"
| "need (List_loop e) n = 20 * n + 11"
| "need (Level k) n = 20 * n + 10 - min k 6"
| "need (Level_loop k e) n = 20 * n + 9 - min k 6"
| "need Factor n = 20 * n + 3"
| "need (Factor_loop g e slot) n = 20 * n + 2"
| "need Power n = 20 * n + 2"
| "need Base n = 20 * n + 1"
| "need (Params g n pure es) m = 20 * m + 1"

text \<open>A call is made before a token that may be passed, where it passes one unconditionally.\<close>

fun may_start :: "call \<Rightarrow> token \<Rightarrow> bool" where
  "may_start (Params g n pure es) t \<longleftrightarrow> t \<notin> {TOK_END, TOK_ERROR}"
| "may_start _ t \<longleftrightarrow> True"

lemma parse_runs: "may_start a (fst st) \<Longrightarrow> runs (need a (tsize st) \<le> f) (tsize st) (parse f c d a st)"
proof (induction f arbitrary: d a st)
  case 0
  show ?case by (cases a) (auto simp: runs_def)
next
  case (Suc f)
  have call: "runs b m (parse f c d' a' st')" if "may_start a' (fst st')" "b \<Longrightarrow> need a' (tsize st') \<le> f" "tsize st' \<le> m" for b d' a' st' m
    by (rule runs_mono [OF Suc.IH]) (use that in auto)
  have adv: "tsize (advance c st') < tsize st'" if "fst st' \<notin> {TOK_END, TOK_ERROR}" for st'
    by (rule advance_tsize [OF that])
  show ?case
  proof (cases a)
    case List
    then show ?thesis by (auto intro!: runs_bind [where n = "tsize st"] call)
  next
    case (List_loop e)
    show ?thesis
    proof (cases "fst st = TOK_SEP")
      case True
      then show ?thesis using List_loop adv [of st] 
        by (auto intro!: runs_bind [where n = "tsize (advance c st)"] call)
    qed (simp add: List_loop)
  next
    case (Level k)
    then show ?thesis by (auto intro!: runs_bind [where n = "tsize st"] call simp: min_def)
  next
    case (Level_loop k e)
    show ?thesis
    proof (cases "\<exists>g. fst st = TOK_INFIX g \<and> level_op k g")
      case True
      then show ?thesis using Level_loop adv [of st]
        by (auto intro!: runs_bind [where n = "tsize (advance c st)"] call simp: min_def)
    next
      case False
      then show ?thesis using Level_loop by (auto split: token.splits)
    qed
  next
    case Factor
    then show ?thesis by (auto intro!: runs_bind [where n = "tsize st"] call split: prod.splits)
  next
    case (Factor_loop g e slot)
    show ?thesis
    proof (cases "fst st = TOK_INFIX (Libm ''pow'')")
      case True
      then show ?thesis using Factor_loop adv [of st]
        by (auto intro!: runs_bind [where n = "tsize (advance c st)"] call simp: Let_def split: prod.splits)
    qed (simp add: Factor_loop)
  next
    case Power
    obtain sg st1 where s: "signs c 1 st = (sg, st1)" by (cases "signs c 1 st") blast
    obtain lg st2 where n: "nots c 0 st1 = (lg, st2)" by (cases "nots c 0 st1") blast
    have "tsize st2 \<le> tsize st" using signs_tsize [OF s] nots_tsize [OF n] by simp
    then show ?thesis using Power s n by (auto intro!: runs_bind [where n = "tsize st"] call)
  next
    case (Params g n pure es)
    show ?thesis
    proof (cases "n \<le> length es")
      case False
      have dec: "tsize (advance c st) < tsize st" using Suc.prems Params by (intro adv) simp
      have "runs (need a (tsize st) \<le> Suc f) (tsize st)
          (if fst st1 \<noteq> TOK_SEP then params_end c g n pure (es @ [e]) (length es) st1
           else parse f c d (Params g n pure (es @ [e])) st1)"
        if "tsize st1 \<le> tsize (advance c st)" for e st1
        using that dec params_end_runs [of True st1]
        by (auto intro!: call runs_mono [OF params_end_runs] simp: Params)
      then show ?thesis using False dec
        by (auto simp: Params intro!: runs_bind [where n = "tsize (advance c st)"] call)
    qed (simp add: Params params_end_runs)
  next
    case Base
    note t = tsize_error [of st]
    show ?thesis
    proof (cases "TE_MAX_DEPTH \<le> d")
      case False
      show ?thesis
      proof (cases "fst st")
        case (TOK_FUNCTION g n pure)
        define st1 where "st1 = advance c st"
        have s1: "tsize st1 < tsize st" using TOK_FUNCTION by (auto simp: st1_def intro: adv)
        have "runs (need a (tsize st) \<le> Suc f) (tsize st) (if fst st1 = TOK_OPEN
            then expect_close c (Fun g pure []) (advance c st1) else Parsed (Fun g pure []) st1)"
          using s1 adv [of st1] by (auto intro!: runs_mono [OF expect_close_runs])
        moreover have "runs (need a (tsize st) \<le> Suc f) (tsize st)
            (parsed_bind (parse f c (d + 1) Power st1) (\<lambda>e. Parsed (Fun g pure [e])))"
          using s1 Base by (auto intro!: runs_bind [where n = "tsize st1"] call)
        moreover have "runs (need a (tsize st) \<le> Suc f) (tsize st) (if fst st1 \<noteq> TOK_OPEN
            then Parsed (Fun g pure []) (TOK_ERROR, snd st1) else parse f c (d + 1) (Params g n pure []) st1)"
          using s1 Base tsize_error [of st1] by (auto intro!: call)
        ultimately show ?thesis using False TOK_FUNCTION Base
          by (simp add: Let_def st1_def [symmetric])
      next
        case TOK_OPEN
        then show ?thesis using False Base adv [of st]
          by (auto intro!: runs_bind [where n = "tsize (advance c st)"] call runs_mono [OF expect_close_runs])
      qed (use False Base t adv [of st] in \<open>auto intro: less_imp_le\<close>)
    qed (simp add: Base)
  qed
qed

text \<open>
  C18. Compiling always ends with an expression or an error position: for every text, however broken,
  the recursive descent finishes (the fuel, linear in the length of the text, is never used up), and
  an error position is that of a character of the text (or 1 for the empty text), or -1 for too deep nesting.
\<close>

theorem compile_terminates:
  "case te_compile c slots expression of
     None \<Rightarrow> False
   | Some (Inl err) \<Rightarrow> err = - 1 \<or> 1 \<le> err \<and> err \<le> int (max 1 (length expression))
   | Some (Inr e) \<Rightarrow> True"
proof -
  let ?st = "next_token c expression"
  let ?r = "parse (20 * length expression + 12) c 0 List ?st"
  have t: "tsize ?st \<le> length expression" by (rule next_token_tsize)
  then have "need List (tsize ?st) \<le> 20 * length expression + 12" by simp
  then have "runs True (tsize ?st) ?r"
    using parse_runs [of List ?st "20 * length expression + 12" c 0] by (simp add: runs_def)
  then have "?r \<noteq> Fuel" and "\<forall>e st. ?r = Parsed e st \<longrightarrow> tsize st \<le> tsize ?st" unfolding runs_def by blast+
  moreover have "length (snd st) \<le> tsize st" for st by (simp add: tsize_def)
  ultimately have "?r \<noteq> Fuel" "\<And>e st. ?r = Parsed e st \<Longrightarrow> length (snd st) \<le> length expression"
    using t by (blast intro: le_trans)+
  then show ?thesis by (cases ?r) (auto simp: te_compile_def Let_def le_max_iff_disj of_nat_max)
qed

subsection \<open>Powers\<close>

text \<open>
  The trees meant by \<open>TE_POW_FROM_RIGHT\<close>, as the comment at its definition in tinyexpr.c and README.uvrgw
  give them: \<open>a^b^c = a^(b^c)\<close> and \<open>-a^b = -(a^b)\<close>. \<open>operands\<close> are the operands \<open>(applied_unary, operand)\<close>
  read after the first one; in the tree each operator is over the whole chain to its right.
\<close>

fun operands :: "nat \<Rightarrow> te_lookup \<Rightarrow> nat \<Rightarrow> tstate \<Rightarrow> (bool \<times> te_expr) list parsed" where
  "operands 0 c d st = Fuel"
| "operands (Suc f) c d st =
     (if fst st = TOK_INFIX (Libm ''pow'')
      then parsed_bind (parse f c d Power (advance c st)) (\<lambda>p st1.
        parsed_bind (operands f c d st1) (\<lambda>ps. Parsed ((applied_unary c (advance c st), p) # ps)))
      else Parsed [] st)"

definition below_unary :: "bool \<Rightarrow> te_expr \<Rightarrow> (te_expr \<Rightarrow> te_expr) \<Rightarrow> te_expr" where
  "below_unary applied e chain = (case e of
     Fun g True [b] \<Rightarrow> if applied then Fun g True [chain b] else chain e | _ \<Rightarrow> chain e)"

fun right_assoc :: "te_expr \<Rightarrow> (bool \<times> te_expr) list \<Rightarrow> te_expr" where
  "right_assoc e [] = e"
| "right_assoc e ((applied, p) # ps) = Fun (Libm ''pow'') True [e, below_unary applied p (\<lambda>b. right_assoc b ps)]"

lemma factor_start_cases:
  assumes "factor_start applied e = (g, e')"
  obtains h where "e = Fun h True [e']" "g = Some h" | "e' = e" "g = None"
  using assms by (auto simp: factor_start_def split: te_expr.splits bool.splits list.splits if_splits)

fun slot_ok :: "te_expr \<Rightarrow> nat list \<Rightarrow> bool" where
  "slot_ok e [] = True"
| "slot_ok (Fun g pure es) (i # slot) = (i < length es \<and> slot_ok (es ! i) slot)"
| "slot_ok e (i # slot) = False"

lemma slot_write_append:
  "slot_ok e slot \<Longrightarrow> slot_write (slot_write e slot x) (slot @ q) y = slot_write e slot (slot_write x q y)"
  "slot_ok e slot \<Longrightarrow> slot_read (slot_write e slot x) (slot @ q) = slot_read x q"
  "slot_ok e slot \<Longrightarrow> slot_ok x q \<Longrightarrow> slot_ok (slot_write e slot x) (slot @ q)"
  by (induction e slot rule: slot_ok.induct) simp_all

lemma power_applied:
  assumes "parse f c d Power st = Parsed p st'" "applied_unary c st"
  obtains g b where "p = Fun g True [b]"
proof -
  obtain sg st1 where sg: "signs c 1 st = (sg, st1)" by (cases "signs c 1 st") blast
  obtain lg st2 where lg: "nots c 0 st1 = (lg, st2)" by (cases "nots c 0 st1") blast
  obtain f' where f: "f = Suc f'" using assms(1) by (cases f) simp_all
  have un: "sg \<noteq> 1 \<or> lg \<noteq> 0" using assms(2) sg lg by (simp add: applied_unary_def)
  obtain b where "p = unary sg lg b"
    using assms(1) sg lg by (cases "parse f' c d Base st2") (auto simp: f)
  then show thesis using un that by (auto simp: unary_def split: if_splits)
qed

text \<open>Inserting at the slot builds the chain where the slot was.\<close>

lemma factor_loop_right_assoc:
  "slot_ok e slot \<Longrightarrow> parse f c d (Factor_loop g e slot) st =
     parsed_bind (operands f c d st) (\<lambda>ps. Parsed (factor_end g (slot_write e slot (right_assoc (slot_read e slot) ps))))"
proof (induction f arbitrary: e slot st)
  case (Suc f)
  have self: "slot_write e slot (slot_read e slot) = e" for e slot
    by (induction e slot rule: slot_read.induct) simp_all
  show ?case
  proof (cases "fst st = TOK_INFIX (Libm ''pow'')")
    case True
    let ?un = "applied_unary c (advance c st)"
    show ?thesis
    proof (cases "parse f c d Power (advance c st)")
      case (Parsed p st1)
      define n where "n = Fun (Libm ''pow'') True [slot_read e slot, p]"
      define q where "q = (if ?un then [1, 0] else [1 :: nat])"
      have ip: "insert_pow ?un p e slot = (slot_write e slot n, slot @ q)"
        by (simp add: insert_pow_def n_def q_def)
      have q: "slot_ok n q \<and> slot_write n q (right_assoc (slot_read n q) ps) = right_assoc (slot_read e slot) ((?un, p) # ps)" for ps
      proof (cases ?un)
        case True
        then obtain h b where "p = Fun h True [b]" using power_applied [OF Parsed] by blast
        then show ?thesis using True by (simp add: n_def q_def below_unary_def)
      next
        case False
        then have "below_unary ?un p chain = chain p" for chain
          by (simp add: below_unary_def split: te_expr.splits bool.splits list.splits)
        then show ?thesis using False by (simp add: n_def q_def)
      qed
      have "parse f c d (Factor_loop g (slot_write e slot n) (slot @ q)) st1 =
          parsed_bind (operands f c d st1) (\<lambda>ps. Parsed (factor_end g (slot_write (slot_write e slot n) (slot @ q)
            (right_assoc (slot_read (slot_write e slot n) (slot @ q)) ps))))"
        by (rule Suc.IH) (use q Suc.prems in \<open>simp add: slot_write_append\<close>)
      also have "\<dots> = parsed_bind (operands f c d st1) (\<lambda>ps. Parsed (factor_end g (slot_write e slot
            (right_assoc (slot_read e slot) ((?un, p) # ps)))))"
        using q by (simp add: slot_write_append [OF Suc.prems])
      finally show ?thesis
        using True Parsed ip by (cases "operands f c d st1") simp_all
    qed (use True in simp_all)
  qed (simp add: self)
qed simp

text \<open>
  C20. Powers group from the right, and bind tighter than a sign or a negation written before them:
  inserting each exponent into the finished tree through the moving slot gives, for every text,
  the tree in which an operator before an operand stands over the whole chain to the right of it. This
  is what the comment at TE_POW_FROM_RIGHT, README.uvrgw and the examples -2^2 = -4 and 2^3^2 = 512 of the
  documentation say; the precedence tables of README.md and doc/eval.md, which put the unary operators
  above ^, say otherwise (\<open>unary_over_power\<close>).
\<close>

theorem factor_is_right_associative:
  "parse (Suc f) c d Factor st =
     parsed_bind (parse f c d Power st) (\<lambda>e st1.
       parsed_bind (operands f c d st1) (\<lambda>ps. Parsed (below_unary (applied_unary c st) e (\<lambda>b. right_assoc b ps))))"
proof (cases "parse f c d Power st")
  case (Parsed e st1)
  obtain g e' where fs: "factor_start (applied_unary c st) e = (g, e')" by fastforce
  have "below_unary (applied_unary c st) e (\<lambda>b. right_assoc b ps) = factor_end g (right_assoc e' ps)" for ps
    using fs by (auto simp: factor_start_def below_unary_def factor_end_def split: te_expr.splits bool.splits list.splits if_splits)
  then show ?thesis using Parsed fs factor_loop_right_assoc [of e' "[]" f c d g st1] by simp
qed simp_all

text \<open>The operators written before a power: \<open>!a^b\<close> is \<open>!(a^b)\<close>, \<open>-a^b\<close> is \<open>-(a^b)\<close>, and \<open>a^b^c\<close> is \<open>a^(b^c)\<close>.\<close>

lemma unary_over_power:
  "let c = \<lparr>tl_env = example_env, tl_vars = [(''a'', Slot 0), (''b'', Slot 1), (''c'', Slot 2)]\<rparr>;
       pow = (\<lambda>x y. Fun (Libm ''pow'') True [x, y])
   in te_compile c [] ''!a^b'' = Some (Inr (Fun Logical_not True [pow (Variable 0) (Variable 1)])) \<and>
      te_compile c [] ''-a^b'' = Some (Inr (Fun Negate True [pow (Variable 0) (Variable 1)])) \<and>
      te_compile c [] ''a^b^c'' = Some (Inr (pow (Variable 0) (pow (Variable 1) (Variable 2))))"
  by code_simp

subsection \<open>What a text has to look like\<close>

text \<open>
  The grammar of the comments of tinyexpr.c, over tokens. \<open>N_level 0\<close> to \<open>N_level 5\<close> are \<open>expr\<close> to \<open>term\<close>
  and \<open>N_level 6\<close> is \<open>factor\<close>; a function of two or more parameters has exactly as many as its arity,
  between brackets.
\<close>

datatype nonterm = N_list | N_level nat | N_power | N_base | N_args nat

inductive derives :: "nonterm \<Rightarrow> token list \<Rightarrow> bool" where
  list_one: "derives (N_level 0) ts \<Longrightarrow> derives N_list ts"
| list_more: "derives N_list ts \<Longrightarrow> derives (N_level 0) us \<Longrightarrow> derives N_list (ts @ TOK_SEP # us)"
| level_one: "k < 6 \<Longrightarrow> derives (N_level (Suc k)) ts \<Longrightarrow> derives (N_level k) ts"
| level_more: "k < 6 \<Longrightarrow> derives (N_level k) ts \<Longrightarrow> level_op k g \<Longrightarrow> derives (N_level (Suc k)) us \<Longrightarrow>
    derives (N_level k) (ts @ TOK_INFIX g # us)"
| factor_one: "derives N_power ts \<Longrightarrow> derives (N_level 6) ts"
| factor_more: "derives (N_level 6) ts \<Longrightarrow> derives N_power us \<Longrightarrow>
    derives (N_level 6) (ts @ TOK_INFIX (Libm ''pow'') # us)"
| power_base: "derives N_base ts \<Longrightarrow> derives N_power ts"
| power_unary: "g \<in> {Add, Sub, Logical_not} \<Longrightarrow> derives N_power ts \<Longrightarrow> derives N_power (TOK_INFIX g # ts)"
| base_number: "derives N_base [TOK_NUMBER v]"
| base_variable: "derives N_base [TOK_VARIABLE i]"
| base_constant: "derives N_base [TOK_FUNCTION g 0 pure]"
| base_constant_call: "derives N_base [TOK_FUNCTION g 0 pure, TOK_OPEN, TOK_CLOSE]"
| base_function: "derives N_power ts \<Longrightarrow> derives N_base (TOK_FUNCTION g 1 pure # ts)"
| base_call: "2 \<le> n \<Longrightarrow> derives (N_args n) ts \<Longrightarrow>
    derives N_base (TOK_FUNCTION g n pure # TOK_OPEN # ts @ [TOK_CLOSE])"
| base_bracket: "derives N_list ts \<Longrightarrow> derives N_base (TOK_OPEN # ts @ [TOK_CLOSE])"
| args_one: "derives (N_level 0) ts \<Longrightarrow> derives (N_args 1) ts"
| args_more: "derives (N_args n) ts \<Longrightarrow> derives (N_level 0) us \<Longrightarrow> derives (N_args (Suc n)) (ts @ TOK_SEP # us)"

text \<open>All tokens of a text, up to its end or the first character that is none.\<close>

function tokens :: "te_lookup \<Rightarrow> tstate \<Rightarrow> token list" where
  "tokens c st = (if fst st \<in> {TOK_END, TOK_ERROR} then [fst st] else fst st # tokens c (advance c st))"
  by pat_completeness auto

termination tokens
  by (relation "measure (\<lambda>(c, st). tsize st)") (auto intro!: advance_tsize)

declare tokens.simps [simp del]

definition sentence :: "te_lookup \<Rightarrow> string \<Rightarrow> bool" where
  "sentence c expression \<longleftrightarrow> (\<exists>ts. derives N_list ts \<and> tokens c (next_token c expression) = ts @ [TOK_END])"

text \<open>The tokens \<open>ts\<close> are read from one state of the parser to another.\<close>

fun consumed :: "te_lookup \<Rightarrow> tstate \<Rightarrow> token list \<Rightarrow> tstate \<Rightarrow> bool" where
  "consumed c st [] st' \<longleftrightarrow> st' = st"
| "consumed c st (t # ts) st' \<longleftrightarrow> t = fst st \<and> consumed c (advance c st) ts st'"

lemma consumed_append: "consumed c st (ts @ us) st' \<longleftrightarrow> (\<exists>st1. consumed c st ts st1 \<and> consumed c st1 us st')"
  by (induction ts arbitrary: st) auto

lemma derives_tokens: "derives n ts \<Longrightarrow> TOK_END \<notin> set ts \<and> TOK_ERROR \<notin> set ts"
  by (induction rule: derives.induct) auto

lemma consumed_tokens:
  "consumed c st ts st' \<Longrightarrow> TOK_END \<notin> set ts \<and> TOK_ERROR \<notin> set ts \<Longrightarrow> tokens c st = ts @ tokens c st'"
  by (induction ts arbitrary: st) (auto simp: tokens.simps [of c "(_, _)"] tokens.simps)

text \<open>What the tokens read by a call are; those of a loop continue what was read before it.\<close>

fun accepts :: "call \<Rightarrow> token list \<Rightarrow> bool" where
  "accepts List ts \<longleftrightarrow> derives N_list ts"
| "accepts (List_loop e) ts \<longleftrightarrow> (\<forall>us. derives N_list us \<longrightarrow> derives N_list (us @ ts))"
| "accepts (Level k) ts \<longleftrightarrow> derives (N_level (min k 6)) ts"
| "accepts (Level_loop k e) ts \<longleftrightarrow> (\<forall>us. derives (N_level k) us \<longrightarrow> derives (N_level k) (us @ ts))"
| "accepts Factor ts \<longleftrightarrow> derives (N_level 6) ts"
| "accepts (Factor_loop g e slot) ts \<longleftrightarrow> (\<forall>us. derives (N_level 6) us \<longrightarrow> derives (N_level 6) (us @ ts))"
| "accepts Power ts \<longleftrightarrow> derives N_power ts"
| "accepts Base ts \<longleftrightarrow> derives N_base ts"
| "accepts (Params g n pure es) ts \<longleftrightarrow>
     (if es = [] then \<exists>us. ts = TOK_OPEN # us @ [TOK_CLOSE] \<and> derives (N_args n) us
      else \<forall>vs. derives (N_args (length es)) vs \<longrightarrow> (\<exists>us. ts = us @ [TOK_CLOSE] \<and> derives (N_args n) (vs @ us)))"

fun called :: "call \<Rightarrow> token \<Rightarrow> bool" where
  "called (Level_loop k e) t \<longleftrightarrow> k < 6 \<and> t \<noteq> TOK_ERROR"
| "called (Params g n pure es) t \<longleftrightarrow> 2 \<le> n \<and> t = (if es = [] then TOK_OPEN else TOK_SEP)"
| "called _ t \<longleftrightarrow> t \<noteq> TOK_ERROR"

lemma parsed_bind_Parsed [simp]:
  "parsed_bind r k = Parsed x st \<longleftrightarrow> (\<exists>y st1. r = Parsed y st1 \<and> k y st1 = Parsed x st)"
  by (cases r) auto

lemma signs_consumed:
  "signs c sg st = (sg', st') \<Longrightarrow>
    \<exists>ts. consumed c st ts st' \<and> set ts \<subseteq> {TOK_INFIX Add, TOK_INFIX Sub, TOK_INFIX Logical_not}"
proof (induction c sg st rule: signs.induct)
  case (1 c sg st)
  show ?case
  proof (cases "fst st = TOK_INFIX Add \<or> fst st = TOK_INFIX Sub")
    case True
    then obtain ts where "consumed c (advance c st) ts st'" "set ts \<subseteq> {TOK_INFIX Add, TOK_INFIX Sub, TOK_INFIX Logical_not}"
      using 1 by (subst (asm) (3) signs.simps) (auto split: if_splits)
    then show ?thesis using True by (intro exI [of _ "fst st # ts"]) auto
  next
    case False
    then show ?thesis using 1(3) by (subst (asm) signs.simps) (auto intro!: exI [of _ "[]"])
  qed
qed

lemma nots_consumed:
  "nots c lg st = (lg', st') \<Longrightarrow>
    \<exists>ts. consumed c st ts st' \<and> set ts \<subseteq> {TOK_INFIX Add, TOK_INFIX Sub, TOK_INFIX Logical_not}"
proof (induction c lg st rule: nots.induct)
  case (1 c lg st)
  show ?case
  proof (cases "fst st = TOK_INFIX Add \<or> fst st = TOK_INFIX Sub \<or> fst st = TOK_INFIX Logical_not")
    case True
    then obtain ts where "consumed c (advance c st) ts st'" "set ts \<subseteq> {TOK_INFIX Add, TOK_INFIX Sub, TOK_INFIX Logical_not}"
      using 1 by (subst (asm) (3) nots.simps) (auto split: if_splits)
    then show ?thesis using True by (intro exI [of _ "fst st # ts"]) auto
  next
    case False
    then show ?thesis using 1(3) by (subst (asm) nots.simps) (auto intro!: exI [of _ "[]"])
  qed
qed

lemma power_prefix:
  "set ts \<subseteq> {TOK_INFIX Add, TOK_INFIX Sub, TOK_INFIX Logical_not} \<Longrightarrow> derives N_power us \<Longrightarrow> derives N_power (ts @ us)"
  by (induction ts) (auto intro: power_unary)

lemma signs_error: "fst st = TOK_ERROR \<Longrightarrow> signs c sg st = (sg, st)" "fst st = TOK_ERROR \<Longrightarrow> nots c lg st = (lg, st)"
  by (simp_all add: signs.simps [of c sg st] nots.simps [of c lg st])

text \<open>After an error nothing is read any more.\<close>

lemma parse_error:
  assumes "parse f c d a st = Parsed e st'" "fst st = TOK_ERROR" "\<forall>g n pure es. a \<noteq> Params g n pure es"
  shows "fst st' = TOK_ERROR"
  using assms
proof (induction f arbitrary: d a st e st')
  case (Suc f)
  note p = parsed_bind_Parsed
  have ih: "fst st2 = TOK_ERROR" if "parse f c d' a' st1 = Parsed e' st2" "fst st1 = TOK_ERROR"
      "\<forall>g n pure es. a' \<noteq> Params g n pure es" for d' a' st1 st2 e'
    by (rule Suc.IH [OF that])
  show ?case
  proof (cases a)
    case List
    then obtain x st1 where "parse f c d (Level 0) st = Parsed x st1" "parse f c d (List_loop x) st1 = Parsed e st'"
      using Suc.prems(1) by (auto simp: p)
    then show ?thesis using ih Suc.prems(2) by blast
  next
    case (Level k)
    show ?thesis
    proof (cases "6 \<le> k")
      case True
      then show ?thesis using Suc.prems Level ih by fastforce
    next
      case False
      then obtain x st1 where "parse f c d (Level (k + 1)) st = Parsed x st1" "parse f c d (Level_loop k x) st1 = Parsed e st'"
        using Suc.prems(1) Level by (auto simp: p)
      then show ?thesis using ih Suc.prems(2) by blast
    qed
  next
    case Factor
    then obtain x st1 where one: "parse f c d Power st = Parsed x st1"
      "(let (g, x') = factor_start (applied_unary c st) x in parse f c d (Factor_loop g x' []) st1) = Parsed e st'"
      using Suc.prems(1) by (auto simp: p)
    obtain g x' where "factor_start (applied_unary c st) x = (g, x')" by fastforce
    then have "parse f c d (Factor_loop g x' []) st1 = Parsed e st'" using one(2) by simp
    with one(1) show ?thesis using ih Suc.prems(2) by blast
  next
    case Power
    then obtain b where "parse f c d Base st = Parsed b st'" using Suc.prems(1,2) by (auto simp: p signs_error)
    then show ?thesis using ih Suc.prems(2) by blast
  next
    case Base
    then show ?thesis using Suc.prems by (auto split: if_splits)
  qed (use Suc.prems in auto)
qed simp

lemma params_end_consumed:
  "params_end c g n pure es i st = Parsed e st' \<Longrightarrow> fst st' \<noteq> TOK_ERROR \<Longrightarrow>
    i = n - 1 \<and> consumed c st [TOK_CLOSE] st'"
  by (auto simp: params_end_def split: if_splits)

lemma expect_close_consumed:
  "expect_close c x st = Parsed e st' \<Longrightarrow> fst st' \<noteq> TOK_ERROR \<Longrightarrow> consumed c st [TOK_CLOSE] st'"
  by (auto simp: expect_close_def split: if_splits)

text \<open>A call followed by a loop.\<close>

lemma consumed_trans: "consumed c st ts st1 \<Longrightarrow> consumed c st1 us st' \<Longrightarrow> consumed c st (ts @ us) st'"
  unfolding consumed_append by blast

lemma consumed_next: "consumed c (advance c st) ts st' \<Longrightarrow> fst st = t \<Longrightarrow> consumed c st (t # ts) st'"
  by simp

text \<open>Whatever is parsed without an error is derived by the grammar: one call after the other.\<close>

definition accepted :: "te_lookup \<Rightarrow> nat \<Rightarrow> bool" where
  "accepted c f \<longleftrightarrow> (\<forall>d a st e st'. parse f c d a st = Parsed e st' \<and> fst st' \<noteq> TOK_ERROR \<and> called a (fst st) \<longrightarrow>
     (\<exists>ts. consumed c st ts st' \<and> accepts a ts))"

lemma accepted_rec:
  "accepted c f \<Longrightarrow> parse f c d a st = Parsed e st' \<Longrightarrow> fst st' \<noteq> TOK_ERROR \<Longrightarrow> called a (fst st) \<Longrightarrow>
    \<exists>ts. consumed c st ts st' \<and> accepts a ts"
  unfolding accepted_def by blast

lemma accepted_call:
  assumes "accepted c f" "parse f c d a st = Parsed e st'" "fst st' \<noteq> TOK_ERROR" "fst st \<noteq> TOK_ERROR \<Longrightarrow> called a (fst st)"
    and "\<forall>g n pure es. a \<noteq> Params g n pure es"
  shows "\<exists>ts. consumed c st ts st' \<and> accepts a ts"
  using assms(1-4) parse_error [OF assms(2) _ assms(5)] unfolding accepted_def by blast

lemma no_error:
  assumes "parse f c d a st = Parsed e st'" "fst st' \<noteq> TOK_ERROR" "\<forall>g n pure es. a \<noteq> Params g n pure es"
  shows "fst st \<noteq> TOK_ERROR"
  using parse_error [OF assms(1) _ assms(3)] assms(2) by blast

lemma accept_list:
  assumes ih: "accepted c f" and pr: "parse (Suc f) c d List st = Parsed e st'" and fin: "fst st' \<noteq> TOK_ERROR"
    and start: "called List (fst st)"
  shows "\<exists>ts. consumed c st ts st' \<and> accepts List ts"
proof -
  note p = parsed_bind_Parsed
  then obtain x st1 where c: "parse f c d (Level 0) st = Parsed x st1" "parse f c d (List_loop x) st1 = Parsed e st'"
    using pr by (auto simp: p)
  obtain us where u: "consumed c st1 us st'" "accepts (List_loop x) us" using accepted_call [OF ih c(2) fin] by auto
  obtain ts where t: "consumed c st ts st1" "derives (N_level 0) ts" using accepted_call [OF ih c(1) no_error [OF c(2) fin]] by auto
  show ?thesis using consumed_trans [OF t(1) u(1)] u(2) list_one [OF t(2)] by auto
qed

lemma accept_list_loop:
  assumes ih: "accepted c f" and pr: "parse (Suc f) c d (List_loop x) st = Parsed e st'" and fin: "fst st' \<noteq> TOK_ERROR"
    and start: "called (List_loop x) (fst st)"
  shows "\<exists>ts. consumed c st ts st' \<and> accepts (List_loop x) ts"
proof -
  note p = parsed_bind_Parsed
  show ?thesis
  proof (cases "fst st = TOK_SEP")
    case True
    then obtain y st1 where c: "parse f c d (Level 0) (advance c st) = Parsed y st1"
      "parse f c d (List_loop (Fun Comma True [x, y])) st1 = Parsed e st'"
      using pr by (auto simp: p)
    obtain us where u: "consumed c st1 us st'" "accepts (List_loop (Fun Comma True [x, y])) us" using accepted_call [OF ih c(2) fin] by auto
    obtain ts where t: "consumed c (advance c st) ts st1" "derives (N_level 0) ts" using accepted_call [OF ih c(1) no_error [OF c(2) fin]] by auto
    have "derives N_list (vs @ (TOK_SEP # ts) @ us)" if "derives N_list vs" for vs
      using u(2) [unfolded accepts.simps, rule_format, OF list_more [OF that t(2)]] by simp
    then show ?thesis using consumed_trans [OF consumed_next [OF t(1) True] u(1)] by (metis accepts.simps(2))
  next
    case False
    then show ?thesis using pr by (intro exI [of _ "[]"]) simp
  qed
qed

lemma accept_level:
  assumes ih: "accepted c f" and pr: "parse (Suc f) c d (Level k) st = Parsed e st'" and fin: "fst st' \<noteq> TOK_ERROR"
    and start: "called (Level k) (fst st)"
  shows "\<exists>ts. consumed c st ts st' \<and> accepts (Level k) ts"
proof -
  note p = parsed_bind_Parsed
  show ?thesis
  proof (cases "6 \<le> k")
    case True
    then have c: "parse f c d Factor st = Parsed e st'" using pr by simp
    then show ?thesis using accepted_call [OF ih c fin] True by auto
  next
    case False
    then obtain x st1 where c: "parse f c d (Level (k + 1)) st = Parsed x st1" "parse f c d (Level_loop k x) st1 = Parsed e st'"
      using pr by (auto simp: p)
    obtain us where u: "consumed c st1 us st'" "accepts (Level_loop k x) us" using accepted_call [OF ih c(2) fin] False by auto
    obtain ts where t: "consumed c st ts st1" "derives (N_level (Suc k)) ts"
      using accepted_call [OF ih c(1) no_error [OF c(2) fin]] False by (auto simp: min_def split: if_splits)
    show ?thesis using consumed_trans [OF t(1) u(1)] u(2) level_one [OF _ t(2)] False by auto
  qed
qed

lemma accept_level_loop:
  assumes ih: "accepted c f" and pr: "parse (Suc f) c d (Level_loop k x) st = Parsed e st'" and fin: "fst st' \<noteq> TOK_ERROR"
    and start: "called (Level_loop k x) (fst st)"
  shows "\<exists>ts. consumed c st ts st' \<and> accepts (Level_loop k x) ts"
proof -
  note p = parsed_bind_Parsed
  show ?thesis
  proof (cases "\<exists>g. fst st = TOK_INFIX g \<and> level_op k g")
    case True
    then obtain g where g: "fst st = TOK_INFIX g" "level_op k g" by blast
    then obtain y st1 where c: "parse f c d (Level (k + 1)) (advance c st) = Parsed y st1"
      "parse f c d (Level_loop k (Fun g True [x, y])) st1 = Parsed e st'"
      using pr by (auto simp: p)
    have k: "k < 6" using start by simp
    obtain us where u: "consumed c st1 us st'" "accepts (Level_loop k (Fun g True [x, y])) us" using accepted_call [OF ih c(2) fin] k by auto
    obtain ts where t: "consumed c (advance c st) ts st1" "derives (N_level (Suc k)) ts"
      using accepted_call [OF ih c(1) no_error [OF c(2) fin]] k by (auto simp: min_def split: if_splits)
    have "derives (N_level k) (vs @ (TOK_INFIX g # ts) @ us)" if "derives (N_level k) vs" for vs
      using u(2) [unfolded accepts.simps, rule_format, OF level_more [OF k that g(2) t(2)]] by simp
    then show ?thesis using consumed_trans [OF consumed_next [OF t(1) g(1)] u(1)] by (metis accepts.simps(4))
  next
    case False
    then have "st' = st" using pr by (auto split: token.splits if_splits)
    then show ?thesis by (intro exI [of _ "[]"]) simp
  qed
qed

lemma accept_factor:
  assumes ih: "accepted c f" and pr: "parse (Suc f) c d Factor st = Parsed e st'" and fin: "fst st' \<noteq> TOK_ERROR"
    and start: "called Factor (fst st)"
  shows "\<exists>ts. consumed c st ts st' \<and> accepts Factor ts"
proof -
  note p = parsed_bind_Parsed
  then obtain x st1 where one: "parse f c d Power st = Parsed x st1"
    "(let (g, x') = factor_start (applied_unary c st) x in parse f c d (Factor_loop g x' []) st1) = Parsed e st'"
    using pr by (auto simp: p)
  obtain g x' where "factor_start (applied_unary c st) x = (g, x')" by fastforce
  with one have c: "parse f c d Power st = Parsed x st1" "parse f c d (Factor_loop g x' []) st1 = Parsed e st'" by simp_all
  obtain us where u: "consumed c st1 us st'" "accepts (Factor_loop g x' []) us" using accepted_call [OF ih c(2) fin] by auto
  obtain ts where t: "consumed c st ts st1" "derives N_power ts" using accepted_call [OF ih c(1) no_error [OF c(2) fin]] by auto
  show ?thesis using consumed_trans [OF t(1) u(1)] u(2) factor_one [OF t(2)] by auto
qed

lemma accept_factor_loop:
  assumes ih: "accepted c f" and pr: "parse (Suc f) c d (Factor_loop h x slot) st = Parsed e st'" and fin: "fst st' \<noteq> TOK_ERROR"
    and start: "called (Factor_loop h x slot) (fst st)"
  shows "\<exists>ts. consumed c st ts st' \<and> accepts (Factor_loop h x slot) ts"
proof -
  note p = parsed_bind_Parsed
  show ?thesis
  proof (cases "fst st = TOK_INFIX (Libm ''pow'')")
    case True
    then obtain y st1 where one: "parse f c d Power (advance c st) = Parsed y st1"
      "(let (x', slot') = insert_pow (applied_unary c (advance c st)) y x slot in parse f c d (Factor_loop h x' slot') st1) =
        Parsed e st'"
      using pr by (auto simp: p Let_def [of "advance c st"])
    obtain x' slot' where "insert_pow (applied_unary c (advance c st)) y x slot = (x', slot')" by fastforce
    with one have c: "parse f c d Power (advance c st) = Parsed y st1"
      "parse f c d (Factor_loop h x' slot') st1 = Parsed e st'" by simp_all
    obtain us where u: "consumed c st1 us st'" "accepts (Factor_loop h x' slot') us" using accepted_call [OF ih c(2) fin] by auto
    obtain ts where t: "consumed c (advance c st) ts st1" "derives N_power ts" using accepted_call [OF ih c(1) no_error [OF c(2) fin]] by auto
    have "derives (N_level 6) (vs @ (TOK_INFIX (Libm ''pow'') # ts) @ us)" if "derives (N_level 6) vs" for vs
      using u(2) [unfolded accepts.simps, rule_format, OF factor_more [OF that t(2)]] by simp
    then show ?thesis using consumed_trans [OF consumed_next [OF t(1) True] u(1)] by (metis accepts.simps(6))
  next
    case False
    then show ?thesis using pr by (intro exI [of _ "[]"]) simp
  qed
qed

lemma accept_power:
  assumes ih: "accepted c f" and pr: "parse (Suc f) c d Power st = Parsed e st'" and fin: "fst st' \<noteq> TOK_ERROR"
    and start: "called Power (fst st)"
  shows "\<exists>ts. consumed c st ts st' \<and> accepts Power ts"
proof -
  note p = parsed_bind_Parsed
  obtain sg st1 where s: "signs c 1 st = (sg, st1)" by (cases "signs c 1 st") blast
  obtain lg st2 where n: "nots c 0 st1 = (lg, st2)" by (cases "nots c 0 st1") blast
  obtain b where c: "parse f c d Base st2 = Parsed b st'" using pr s n by (auto simp: p)
  obtain ts where t: "consumed c st2 ts st'" "derives N_base ts" using accepted_call [OF ih c fin] by auto
  obtain us where us: "consumed c st us st1" "set us \<subseteq> {TOK_INFIX Add, TOK_INFIX Sub, TOK_INFIX Logical_not}"
    using signs_consumed [OF s] by blast
  obtain vs where vs: "consumed c st1 vs st2" "set vs \<subseteq> {TOK_INFIX Add, TOK_INFIX Sub, TOK_INFIX Logical_not}"
    using nots_consumed [OF n] by blast
  have u: "consumed c st (us @ vs) st2" "set (us @ vs) \<subseteq> {TOK_INFIX Add, TOK_INFIX Sub, TOK_INFIX Logical_not}"
    using consumed_trans [OF us(1) vs(1)] us(2) vs(2) by simp_all
  show ?thesis using consumed_trans [OF u(1) t(1)] power_prefix [OF u(2) power_base [OF t(2)]]
    by (metis accepts.simps(7))
qed

lemma accept_function:
  assumes ih: "accepted c f" and pr: "parse (Suc f) c d Base st = Parsed e st'" and fin: "fst st' \<noteq> TOK_ERROR"
    and TOK_FUNCTION: "fst st = TOK_FUNCTION g n pure" and d: "d < TE_MAX_DEPTH"
  shows "\<exists>ts. consumed c st ts st' \<and> accepts Base ts"
proof -
  note p = parsed_bind_Parsed
  let ?st1 = "advance c st"
  consider "n = 0" "fst ?st1 = TOK_OPEN" | "n = 0" "fst ?st1 \<noteq> TOK_OPEN" | "n = 1"
    | "2 \<le> n" "fst ?st1 = TOK_OPEN" | "2 \<le> n" "fst ?st1 \<noteq> TOK_OPEN" by linarith
  then show ?thesis
  proof cases
    case 1
    then have "expect_close c (Fun g pure []) (advance c ?st1) = Parsed e st'"
      using pr d TOK_FUNCTION by (simp add: Let_def)
    from expect_close_consumed [OF this fin] show ?thesis
      using 1 TOK_FUNCTION base_constant_call by (intro exI [of _ "[TOK_FUNCTION g 0 pure, TOK_OPEN, TOK_CLOSE]"]) simp
  next
    case 2
    then show ?thesis using pr d TOK_FUNCTION base_constant
      by (intro exI [of _ "[TOK_FUNCTION g 0 pure]"]) (simp add: Let_def)
  next
    case 3
    then obtain x where c: "parse f c (d + 1) Power ?st1 = Parsed x st'"
      using pr d TOK_FUNCTION by (auto simp: p Let_def)
    obtain ts where t: "consumed c ?st1 ts st'" "derives N_power ts" using accepted_call [OF ih c fin] by auto
    show ?thesis using consumed_next [OF t(1) TOK_FUNCTION] base_function [OF t(2)] 3 by (metis accepts.simps(8))
  next
    case 4
    then have c: "parse f c (d + 1) (Params g n pure []) ?st1 = Parsed e st'"
      using pr d TOK_FUNCTION by (simp add: Let_def)
    obtain ts where t: "consumed c ?st1 (TOK_OPEN # ts @ [TOK_CLOSE]) st'" "derives (N_args n) ts"
      using accepted_rec [OF ih c fin] 4 by auto
    show ?thesis using consumed_next [OF t(1) TOK_FUNCTION] base_call [OF 4(1) t(2)] by (metis accepts.simps(8))
  next
    case 5
    then show ?thesis using pr fin d TOK_FUNCTION by (auto simp: Let_def)
  qed
qed

lemma accept_base:
  assumes ih: "accepted c f" and pr: "parse (Suc f) c d Base st = Parsed e st'" and fin: "fst st' \<noteq> TOK_ERROR"
    and start: "called Base (fst st)"
  shows "\<exists>ts. consumed c st ts st' \<and> accepts Base ts"
proof -
  note p = parsed_bind_Parsed
  have d: "d < TE_MAX_DEPTH" using pr by (auto split: if_splits)
  show ?thesis
  proof (cases "fst st")
    case (TOK_NUMBER v)
    then show ?thesis using pr d base_number by (intro exI [of _ "[TOK_NUMBER v]"]) auto
  next
    case (TOK_VARIABLE i)
    then show ?thesis using pr d base_variable by (intro exI [of _ "[TOK_VARIABLE i]"]) auto
  next
    case TOK_OPEN
    then obtain x st1 where c: "parse f c (d + 1) List (advance c st) = Parsed x st1" "expect_close c x st1 = Parsed e st'"
      using pr d by (auto simp: p)
    note e = expect_close_consumed [OF c(2) fin]
    obtain ts where t: "consumed c (advance c st) ts st1" "derives N_list ts" using accepted_call [OF ih c(1)] e by auto
    show ?thesis
      using consumed_next [OF consumed_trans [OF t(1) e] TOK_OPEN] base_bracket [OF t(2)] by (metis accepts.simps(8))
  next
    case (TOK_FUNCTION g n pure)
    then show ?thesis by (rule accept_function [OF ih pr fin _ d])
  qed (use pr fin d in auto)
qed

lemma params_rest:
  assumes ih: "accepted c f" and fin: "fst st' \<noteq> TOK_ERROR" and n: "2 \<le> n"
    and rest: "(if fst st1 \<noteq> TOK_SEP then params_end c g n pure (es @ [x]) (length es) st1
      else parse f c d (Params g n pure (es @ [x])) st1) = Parsed e st'"
  shows "\<exists>us. consumed c st1 us st' \<and>
    (\<forall>vs. derives (N_args (Suc (length es))) vs \<longrightarrow> (\<exists>ws. us = ws @ [TOK_CLOSE] \<and> derives (N_args n) (vs @ ws)))"
proof (cases "fst st1 = TOK_SEP")
  case True
  then have "parse f c d (Params g n pure (es @ [x])) st1 = Parsed e st'" using rest by simp
  from accepted_rec [OF ih this fin] obtain us where "consumed c st1 us st'" "accepts (Params g n pure (es @ [x])) us"
    using True n by auto
  then show ?thesis by (intro exI [of _ us]) simp
next
  case False
  then have "params_end c g n pure (es @ [x]) (length es) st1 = Parsed e st'" using rest by simp
  from params_end_consumed [OF this fin] show ?thesis
    using n by (intro exI [of _ "[TOK_CLOSE]"]) auto
qed

lemma accept_params:
  assumes ih: "accepted c f" and pr: "parse (Suc f) c d (Params g n pure es) st = Parsed e st'" and fin: "fst st' \<noteq> TOK_ERROR"
    and start: "called (Params g n pure es) (fst st)"
  shows "\<exists>ts. consumed c st ts st' \<and> accepts (Params g n pure es) ts"
proof -
  note p = parsed_bind_Parsed
  have n: "2 \<le> n" "fst st = (if es = [] then TOK_OPEN else TOK_SEP)" using start by simp_all
  have less: "length es < n"
  proof (rule ccontr)
    assume "\<not> length es < n"
    then show False using pr fin n by (auto simp: params_end_def split: if_splits)
  qed
  then obtain x st1 where c: "parse f c d (Level 0) (advance c st) = Parsed x st1"
    "(if fst st1 \<noteq> TOK_SEP then params_end c g n pure (es @ [x]) (length es) st1
      else parse f c d (Params g n pure (es @ [x])) st1) = Parsed e st'"
    using pr by (auto simp: p)
  have nerr: "fst st1 \<noteq> TOK_ERROR"
    using c(2) fin by (auto simp: params_end_def split: if_splits)
  obtain ts where t: "consumed c (advance c st) ts st1" "derives (N_level 0) ts" using accepted_call [OF ih c(1) nerr] by auto
  note first = consumed_next [OF t(1) refl]
  have one: "derives (N_args 1) ts" by (rule args_one [OF t(2)])
  have more: "derives (N_args (Suc (length es))) (vs @ TOK_SEP # ts)" if "derives (N_args (length es)) vs" for vs
    by (rule args_more [OF that t(2)])
  obtain us where u: "consumed c st1 us st'"
    "\<forall>vs. derives (N_args (Suc (length es))) vs \<longrightarrow> (\<exists>ws. us = ws @ [TOK_CLOSE] \<and> derives (N_args n) (vs @ ws))"
    using params_rest [OF ih fin n(1) c(2)] by (elim exE conjE)
  note all = consumed_trans [OF first u(1)]
  show ?thesis
  proof (cases "es = []")
    case True
    then obtain ws where "us = ws @ [TOK_CLOSE]" "derives (N_args n) (ts @ ws)" using u(2) one by auto
    then have "consumed c st (TOK_OPEN # (ts @ ws) @ [TOK_CLOSE]) st'" "derives (N_args n) (ts @ ws)"
      using all n(2) True by simp_all
    then show ?thesis using True by (intro exI [of _ "TOK_OPEN # (ts @ ws) @ [TOK_CLOSE]"]) auto
  next
    case False
    have "\<exists>ws. TOK_SEP # ts @ us = ws @ [TOK_CLOSE] \<and> derives (N_args n) (vs @ ws)"
      if "derives (N_args (length es)) vs" for vs
      using u(2) more [OF that] by fastforce
    moreover have "consumed c st (TOK_SEP # ts @ us) st'" using all n(2) False by simp
    ultimately show ?thesis using False by (intro exI [of _ "TOK_SEP # ts @ us"]) auto
  qed
qed

lemma parse_accepts:
  assumes "parse f c d a st = Parsed e st'" "fst st' \<noteq> TOK_ERROR" "called a (fst st)"
  shows "\<exists>ts. consumed c st ts st' \<and> accepts a ts"
proof -
  have "accepted c f"
  proof (induction f)
    case (Suc f)
    have "\<exists>ts. consumed c st ts st' \<and> accepts a ts"
      if "parse (Suc f) c d a st = Parsed e st'" "fst st' \<noteq> TOK_ERROR" "called a (fst st)" for d a st e st'
      using that by (cases a) (blast intro: Suc.IH accept_list accept_list_loop accept_level accept_level_loop accept_factor accept_factor_loop accept_power accept_base accept_params)+
    then show ?case unfolding accepted_def by blast
  qed (simp add: accepted_def)
  then show ?thesis using assms unfolding accepted_def by blast
qed

text \<open>So a text that compiles is a sentence.\<close>

lemma compiled_sentence:
  assumes "te_compile c slots expression = Some (Inr e)"
  shows "sentence c expression"
proof -
  let ?st = "next_token c expression"
  obtain e0 st where p: "parse (20 * length expression + 12) c 0 List ?st = Parsed e0 st" "fst st = TOK_END"
    using assms by (auto simp: te_compile_def Let_def split: parsed.splits if_splits)
  have "fst ?st \<noteq> TOK_ERROR" using parse_error [OF p(1)] p(2) by auto
  then obtain ts where t: "consumed c ?st ts st" "derives N_list ts" using parse_accepts [OF p(1)] p(2) by auto
  have "tokens c ?st = ts @ tokens c st" by (rule consumed_tokens [OF t(1) derives_tokens [OF t(2)]])
  also have "tokens c st = [TOK_END]" using p(2) by (simp add: tokens.simps)
  finally show ?thesis using t(2) by (auto simp: sentence_def)
qed

subsection \<open>What a compiled expression looks like\<close>

definition libm_arity :: "(string \<times> nat) list" where
  "libm_arity =
     [(''fabs'', 1), (''acos'', 1), (''asin'', 1), (''atan'', 1), (''atan2'', 2), (''ceil'', 1), (''cos'', 1),
      (''cosh'', 1), (''exp'', 1), (''floor'', 1), (''log'', 1), (''log10'', 1), (''pow'', 2), (''fmod'', 2),
      (''sin'', 1), (''sinh'', 1), (''sqrt'', 1), (''tan'', 1), (''tanh'', 1)]"

text \<open>The number of parameters of each C function.\<close>

definition arity_ok :: "te_fun \<Rightarrow> nat \<Rightarrow> bool" where
  "arity_ok g n \<longleftrightarrow>
     (case g of
        Libm f \<Rightarrow> map_of libm_arity f = Some n
      | Pi \<Rightarrow> n = 0 | E \<Rightarrow> n = 0
      | Negate \<Rightarrow> n = 1 | Logical_not \<Rightarrow> n = 1 | Logical_notnot \<Rightarrow> n = 1
      | Negate_logical_not \<Rightarrow> n = 1 | Negate_logical_notnot \<Rightarrow> n = 1 | Fac \<Rightarrow> n = 1
      | Fn_if \<Rightarrow> n = 3 | Fn_clamp \<Rightarrow> n = 3 | Fn_hyst \<Rightarrow> n = 4
      | _ \<Rightarrow> n = 2)"

fun wf_expr :: "te_lookup \<Rightarrow> te_expr \<Rightarrow> bool" where
  "wf_expr c (Constant v) \<longleftrightarrow> True"
| "wf_expr c (Variable i) \<longleftrightarrow> Slot i \<in> snd ` set (tl_vars c)"
| "wf_expr c (Fun g pure es) \<longleftrightarrow> pure \<and> arity_ok g (length es) \<and> (\<forall>e \<in> set es. wf_expr c e)"

definition lookup_ok :: "te_lookup \<Rightarrow> bool" where
  "lookup_ok c \<longleftrightarrow> (\<forall>g n pure. Function g n pure \<in> snd ` set (tl_vars c) \<longrightarrow> pure \<and> arity_ok g n)"

fun token_ok :: "te_lookup \<Rightarrow> token \<Rightarrow> bool" where
  "token_ok c (TOK_VARIABLE i) \<longleftrightarrow> Slot i \<in> snd ` set (tl_vars c)"
| "token_ok c (TOK_FUNCTION g n pure) \<longleftrightarrow> pure \<and> arity_ok g n"
| "token_ok c _ \<longleftrightarrow> True"

lemma find_lookup_Some: "find_lookup vars name = Some a \<Longrightarrow> a \<in> snd ` set vars"
  by (induction vars name rule: find_lookup.induct) (auto split: if_splits)

lemma te_search_mem: "0 \<le> lo \<Longrightarrow> hi < int (length tab) \<Longrightarrow> te_search tab name lo hi = Some x \<Longrightarrow> x \<in> snd ` set tab"
proof (induction tab name lo hi rule: te_search.induct)
  case (1 tab name lo hi)
  define i where "i = lo + (hi - lo) div 2"
  have nl: "\<not> hi < lo" using 1(5) by (subst (asm) te_search.simps) (auto split: if_splits)
  then have i: "lo \<le> i" "i \<le> hi" "nat i < length tab" using 1(3,4) by (auto simp: i_def)
  note ih = 1(1,2) [OF nl i_def refl]
  show ?case
    using 1(3-5) nl ih i by (subst (asm) te_search.simps) (auto simp: i_def [symmetric] Let_def split: if_splits)
qed

lemma find_builtin_arity: "find_builtin name = Some (g, n) \<Longrightarrow> arity_ok g n"
  using te_search_mem [of 0 "int (length te_functions) - 1" te_functions name "(g, n)"]
  by (auto simp: find_builtin_def te_functions_def arity_ok_def libm_arity_def)

lemma name_token_ok:
  assumes "lookup_ok c"
  shows "token_ok c (name_token c name)"
proof (cases "find_lookup (tl_vars c) name")
  case None
  then show ?thesis using find_builtin_arity [of name] by (auto simp: name_token_def split: option.splits)
next
  case (Some a)
  note m = find_lookup_Some [OF Some]
  show ?thesis
  proof (cases a)
    case (Slot i)
    then show ?thesis using Some m by (simp add: name_token_def)
  next
    case (Function g n pure)
    then have "pure \<and> arity_ok g n" using assms m unfolding lookup_ok_def by blast
    then show ?thesis using Some Function by (simp add: name_token_def)
  qed
qed

lemma parse_number_ok: "token_ok c (fst (parse_number m s))"
  by (auto simp: parse_number_def Let_def split: prod.splits if_splits)

lemma op_token_ok: "token_ok c (fst (op_token x xs))"
  by (simp add: op_token_def Let_def)

lemma next_token_ok: "lookup_ok c \<Longrightarrow> token_ok c (fst (next_token c s))"
  by (induction c s rule: next_token.induct) (simp_all add: name_token_ok parse_number_ok op_token_ok)

lemma advance_ok: "lookup_ok c \<Longrightarrow> token_ok c (fst (advance c st))"
  by (simp add: advance_def next_token_ok)

lemma level_op_arity: "level_op k g \<Longrightarrow> arity_ok g 2"
  by (auto simp: level_op_def arity_ok_def libm_arity_def split: if_splits)

text \<open>A parse that gives a well-formed expression unless it ends at an error.\<close>

definition gives :: "te_lookup \<Rightarrow> te_expr parsed \<Rightarrow> bool" where
  "gives c r \<longleftrightarrow> (\<forall>e st. r = Parsed e st \<longrightarrow> token_ok c (fst st) \<and> (fst st \<noteq> TOK_ERROR \<longrightarrow> wf_expr c e))"

lemma gives_simps [simp]:
  "gives c Fuel" "gives c Null"
  "gives c (Parsed e st) \<longleftrightarrow> token_ok c (fst st) \<and> (fst st \<noteq> TOK_ERROR \<longrightarrow> wf_expr c e)"
  by (simp_all add: gives_def) (cases st; auto)

lemma gives_bind:
  assumes "gives c r" "\<And>e st. token_ok c (fst st) \<Longrightarrow> (fst st \<noteq> TOK_ERROR \<Longrightarrow> wf_expr c e) \<Longrightarrow> gives c (k e st)"
  shows "gives c (parsed_bind r k)"
  using assms by (cases r) simp_all

fun call_ok :: "te_lookup \<Rightarrow> call \<Rightarrow> token \<Rightarrow> bool" where
  "call_ok c (List_loop e) t \<longleftrightarrow> (t \<noteq> TOK_ERROR \<longrightarrow> wf_expr c e)"
| "call_ok c (Level_loop k e) t \<longleftrightarrow> (t \<noteq> TOK_ERROR \<longrightarrow> wf_expr c e)"
| "call_ok c (Factor_loop g e slot) t \<longleftrightarrow> (t \<noteq> TOK_ERROR \<longrightarrow> wf_expr c e \<and> (\<forall>h. g = Some h \<longrightarrow> arity_ok h 1))"
| "call_ok c (Params g n pure es) t \<longleftrightarrow>
     pure \<and> arity_ok g n \<and> 0 < n \<and> (\<forall>e \<in> set es. wf_expr c e) \<and> t \<in> {TOK_OPEN, TOK_SEP}"
| "call_ok c _ t \<longleftrightarrow> True"

lemma signs_ok: "lookup_ok c \<Longrightarrow> token_ok c (fst st) \<Longrightarrow> token_ok c (fst (snd (signs c sg st)))"
proof (induction c sg st rule: signs.induct)
  case (1 c sg st)
  then show ?case using advance_ok [OF 1(3), of st] by (subst signs.simps) (auto split: if_splits)
qed

lemma nots_ok: "lookup_ok c \<Longrightarrow> token_ok c (fst st) \<Longrightarrow> token_ok c (fst (snd (nots c lg st)))"
proof (induction c lg st rule: nots.induct)
  case (1 c lg st)
  then show ?case using advance_ok [OF 1(3), of st] by (subst nots.simps) (auto split: if_splits)
qed

lemma unary_wf: "wf_expr c b \<Longrightarrow> wf_expr c (unary sg lg b)"
  by (auto simp: unary_def arity_ok_def)

lemma slot_read_wf: "wf_expr c e \<Longrightarrow> wf_expr c (slot_read e slot)"
  by (induction e slot rule: slot_read.induct) auto

lemma slot_write_wf: "wf_expr c e \<Longrightarrow> wf_expr c x \<Longrightarrow> wf_expr c (slot_write e slot x)"
  by (induction e slot x rule: slot_write.induct) (auto dest!: set_update_subset_insert [THEN subsetD])

lemma insert_pow_wf:
  "insert_pow un p e slot = (e', slot') \<Longrightarrow> wf_expr c e \<Longrightarrow> wf_expr c p \<Longrightarrow> wf_expr c e'"
proof -
  assume a: "insert_pow un p e slot = (e', slot')" "wf_expr c e" "wf_expr c p"
  have "wf_expr c (Fun (Libm ''pow'') True [slot_read e slot, p])"
    using a(2,3) slot_read_wf [OF a(2)] by (simp add: arity_ok_def libm_arity_def)
  then show "wf_expr c e'" using a(1,2) by (auto simp: insert_pow_def intro: slot_write_wf)
qed

lemma factor_start_wf:
  "factor_start applied e = (g, e') \<Longrightarrow> wf_expr c e \<Longrightarrow> wf_expr c e' \<and> (\<forall>h. g = Some h \<longrightarrow> arity_ok h 1)"
  by (erule factor_start_cases) auto

lemma factor_end_wf: "wf_expr c e \<Longrightarrow> \<forall>h. g = Some h \<longrightarrow> arity_ok h 1 \<Longrightarrow> wf_expr c (factor_end g e)"
  by (auto simp: factor_end_def split: option.splits)

lemma expect_close_gives:
  "lookup_ok c \<Longrightarrow> (fst st \<noteq> TOK_ERROR \<Longrightarrow> wf_expr c e) \<Longrightarrow> gives c (expect_close c e st)"
  by (auto simp: expect_close_def advance_ok)

lemma params_end_gives:
  assumes "lookup_ok c" "pure" "arity_ok g n" "0 < n" "i = length es - 1" "es \<noteq> []" "fst st \<noteq> TOK_ERROR \<Longrightarrow> \<forall>e \<in> set es. wf_expr c e"
  shows "gives c (params_end c g n pure es i st)"
proof (cases "fst st = TOK_CLOSE \<and> i = n - 1")
  case True
  then have "length es = n" using assms(4-6) by (cases es) auto
  then show ?thesis using True assms advance_ok by (simp add: params_end_def)
qed (auto simp: params_end_def)

lemma parse_gives:
  "lookup_ok c \<Longrightarrow> token_ok c (fst st) \<Longrightarrow> call_ok c a (fst st) \<Longrightarrow> gives c (parse f c d a st)"
proof (induction f arbitrary: d a st)
  case (Suc f)
  note lk = Suc.prems(1)
  note adv = advance_ok [OF lk]
  have call: "gives c (parse f c d' a' st')" if "token_ok c (fst st')" "call_ok c a' (fst st')" for d' a' st'
    by (rule Suc.IH [OF lk that])
  show ?case
  proof (cases a)
    case List
    then show ?thesis using Suc.prems by (auto intro!: gives_bind call)
  next
    case (List_loop e)
    have two: "arity_ok Comma 2" by (simp add: arity_ok_def)
    show ?thesis using Suc.prems List_loop adv [of st] two by (auto intro!: gives_bind call simp: numeral_2_eq_2)
  next
    case (Level k)
    then show ?thesis using Suc.prems by (auto intro!: gives_bind call)
  next
    case (Level_loop k e)
    show ?thesis
    proof (cases "\<exists>g. fst st = TOK_INFIX g \<and> level_op k g")
      case True
      then show ?thesis using Suc.prems Level_loop adv [of st] level_op_arity
        by (auto intro!: gives_bind call simp: numeral_2_eq_2)
    next
      case False
      then show ?thesis using Level_loop Suc.prems by (auto split: token.splits)
    qed
  next
    case Factor
    have "gives c (let (g, e') = factor_start (applied_unary c st) e in parse f c d (Factor_loop g e' []) st')"
      if "token_ok c (fst st')" "fst st' \<noteq> TOK_ERROR \<Longrightarrow> wf_expr c e" for e st'
    proof -
      obtain g e' where fs: "factor_start (applied_unary c st) e = (g, e')" by fastforce
      have "call_ok c (Factor_loop g e' []) (fst st')" using that(2) factor_start_wf [OF fs] by auto
      then show ?thesis using call [OF that(1)] by (simp add: fs)
    qed
    then show ?thesis using Suc.prems Factor by (auto intro!: gives_bind call)
  next
    case (Factor_loop g e slot)
    show ?thesis
    proof (cases "fst st = TOK_INFIX (Libm ''pow'')")
      case True
      then have e: "wf_expr c e" "\<forall>h. g = Some h \<longrightarrow> arity_ok h 1" using Suc.prems(3) Factor_loop by auto
      have "gives c (let (e', slot') = insert_pow un p e slot in parse f c d (Factor_loop g e' slot') st')"
        if "token_ok c (fst st')" "fst st' \<noteq> TOK_ERROR \<Longrightarrow> wf_expr c p" for p st' un
      proof -
        obtain e' slot' where ip: "insert_pow un p e slot = (e', slot')" by fastforce
        have "call_ok c (Factor_loop g e' slot') (fst st')" using that(2) insert_pow_wf [OF ip e(1)] e(2) by auto
        then show ?thesis using call [OF that(1)] by (simp add: ip)
      qed
      then show ?thesis using Factor_loop True adv [of st] by (auto intro!: gives_bind call simp: Let_def)
    next
      case False
      then show ?thesis using Factor_loop Suc.prems by (auto intro: factor_end_wf)
    qed
  next
    case Power
    obtain sg st1 where s: "signs c 1 st = (sg, st1)" by (cases "signs c 1 st") blast
    obtain lg st2 where n: "nots c 0 st1 = (lg, st2)" by (cases "nots c 0 st1") blast
    have "token_ok c (fst st2)" using signs_ok [OF lk Suc.prems(2), of 1] nots_ok [OF lk, of st1 0] s n by simp
    then show ?thesis using Power s n by (auto intro!: gives_bind call unary_wf)
  next
    case (Params g n pure es)
    then have o: "pure" "arity_ok g n" "0 < n" "\<forall>e \<in> set es. wf_expr c e" "fst st \<in> {TOK_OPEN, TOK_SEP}"
      using Suc.prems by simp_all
    show ?thesis
    proof (cases "n \<le> length es")
      case True
      then show ?thesis using Params o(5) by (auto simp: params_end_def)
    next
      case False
      then show ?thesis using Params o adv [of st] lk
        by (auto intro!: gives_bind call params_end_gives)
    qed
  next
    case Base
    show ?thesis
    proof (cases "TE_MAX_DEPTH \<le> d")
      case False
      show ?thesis
      proof (cases "fst st")
        case (TOK_FUNCTION g n pure)
        then have o: "pure" "arity_ok g n" using Suc.prems(2) by simp_all
        then show ?thesis using False Base TOK_FUNCTION adv [of st] adv [of "advance c st"] lk
          by (auto intro!: gives_bind call expect_close_gives simp: Let_def)
      next
        case TOK_OPEN
        then show ?thesis using False Base adv [of st] lk
          by (auto intro!: gives_bind call expect_close_gives)
      qed (use False Base adv [of st] Suc.prems(2) in auto)
    qed (simp add: Base)
  qed
qed simp

lemma wf_pure: "wf_expr c e \<Longrightarrow> all_pure e"
  by (induction e) auto

lemma optimize_wf: "wf_expr c e \<Longrightarrow> wf_expr c (optimize m slots e)"
  by (induction e) (auto simp: Let_def)

text \<open>
  C19. A compiled expression is well-formed: if every name of the lookup list stands for a slot or for
  a pure function with its own arity, each function node of the result has exactly the number of
  parameters the C function is called with, each variable is a slot of the list, and all is
  folded that can be. And only a sentence of the grammar compiles: a text with a missing or extra bracket,
  comma or parameter, or with anything behind its end, has no result.
\<close>

theorem compiled_well_formed:
  assumes "te_compile c slots expression = Some (Inr e)" "lookup_ok c"
  shows "wf_expr c e \<and> folded e \<and> sentence c expression"
proof -
  obtain e0 st where p: "parse (20 * length expression + 12) c 0 List (next_token c expression) = Parsed e0 st"
    "fst st = TOK_END" "e = optimize (tl_env c) slots e0"
    using assms(1) by (auto simp: te_compile_def Let_def split: parsed.splits if_splits)
  have "gives c (Parsed e0 st)"
    using parse_gives [OF assms(2) next_token_ok [OF assms(2)], of List expression "20 * length expression + 12" 0]
    by (simp add: p(1))
  then have "wf_expr c e0" using p(2) by simp
  then show ?thesis using p(3) compiled_sentence [OF assms(1)] by (simp add: optimize_wf optimize_folded wf_pure)
qed

definition example_lookup :: te_lookup where
  "example_lookup = \<lparr>tl_env = example_env,
     tl_vars = [(''dt'', Slot 0), (''t_in'', Slot 1), (''on'', Slot 2), (''hyst'', Function Fn_hyst 4 True)]\<rparr>"

theorem compiled_well_formed_witness:
  "let r = te_compile example_lookup [] ''hyst(on, t_in, 60, 5*11)'' in
     r \<noteq> None \<and> wf_expr example_lookup (projr (the r)) \<and> folded (projr (the r)) \<and>
     reads (projr (the r)) = [2, 1] \<and> sentence example_lookup ''hyst(on, t_in, 60, 5*11)''"
proof -
  let ?r = "te_compile example_lookup [] ''hyst(on, t_in, 60, 5*11)''"
  have e: "?r \<noteq> None \<and> \<not> isl (the ?r) \<and> reads (projr (the ?r)) = [2, 1]"
    by code_simp
  then have "?r = Some (Inr (projr (the ?r)))" by (cases "the ?r") auto
  then have "wf_expr example_lookup (projr (the ?r)) \<and> folded (projr (the ?r)) \<and>
      sentence example_lookup ''hyst(on, t_in, 60, 5*11)''"
    by (rule compiled_well_formed) (auto simp: lookup_ok_def example_lookup_def arity_ok_def)
  then show ?thesis using e by simp
qed

end
