(* ===== verification/Eval_Config.thy ===== *)
theory Eval_Config
  imports Dispatch Te_Parse
begin

text \<open>
  Calculated values, configuration (\<open>eval.c\<close>): the sections, compiling the expressions, the
  dependencies of the values (\<open>walk\<close>, \<open>close_inputs\<close>), the triggers, and the search for trigger
  cycles. A pointer to a dispatcher is its index in the list of dispatchers, the slots of an
  eval are the list \<open>el_slots\<close>: \<open>dt\<close>, the own values, one per dispatcher. Running out of memory is not
  modelled.
\<close>

subsection \<open>Data\<close>

record eval_val =
  ev_name :: string
  ev_local :: bool
  ev_init_value :: dbl
  ev_expr_str :: string
  ev_expr :: te_expr
  ev_slot :: nat
  ev_disp :: "nat option"
  ev_ins :: "nat list"
  ev_refs :: "nat list"
  ev_valid :: bool
  ev_has_last :: bool
  ev_last_ts :: ticks
  ev_not_finite :: bool

record eval_in =
  ei_disp :: nat
  ei_slot :: nat
  ei_valid :: bool

record eval =
  el_name :: string
  el_period :: int
  el_values :: "eval_val list"
  el_ins :: "eval_in list"
  el_triggers :: "nat list"
  el_explicit_triggers :: bool
  el_slots :: "dbl list"
  el_pending :: bool
  el_next :: ticks

record eval_val_cfg =
  evc_title :: string
  evc_expr :: "string option"
  evc_local :: bool
  evc_init_value :: dbl

record eval_cfg =
  ec_title :: string
  ec_period :: "int option" \<comment> \<open>\<open>None\<close>: not given\<close>
  ec_triggers :: "string list"
  ec_values :: "eval_val_cfg list"

definition eval_val_opts :: "string \<Rightarrow> eval_val_cfg" where
  "eval_val_opts title = \<lparr>evc_title = title, evc_expr = None, evc_local = False, evc_init_value = DFin 0\<rparr>"

definition eval_opts :: "string \<Rightarrow> eval_cfg" where
  "eval_opts title = \<lparr>ec_title = title, ec_period = None, ec_triggers = [], ec_values = []\<rparr>"

datatype compile_msg = Compile_failed | Unknown_name string nat | Syntax_error int

datatype eval_error =
    PeriodInvalid | PeriodAndTriggers | NoValueGiven | ValueNameInvalid string | ValueNameReserved string
  | ExprNotGiven string | EvalInitInvalid string | LocalUsedOutside string | CompileError string compile_msg
  | NothingRead | TriggerOwnValue string | TriggerUnknown string | TriggerTwice string
  | TriggerCycle "nat list" | EvalConf conf_error

subsection \<open>Names\<close>

text \<open>\<open>functions\<close> of eval.c.\<close>

definition eval_functions :: "(string \<times> te_address) list" where
  "eval_functions =
     [(''if'', Function Fn_if 3 True), (''min'', Function Fn_min 2 True), (''max'', Function Fn_max 2 True),
      (''clamp'', Function Fn_clamp 3 True), (''hyst'', Function Fn_hyst 4 True)]"

definition expr_name :: "string \<Rightarrow> bool" where \<comment> \<open>\<open>valid_name\<close>\<close>
  "expr_name name \<longleftrightarrow> (case name of [] \<Rightarrow> False | c # cs \<Rightarrow> c_isalpha c \<and> list_all ident_char cs)"

definition is_function :: "string \<Rightarrow> bool" where
  "is_function name \<longleftrightarrow> te_is_builtin name \<or> list_ex (\<lambda>(f, a). f = name) eval_functions"

fun find_value :: "eval_val list \<Rightarrow> string \<Rightarrow> nat option" where
  "find_value [] name = None"
| "find_value (v # vs) name = (if ev_name v = name then Some 0 else map_option Suc (find_value vs name))"

subsection \<open>First pass: the sections\<close>

definition eval_value_check :: "eval_val_cfg \<Rightarrow> eval_error option" where
  "eval_value_check cfg =
     (let name = evc_title cfg in
      if \<not> expr_name name then Some (ValueNameInvalid name)
      else if name = ''dt'' \<or> is_function name then Some (ValueNameReserved name)
      else if evc_expr cfg = None then Some (ExprNotGiven name)
      else if \<not> isfinite (evc_init_value cfg) then Some (EvalInitInvalid name)
      else None)"

definition eval_value_configure ::
  "string \<Rightarrow> nat \<Rightarrow> eval_val_cfg \<Rightarrow> nat \<Rightarrow> dnode list \<Rightarrow> eval_error + eval_val \<times> dnode list" where
  "eval_value_configure ename self cfg vi ds =
     (let v = \<lparr>ev_name = evc_title cfg, ev_local = evc_local cfg, ev_init_value = evc_init_value cfg,
               ev_expr_str = (case evc_expr cfg of Some s \<Rightarrow> s | None \<Rightarrow> []), ev_expr = Constant DNaN, ev_slot = 0,
               ev_disp = None, ev_ins = [], ev_refs = [], ev_valid = False, ev_has_last = False,
               ev_last_ts = 0, ev_not_finite = False\<rparr>
      in case eval_value_check cfg of
           Some e \<Rightarrow> Inl e
         | None \<Rightarrow>
             if evc_local cfg then Inr (v, ds)
             else let (ds1, d) = uvrgw_conf_get_dispatcher (evc_title cfg) False ds in
               (case uvrgw_conf_set_producer ''eval'' ename (Some (EvalRef self)) False (evc_init_value cfg) 0 (ds1 ! d) of
                  Inl e \<Rightarrow> Inl (EvalConf e)
                | Inr dp \<Rightarrow> Inr (v\<lparr>ev_disp := Some d\<rparr>, ds1[d := dp])))"

definition eval_configure_one :: "eval_cfg \<Rightarrow> nat \<Rightarrow> dnode list \<Rightarrow> eval_error + eval \<times> dnode list" where
  "eval_configure_one cfg self ds =
     (let period = (case ec_period cfg of Some p \<Rightarrow> p | None \<Rightarrow> 0) in
      if ec_period cfg \<noteq> None \<and> period \<le> 0 then Inl PeriodInvalid
      else if ec_period cfg \<noteq> None \<and> ec_triggers cfg \<noteq> [] then Inl PeriodAndTriggers
      else case config_childs (eval_value_configure (ec_title cfg) self) 0 (ec_values cfg) ds of
             Inl e \<Rightarrow> Inl e
           | Inr (vs, ds1) \<Rightarrow>
               if vs = [] then Inl NoValueGiven
               else Inr (\<lparr>el_name = ec_title cfg, el_period = period, el_values = vs, el_ins = [], el_triggers = [],
                         el_explicit_triggers = False, el_slots = [], el_pending = False, el_next = 0\<rparr>, ds1))"

subsection \<open>Second pass: expressions and dependencies\<close>

text \<open>\<open>walk\<close> keeps the outside values found so far, which candidate is which of them, and the value's lists.\<close>

record dep =
  de_ins :: "eval_in list"
  de_cand_ins :: "nat option list"
  de_refs :: "nat list"
  de_vins :: "nat list"

definition add_index :: "nat list \<Rightarrow> nat \<Rightarrow> nat list" where
  "add_index xs i = (if i \<in> set xs then xs else xs @ [i])"

text \<open>\<open>n\<close> own values; \<open>vi\<close> is the index of the value walked.\<close>

definition walk_slot :: "nat \<Rightarrow> nat \<Rightarrow> nat \<Rightarrow> dep \<Rightarrow> dep" where
  "walk_slot n vi slot d =
     (if slot = 0 then d
      else if slot \<le> n then
        (if slot - 1 = vi then d else d\<lparr>de_refs := add_index (de_refs d) (slot - 1)\<rparr>)
      else let
        cand = slot - 1 - n;
        d1 = (case de_cand_ins d ! cand of
                None \<Rightarrow> d\<lparr>de_cand_ins := (de_cand_ins d)[cand := Some (length (de_ins d))],
                          de_ins := de_ins d @ [\<lparr>ei_disp = cand, ei_slot = slot, ei_valid = False\<rparr>]\<rparr>
              | Some _ \<Rightarrow> d)
      in d1\<lparr>de_vins := add_index (de_vins d1) (the (de_cand_ins d1 ! cand))\<rparr>)"

fun walk :: "nat \<Rightarrow> nat \<Rightarrow> te_expr \<Rightarrow> dep \<Rightarrow> dep" where
  "walk n vi (Constant v) d = d"
| "walk n vi (Variable slot) d = walk_slot n vi slot d"
| "walk n vi (Fun g pure es) d = fold (walk n vi) es d"

text \<open>The loops of \<open>close_inputs\<close>; \<open>ins\<close> are the lists of all values.\<close>

definition close_value :: "nat list list \<Rightarrow> nat \<Rightarrow> nat list list \<Rightarrow> nat list list" where
  "close_value refs v ins =
     fold (\<lambda>r ins. ins[v := fold (\<lambda>j xs. add_index xs j) (ins ! r) (ins ! v)]) (refs ! v) ins"

definition close_pass :: "nat list list \<Rightarrow> nat list list \<Rightarrow> nat list list" where
  "close_pass refs ins = fold (close_value refs) [0..<length ins] ins"

partial_function (option) close_inputs :: "nat list list \<Rightarrow> nat list list \<Rightarrow> nat list list option" where
  "close_inputs refs ins =
     (let ins' = close_pass refs ins in if ins' = ins then Some ins' else close_inputs refs ins')"

declare close_inputs.simps [code]

definition outside_vars :: "eval_val list \<Rightarrow> dnode list \<Rightarrow> (string \<times> te_address) list" where
  "outside_vars vs ds =
     concat (map (\<lambda>idx. let name = dp_name (ds ! idx) in
       if \<not> expr_name name \<or> name = ''dt'' \<or> is_function name \<or> find_value vs name \<noteq> None then []
       else [(name, Slot (1 + length vs + idx))]) [0..<length ds])"

definition eval_vars :: "eval_val list \<Rightarrow> dnode list \<Rightarrow> (string \<times> te_address) list" where
  "eval_vars vs ds =
     (''dt'', Slot 0) # map (\<lambda>i. (ev_name (vs ! i), Slot (1 + i))) [0..<length vs]
     @ outside_vars vs ds @ eval_functions"

text \<open>
  The message for a failed compilation at the position \<open>err\<close>: an unknown name with the position of its
  first character, if one ends there. \<open>c_at\<close> reads the text, which ends with a null character.
\<close>

definition c_at :: "string \<Rightarrow> nat \<Rightarrow> char" where
  "c_at s i = (if i < length s then s ! i else CHR 0x00)"

fun name_start :: "string \<Rightarrow> nat \<Rightarrow> nat" where
  "name_start s 0 = 0"
| "name_start s (Suc start) = (if ident_char (c_at s start) then name_start s start else Suc start)"

function skip_digits :: "string \<Rightarrow> nat \<Rightarrow> nat \<Rightarrow> nat" where
  "skip_digits s start err = (if start < err \<and> digit_val (c_at s start) < 10 then skip_digits s (Suc start) err else start)"
  by pat_completeness auto

termination skip_digits
  by (relation "measure (\<lambda>(s, start, err). err - start)") auto

declare skip_digits.simps [simp del]

definition compile_error :: "(string \<times> te_address) list \<Rightarrow> string \<Rightarrow> int \<Rightarrow> compile_msg" where
  "compile_error vars s err =
     (if err < 0 then Compile_failed
      else let e = nat err; start = skip_digits s (name_start s e) e; name = take (e - start) (drop start s) in
        if start < e \<and> \<not> (0 < start \<and> c_at s (start - 1) = CHR ''.'') \<and> \<not> is_function name \<and> find_lookup vars name = None
        then Unknown_name name (start + 1) else Syntax_error err)"

text \<open>Compiling the values from the index \<open>vi\<close> on.\<close>

fun compile_values ::
  "te_lookup \<Rightarrow> dbl list \<Rightarrow> nat \<Rightarrow> nat \<Rightarrow> eval_val list \<Rightarrow> eval_in list \<times> nat option list \<Rightarrow>
    eval_error + eval_val list \<times> eval_in list" where
  "compile_values c slots n vi [] (ins, cand_ins) = Inr ([], ins)"
| "compile_values c slots n vi (v # vs) (ins, cand_ins) =
     (case te_compile c slots (ev_expr_str v) of
        None \<Rightarrow> Inl (CompileError (ev_name v) Compile_failed)
      | Some (Inl err) \<Rightarrow> Inl (CompileError (ev_name v) (compile_error (tl_vars c) (ev_expr_str v) err))
      | Some (Inr e) \<Rightarrow>
          let d = walk n vi e \<lparr>de_ins = ins, de_cand_ins = cand_ins, de_refs = ev_refs v, de_vins = ev_ins v\<rparr> in
          (case compile_values c slots n (Suc vi) vs (de_ins d, de_cand_ins d) of
             Inl e \<Rightarrow> Inl e
           | Inr (vs', ins') \<Rightarrow>
               Inr (v\<lparr>ev_expr := e, ev_slot := 1 + vi, ev_refs := de_refs d, ev_ins := de_vins d\<rparr> # vs', ins')))"

definition compile_eval :: "c_env \<Rightarrow> dnode list \<Rightarrow> eval \<Rightarrow> (eval_error + eval) option" where
  "compile_eval m ds e =
     (let vs = el_values e;
          slots = DFin 0 # map ev_init_value vs @ replicate (length ds) (DFin 0);
          c = \<lparr>tl_env = m, tl_vars = eval_vars vs ds\<rparr>
      in case compile_values c slots (length vs) 0 vs ([], replicate (length ds) None) of
           Inl err \<Rightarrow> Some (Inl err)
         | Inr (vs', ins) \<Rightarrow>
             map_option (\<lambda>cl. Inr (e\<lparr>el_slots := slots, el_ins := ins,
                 el_values := map2 (\<lambda>v xs. v\<lparr>ev_ins := xs\<rparr>) vs' cl\<rparr>))
               (close_inputs (map ev_refs vs') (map ev_ins vs')))"

subsection \<open>Triggers\<close>

fun explicit_triggers ::
  "eval_val list \<Rightarrow> string list \<Rightarrow> nat list \<Rightarrow> dnode list \<Rightarrow> eval_error + nat list \<times> dnode list" where
  "explicit_triggers vs [] trigs ds = Inr (trigs, ds)"
| "explicit_triggers vs (name # names) trigs ds =
     (if find_value vs name \<noteq> None then Inl (TriggerOwnValue name)
      else case find_disp name ds of
             None \<Rightarrow> Inl (TriggerUnknown name)
           | Some d \<Rightarrow>
               if d \<in> set trigs then Inl (TriggerTwice name)
               else let (ds1, d') = uvrgw_conf_get_dispatcher name True ds
                    in explicit_triggers vs names (trigs @ [d']) ds1)"

fun default_triggers :: "eval_in list \<Rightarrow> nat list \<Rightarrow> dnode list \<Rightarrow> nat list \<times> dnode list" where
  "default_triggers [] trigs ds = (trigs, ds)"
| "default_triggers (i # is) trigs ds =
     (let (ds1, d) = uvrgw_conf_get_dispatcher (dp_name (ds ! ei_disp i)) True ds
      in default_triggers is (trigs @ [d]) ds1)"

definition setup_triggers :: "eval_cfg \<Rightarrow> eval \<Rightarrow> dnode list \<Rightarrow> eval_error + eval \<times> dnode list" where
  "setup_triggers cfg e ds =
     (if 0 < el_period e then Inr (e, ds)
      else if ec_triggers cfg \<noteq> [] then
        (case explicit_triggers (el_values e) (ec_triggers cfg) [] ds of
           Inl err \<Rightarrow> Inl err
         | Inr (ts, ds1) \<Rightarrow> Inr (e\<lparr>el_explicit_triggers := True, el_triggers := ts\<rparr>, ds1))
      else if el_ins e = [] then Inl NothingRead
      else let (ts, ds1) = default_triggers (el_ins e) [] ds
           in Inr (e\<lparr>el_explicit_triggers := False, el_triggers := ts\<rparr>, ds1))"

subsection \<open>Trigger cycles\<close>

text \<open>A loop that may be left with a result.\<close>

fun for_each :: "('a \<Rightarrow> 's \<Rightarrow> 'e + 's) \<Rightarrow> 'a list \<Rightarrow> 's \<Rightarrow> 'e + 's" where
  "for_each f [] s = Inr s"
| "for_each f (x # xs) s = (case f x s of Inl e \<Rightarrow> Inl e | Inr s' \<Rightarrow> for_each f xs s')"

definition eval_of :: "eval list \<Rightarrow> nat \<Rightarrow> nat option" where
  "eval_of es d =
     find (\<lambda>i. list_ex (\<lambda>v. ev_disp v = Some d) (el_values (es ! i))) [0..<length es]"

definition triggered_by :: "eval list \<Rightarrow> nat \<Rightarrow> nat \<Rightarrow> bool" where
  "triggered_by es b a \<longleftrightarrow> list_ex (\<lambda>d. eval_of es d = Some a) (el_triggers (es ! b))"

text \<open>
  \<open>col\<close> holds the \<open>visit\<close> marks: 0 new, 1 on the path, 2 done; \<open>trig b a\<close>: \<open>a\<close> triggers \<open>b\<close>. A cycle
  is \<open>Inl (Some c)\<close> with the evals as they are logged; \<open>Inl None\<close>: the fuel for the depth was used up.
\<close>

fun visit :: "nat \<Rightarrow> (nat \<Rightarrow> nat \<Rightarrow> bool) \<Rightarrow> nat \<Rightarrow> nat \<Rightarrow> nat list \<Rightarrow> nat list \<Rightarrow> nat list option + nat list" where
  "visit 0 trig n e path col = Inl None"
| "visit (Suc f) trig n e path col =
     (case for_each (\<lambda>b col.
         if col ! b = 2 \<or> \<not> trig b e then Inr col
         else if col ! b = 0 then visit f trig n b (path @ [e]) col
         else Inl (Some (dropWhile (\<lambda>x. x \<noteq> b) (path @ [e]) @ [b])))
       [0..<n] (col[e := 1]) of
        Inl r \<Rightarrow> Inl r
      | Inr col \<Rightarrow> Inr (col[e := 2]))"

definition check_cycles :: "(nat \<Rightarrow> nat \<Rightarrow> bool) \<Rightarrow> nat \<Rightarrow> nat list option + unit" where
  "check_cycles trig n =
     (case for_each (\<lambda>e col. if col ! e = 0 then visit n trig n e [] col else Inr col) [0..<n] (replicate n 0) of
        Inl r \<Rightarrow> Inl r
      | Inr col \<Rightarrow> Inr ())"

subsection \<open>The whole configuration\<close>

definition eval_configure_second :: "c_env \<Rightarrow> eval_cfg \<times> eval \<Rightarrow> dnode list \<Rightarrow> (eval_error + eval \<times> dnode list) option" where
  "eval_configure_second m = (\<lambda>(cfg, e) ds.
     (case find (\<lambda>v. ev_local v \<and> find_disp (ev_name v) ds \<noteq> None) (el_values e) of
        Some v \<Rightarrow> Some (Inl (LocalUsedOutside (ev_name v)))
      | None \<Rightarrow>
          (case compile_eval m ds e of
             None \<Rightarrow> None
           | Some (Inl err) \<Rightarrow> Some (Inl err)
           | Some (Inr e') \<Rightarrow> Some (setup_triggers cfg e' ds))))"

fun eval_configure_seconds ::
  "c_env \<Rightarrow> (eval_cfg \<times> eval) list \<Rightarrow> dnode list \<Rightarrow> (eval_error + eval list \<times> dnode list) option" where
  "eval_configure_seconds m [] ds = Some (Inr ([], ds))"
| "eval_configure_seconds m (ce # ces) ds =
     (case eval_configure_second m ce ds of
        None \<Rightarrow> None
      | Some (Inl err) \<Rightarrow> Some (Inl err)
      | Some (Inr (e, ds1)) \<Rightarrow>
          (case eval_configure_seconds m ces ds1 of
             None \<Rightarrow> None
           | Some (Inl err) \<Rightarrow> Some (Inl err)
           | Some (Inr (es, ds2)) \<Rightarrow> Some (Inr (e # es, ds2))))"

text \<open>\<open>None\<close>: \<open>close_inputs\<close> does not end.\<close>

definition eval_configure :: "c_env \<Rightarrow> eval_cfg list \<Rightarrow> dnode list \<Rightarrow> (eval_error + eval list \<times> dnode list) option" where
  "eval_configure m cfgs ds =
     (case config_childs eval_configure_one 0 cfgs ds of
        Inl e \<Rightarrow> Some (Inl e)
      | Inr (es, ds1) \<Rightarrow>
          (case eval_configure_seconds m (zip cfgs es) ds1 of
             None \<Rightarrow> None
           | Some (Inl err) \<Rightarrow> Some (Inl err)
           | Some (Inr (es', ds2)) \<Rightarrow>
               (case check_cycles (triggered_by es') (length es') of
                  Inl None \<Rightarrow> None
                | Inl (Some c) \<Rightarrow> Some (Inl (TriggerCycle c))
                | Inr () \<Rightarrow> Some (Inr (es', ds2)))))"

definition eval_triggers_registered :: "eval list \<Rightarrow> (val_ref \<times> nat) list" where
  "eval_triggers_registered es =
     concat (map (\<lambda>i. map (\<lambda>d. (EvalRef i, d)) (el_triggers (es ! i))) [0..<length es])"

definition eval_register_disp_cbs :: "eval list \<Rightarrow> dnode list \<Rightarrow> conf_error + dnode list" where
  "eval_register_disp_cbs es ds = register_vals (eval_triggers_registered es) Eval_trigger_update ds"

subsection \<open>The message for an unknown name\<close>

lemma c_at_ident: "ident_char (c_at s i) \<Longrightarrow> i < length s"
proof (rule ccontr)
  have "\<not> ident_char (CHR 0x00)" by code_simp
  moreover assume "ident_char (c_at s i)" "\<not> i < length s"
  ultimately show False by (simp add: c_at_def)
qed

lemma name_start_le: "name_start s e \<le> e"
  by (induction s e rule: name_start.induct) auto

lemma name_start_ident: "name_start s e \<le> i \<Longrightarrow> i < e \<Longrightarrow> ident_char (c_at s i)"
  by (induction s e rule: name_start.induct) (auto simp: less_Suc_eq split: if_splits)

lemma name_start_eq:
  "start \<le> e \<Longrightarrow> (\<And>i. start \<le> i \<Longrightarrow> i < e \<Longrightarrow> ident_char (c_at s i)) \<Longrightarrow>
    start = 0 \<or> \<not> ident_char (c_at s (start - 1)) \<Longrightarrow> name_start s e = start"
proof (induction e)
  case (Suc e)
  show ?case
  proof (cases "start = Suc e")
    case False
    then show ?thesis using Suc by simp
  qed (use Suc.prems in auto)
qed simp

lemma skip_digits_range: "start \<le> err \<Longrightarrow> start \<le> skip_digits s start err \<and> skip_digits s start err \<le> err \<and>
    (skip_digits s start err < err \<longrightarrow> \<not> digit_val (c_at s (skip_digits s start err)) < 10)"
proof (induction s start err rule: skip_digits.induct)
  case (1 s start err)
  then show ?case by (subst (1 2 3 4) skip_digits.simps) auto
qed

lemma slice:
  assumes "j < e" "e \<le> length s"
  shows "s = take j s @ take (e - j) (drop j s) @ drop e s" "length (take j s) = j" "length (take (e - j) (drop j s)) = e - j"
    "i < e - j \<Longrightarrow> take (e - j) (drop j s) ! i = c_at s (j + i)"
proof -
  have "drop e s = drop (e - j) (drop j s)" using assms by simp
  then show "s = take j s @ take (e - j) (drop j s) @ drop e s" by (metis append_take_drop_id)
  show "i < e - j \<Longrightarrow> take (e - j) (drop j s) ! i = c_at s (j + i)"
    using assms less_diff_conv [of i e j] by (simp add: c_at_def add.commute)
qed (use assms in simp_all)

lemma c_at_append: "c_at (xs @ ys) (length xs + i) = c_at ys i"
  by (simp add: c_at_def nth_append)

text \<open>
  C22. The message for a failed compilation names the culprit: a name it calls unknown is an identifier of the
  text that ends where the error is, is reported with the position of its first character, and is neither
  a value nor a function; and every unknown name, wherever it stands on its own, is reported
  so when the error is at its end.
\<close>

theorem compile_error_exact:
  "(compile_error vars s err = Unknown_name name pos \<longrightarrow>
     (\<exists>pre post. s = pre @ name @ post \<and> pos = length pre + 1 \<and> err = int (length (pre @ name)) \<and>
       name \<noteq> [] \<and> list_all ident_char name \<and> \<not> digit_val (hd name) < 10 \<and>
       \<not> is_function name \<and> find_lookup vars name = None)) \<and>
   (s = pre @ name @ post \<longrightarrow> expr_name name \<longrightarrow> \<not> is_function name \<longrightarrow> find_lookup vars name = None \<longrightarrow>
     pre = [] \<or> \<not> ident_char (last pre) \<and> last pre \<noteq> CHR ''.'' \<longrightarrow>
     compile_error vars s (int (length (pre @ name))) = Unknown_name name (length pre + 1))"
proof (intro conjI impI)
  assume m: "compile_error vars s err = Unknown_name name pos"
  obtain e j where ej: "e = nat err" "j = skip_digits s (name_start s e) e" by blast
  have u: "0 \<le> err" "j < e" "\<not> is_function name" "find_lookup vars name = None" "pos = j + 1"
    and name: "name = take (e - j) (drop j s)"
    using m by (auto simp: compile_error_def Let_def ej split: if_split_asm)
  have j: "name_start s e \<le> j" "\<not> digit_val (c_at s j) < 10"
    using skip_digits_range [OF name_start_le, of s e] u(2) by (auto simp: ej)
  then have id: "ident_char (c_at s i)" if "j \<le> i" "i < e" for i using name_start_ident that by (meson le_trans)
  have "ident_char (c_at s (e - 1))" using u(2) by (intro id) linarith+
  then have e: "e \<le> length s" using c_at_ident [of s "e - 1"] u(2) by linarith
  note sl = slice [OF u(2) e, folded name]
  have c: "name ! i = c_at s (j + i)" if "i < length name" for i using that sl(3,4) by simp
  have "name \<noteq> []" using sl(3) u(2) by auto
  moreover have "list_all ident_char name" unfolding list_all_length using c id sl(3) by simp
  moreover have "\<not> digit_val (hd name) < 10" using c [of 0] \<open>name \<noteq> []\<close> j(2) by (simp add: hd_conv_nth)
  moreover have "pos = length (take j s) + 1" "err = int (length (take j s @ name))" using sl(2,3) u(1,2,5) ej(1) by simp_all
  ultimately show "\<exists>pre post. s = pre @ name @ post \<and> pos = length pre + 1 \<and> err = int (length (pre @ name)) \<and>
      name \<noteq> [] \<and> list_all ident_char name \<and> \<not> digit_val (hd name) < 10 \<and> \<not> is_function name \<and> find_lookup vars name = None"
    using sl(1) u(3,4) by blast
next
  let ?e = "length (pre @ name)"
  assume a: "s = pre @ name @ post" "expr_name name" "\<not> is_function name" "find_lookup vars name = None"
    "pre = [] \<or> \<not> ident_char (last pre) \<and> last pre \<noteq> CHR ''.''"
  have n: "name \<noteq> []" "list_all ident_char name" "c_isalpha (hd name)"
    using a(2) by (auto simp: expr_name_def ident_char_def split: list.splits)
  have at: "c_at s (length pre + i) = name ! i" if "i < length name" for i
    using that by (simp add: a(1) c_at_append) (simp add: c_at_def nth_append)
  have before: "c_at s (length pre - 1) = last pre" if "pre \<noteq> []"
    using that by (cases pre rule: rev_cases) (simp_all add: a(1) c_at_def nth_append)
  have "name_start s ?e = length pre"
  proof (rule name_start_eq)
    fix i assume "length pre \<le> i" "i < ?e"
    then show "ident_char (c_at s i)" using at [of "i - length pre"] n(2) by (simp add: list_all_length)
  qed (use a(5) before in auto)
  moreover have "\<not> digit_val (c_at s (length pre)) < 10"
    using at [of 0] n(1,3) by (auto simp: hd_conv_nth c_isalpha_def digit_val_def)
  ultimately have "skip_digits s (name_start s ?e) ?e = length pre" by (simp add: skip_digits.simps)
  then show "compile_error vars s (int ?e) = Unknown_name name (length pre + 1)"
    using a n(1) before by (auto simp: compile_error_def Let_def nat_int_add)
qed

theorem compile_error_exact_witness:
  "compile_error [(''t'', Slot 1)] ''2*(t + pmp) - 1'' (int (length (''2*(t + '' @ ''pmp''))) = Unknown_name ''pmp'' (length ''2*(t + '' + 1)"
proof -
  have "expr_name ''pmp'' \<and> \<not> is_function ''pmp'' \<and> find_lookup [(''t'', Slot 1)] ''pmp'' = None \<and>
    \<not> ident_char (last ''2*(t + '') \<and> last ''2*(t + '' \<noteq> CHR ''.''" by code_simp
  then show ?thesis
    using compile_error_exact [of "[(''t'', Slot 1)]" "''2*(t + pmp) - 1''" 0 "''pmp''" 0 "''2*(t + ''" "'') - 1''"] by simp
qed

text \<open>
  A name that follows a number with an exponent is taken together with the exponent: the parser stops at
  \<open>foo\<close>, the message says \<open>e5foo\<close>.
\<close>

lemma compile_error_exponent:
  "next_token \<lparr>tl_env = m, tl_vars = []\<rparr> ''foo'' = (TOK_ERROR, []) \<and>
   compile_error [] ''1e5foo'' 6 = Unknown_name ''e5foo'' 2"
  by (intro conjI; code_simp)

end
