(* ===== verification/Eval_Graph.thy ===== *)
theory Eval_Graph
  imports Eval_Config "HOL-Library.Sublist"
begin

text \<open>
  What the configuration of calculated values guarantees (\<open>eval.c\<close>): the search for trigger cycles
  accepts exactly the acyclic configurations, and the closed dependency lists hold exactly the
  outside values that a value depends on.
\<close>

subsection \<open>Loops that may be left\<close>

lemma for_each_rule:
  assumes "I 0 s" "\<And>k s. k < length xs \<Longrightarrow> I k s \<Longrightarrow> (case f (xs ! k) s of Inl r \<Rightarrow> R r | Inr s' \<Rightarrow> I (Suc k) s')"
  shows "case for_each f xs s of Inl r \<Rightarrow> R r | Inr s' \<Rightarrow> I (length xs) s'"
  using assms
proof (induction xs arbitrary: s I)
  case (Cons x xs)
  have x: "case f x s of Inl r \<Rightarrow> R r | Inr s' \<Rightarrow> I (Suc 0) s'" using Cons.prems(1) Cons.prems(2) [of 0 s] by simp
  show ?case
  proof (cases "f x s")
    case (Inr s')
    have "case for_each f xs s' of Inl r \<Rightarrow> R r | Inr s' \<Rightarrow> I (Suc (length xs)) s'"
    proof (rule Cons.IH)
      show "I (Suc 0) s'" using x Inr by simp
      show "case f (xs ! k) t of Inl r \<Rightarrow> R r | Inr s' \<Rightarrow> I (Suc (Suc k)) s'" if "k < length xs" "I (Suc k) t" for k t
        using Cons.prems(2) [of "Suc k" t] that by simp
    qed
    then show ?thesis using Inr by (simp only: for_each.simps sum.case list.size add_Suc_right add_0_right)
  qed (use x in simp)
qed simp

subsection \<open>The search for trigger cycles\<close>

text \<open>Eval \<open>a\<close> triggers eval \<open>b\<close>.\<close>

definition trigger_graph :: "(nat \<Rightarrow> nat \<Rightarrow> bool) \<Rightarrow> nat \<Rightarrow> (nat \<times> nat) set" where
  "trigger_graph trig n = {(a, b). a < n \<and> b < n \<and> trig b a}"

definition is_cycle :: "(nat \<Rightarrow> nat \<Rightarrow> bool) \<Rightarrow> nat \<Rightarrow> nat list \<Rightarrow> bool" where
  "is_cycle trig n c \<longleftrightarrow> 2 \<le> length c \<and> hd c = last c \<and> set c \<subseteq> {..<n} \<and> successively (\<lambda>a b. trig b a) c"

lemma successively_trancl:
  "successively (\<lambda>a b. trig b a) xs \<Longrightarrow> 2 \<le> length xs \<Longrightarrow> set xs \<subseteq> {..<n} \<Longrightarrow>
    (hd xs, last xs) \<in> (trigger_graph trig n)\<^sup>+"
proof (induction xs rule: induct_list012)
  case (3 x y zs)
  then have xy: "(x, y) \<in> trigger_graph trig n" by (simp add: trigger_graph_def)
  show ?case
  proof (cases zs)
    case Nil
    then show ?thesis using xy by auto
  next
    case (Cons z zs')
    then have "(y, last (y # zs)) \<in> (trigger_graph trig n)\<^sup>+" using 3 by simp
    then show ?thesis using xy Cons by (auto intro: trancl_into_trancl2)
  qed
qed simp_all

lemma cycle_not_acyclic: "is_cycle trig n c \<Longrightarrow> \<not> acyclic (trigger_graph trig n)"
  using successively_trancl [of trig c n] by (auto simp: is_cycle_def acyclic_def)

text \<open>
  The marks during the search: the path is marked 1, and what is marked 2 leads to nothing else
  and lies on no cycle.
\<close>

definition marks_ok :: "(nat \<Rightarrow> nat \<Rightarrow> bool) \<Rightarrow> nat \<Rightarrow> nat set \<Rightarrow> nat list \<Rightarrow> bool" where
  "marks_ok trig n gray col \<longleftrightarrow> length col = n \<and> (\<forall>i < n. col ! i \<le> 2 \<and> (col ! i = 1 \<longleftrightarrow> i \<in> gray)) \<and>
     (\<forall>x < n. \<forall>b < n. col ! x = 2 \<longrightarrow> trig b x \<longrightarrow> col ! b = 2) \<and>
     (\<forall>x < n. col ! x = 2 \<longrightarrow> (x, x) \<notin> (trigger_graph trig n)\<^sup>+)"

lemma marks_okD:
  assumes "marks_ok trig n gray col"
  shows "length col = n" "i < n \<Longrightarrow> col ! i \<le> 2" "i < n \<Longrightarrow> col ! i = 1 \<longleftrightarrow> i \<in> gray"
    "x < n \<Longrightarrow> b < n \<Longrightarrow> col ! x = 2 \<Longrightarrow> trig b x \<Longrightarrow> col ! b = 2"
    "x < n \<Longrightarrow> col ! x = 2 \<Longrightarrow> (x, x) \<notin> (trigger_graph trig n)\<^sup>+"
  using assms unfolding marks_ok_def by blast+

definition new_marks :: "nat \<Rightarrow> nat list \<Rightarrow> nat set" where
  "new_marks n col = {i. i < n \<and> col ! i = 0}"

definition only_done :: "nat \<Rightarrow> nat list \<Rightarrow> nat list \<Rightarrow> bool" where \<comment> \<open>what was marked stays marked\<close>
  "only_done n col col' \<longleftrightarrow> (\<forall>i < n. col ! i \<noteq> 0 \<longrightarrow> col' ! i = col ! i)"

lemma black_reaches_black:
  assumes "marks_ok trig n gray col" "(x, y) \<in> (trigger_graph trig n)\<^sup>*" "x < n" "col ! x = 2"
  shows "col ! y = 2"
  using assms(2)
proof (induction rule: rtrancl_induct)
  case (step y z)
  then show ?case using marks_okD(4) [OF assms(1), of y z] by (auto simp: trigger_graph_def)
qed (use assms in simp)

text \<open>An eval all of whose successors are done is done itself.\<close>

lemma marks_ok_finish:
  assumes "marks_ok trig n (insert e gray) col" "e < n" "e \<notin> gray" "\<forall>b < n. trig b e \<longrightarrow> col ! b = 2"
  shows "marks_ok trig n gray (col[e := 2])"
proof -
  have e: "col ! e = 1" using marks_okD(3) [OF assms(1,2)] by simp
  have "(e, e) \<notin> (trigger_graph trig n)\<^sup>+"
  proof
    assume "(e, e) \<in> (trigger_graph trig n)\<^sup>+"
    then obtain b where b: "(e, b) \<in> trigger_graph trig n" "(b, e) \<in> (trigger_graph trig n)\<^sup>*"
      by (meson tranclD)
    then have "b < n" "col ! b = 2" using assms(4) by (auto simp: trigger_graph_def)
    then have "col ! e = 2" using black_reaches_black [OF assms(1) b(2)] by simp
    then show False using e by simp
  qed
  note acyc = this
  note marks = marks_okD [OF assms(1)]
  show ?thesis
    unfolding marks_ok_def
  proof (intro conjI allI impI)
    show "length (col[e := 2]) = n" using marks(1) by simp
  next
    fix i assume i: "i < n"
    show "col[e := 2] ! i \<le> 2" using marks(1) marks(2) [OF i] assms(2) by (cases "i = e") simp_all
    show "(col[e := 2] ! i = 1) = (i \<in> gray)"
      using marks(1) marks(3) [OF i] assms(2,3) by (cases "i = e") simp_all
  next
    fix x b assume "x < n" "b < n" "col[e := 2] ! x = 2" "trig b x"
    then show "col[e := 2] ! b = 2"
      using marks(1) marks(4) [of x b] assms(2,4) by (cases "x = e"; cases "b = e") simp_all
  next
    fix x assume "x < n" "col[e := 2] ! x = 2"
    then show "(x, x) \<notin> (trigger_graph trig n)\<^sup>+"
      using marks(1) marks(5) [of x] acyc assms(2) by (cases "x = e") simp_all
  qed
qed

lemma marks_ok_start:
  assumes "marks_ok trig n gray col" "e < n" "col ! e = 0"
  shows "marks_ok trig n (insert e gray) (col[e := 1])"
proof -
  note marks = marks_okD [OF assms(1)]
  show ?thesis
    unfolding marks_ok_def
  proof (intro conjI allI impI)
    show "length (col[e := 1]) = n" using marks(1) by simp
  next
    fix i assume i: "i < n"
    show "col[e := 1] ! i \<le> 2" using marks(1) marks(2) [OF i] assms(2) by (cases "i = e") simp_all
    show "(col[e := 1] ! i = 1) = (i \<in> insert e gray)"
      using marks(1) marks(3) [OF i] assms(2,3) by (cases "i = e") simp_all
  next
    fix x b assume *: "x < n" "b < n" "col[e := 1] ! x = 2" "trig b x"
    then have "x \<noteq> e" using marks(1) by auto
    then show "col[e := 1] ! b = 2"
      using * marks(1) marks(4) [of x b] assms(2,3) by (cases "b = e") simp_all
  next
    fix x assume *: "x < n" "col[e := 1] ! x = 2"
    then have "x \<noteq> e" using marks(1) by auto
    then show "(x, x) \<notin> (trigger_graph trig n)\<^sup>+" using * marks(5) [of x] by simp
  qed
qed

lemma cycle_found:
  assumes "successively (\<lambda>a b. trig b a) p" "p \<noteq> []" "set p \<subseteq> {..<n}" "b \<in> set p" "trig b (last p)"
  shows "is_cycle trig n (dropWhile (\<lambda>x. x \<noteq> b) p @ [b])"
proof -
  define q where "q = dropWhile (\<lambda>x. x \<noteq> b) p"
  have p: "p = takeWhile (\<lambda>x. x \<noteq> b) p @ q" by (simp add: q_def)
  have q: "q \<noteq> []" "hd q = b" using assms(4) hd_dropWhile [of "\<lambda>x. x \<noteq> b" p] by (auto simp: q_def dropWhile_eq_Nil_conv)
  have "successively (\<lambda>a b. trig b a) q" "last q = last p" "set q \<subseteq> {..<n}"
    using assms(1,3) p q(1) by (metis successively_append_iff, metis last_appendR, metis set_append le_sup_iff)
  then show ?thesis
    using q assms(3-5) unfolding q_def [symmetric] is_cycle_def
    by (auto simp: successively_append_iff hd_append Suc_le_eq)
qed

lemma visit_correct:
  assumes "marks_ok trig n (set path) col" "e < n" "col ! e = 0"
    and "successively (\<lambda>a b. trig b a) (path @ [e])" "set path \<subseteq> {..<n}" "card (new_marks n col) \<le> f"
  shows "case visit f trig n e path col of
      Inl r \<Rightarrow> \<exists>c. r = Some c \<and> is_cycle trig n c
    | Inr col' \<Rightarrow> marks_ok trig n (set path) col' \<and> only_done n col col' \<and> col' ! e = 2"
  using assms
proof (induction f arbitrary: e path col)
  case 0
  have "e \<in> new_marks n col" "finite (new_marks n col)" using 0(2,3) by (auto simp: new_marks_def)
  then show ?case using 0(6) by auto
next
  case (Suc f)
  have lenc: "length col = n" and e: "e \<notin> set path"
    using marks_okD(1) [OF Suc.prems(1)] marks_okD(3) [OF Suc.prems(1,2)] Suc.prems(3) by simp_all
  let ?step = "\<lambda>b col. if col ! b = 2 \<or> \<not> trig b e then Inr col
         else if col ! b = 0 then visit f trig n b (path @ [e]) col
         else Inl (Some (dropWhile (\<lambda>x. x \<noteq> b) (path @ [e]) @ [b]))"
  let ?R = "\<lambda>r. \<exists>c. r = Some c \<and> is_cycle trig n c"
  define I where "I = (\<lambda>k s. marks_ok trig n (insert e (set path)) s \<and> only_done n (col[e := 1]) s \<and>
    (\<forall>b < k. b < n \<longrightarrow> trig b e \<longrightarrow> s ! b = 2))"
  have loop: "case for_each ?step [0..<n] (col[e := 1]) of Inl r \<Rightarrow> ?R r | Inr s \<Rightarrow> I (length [0..<n]) s"
  proof (rule for_each_rule)
    show "I 0 (col[e := 1])"
      using marks_ok_start [OF Suc.prems(1-3)] by (simp add: I_def only_done_def)
  next
    fix k s assume k: "k < length [0..<n]" and I: "I k s"
    then have kn: "k < n" "[0..<n] ! k = k" by simp_all
    have m: "marks_ok trig n (insert e (set path)) s" and d: "only_done n (col[e := 1]) s"
      and b: "\<forall>b < k. b < n \<longrightarrow> trig b e \<longrightarrow> s ! b = 2" using I by (simp_all add: I_def)
    consider (skip) "s ! k = 2 \<or> \<not> trig k e" | (new) "s ! k = 0" "trig k e" | (found) "s ! k = 1" "trig k e"
      using marks_okD(2) [OF m kn(1)] by linarith
    then show "case ?step ([0..<n] ! k) s of Inl r \<Rightarrow> ?R r | Inr s' \<Rightarrow> I (Suc k) s'"
    proof cases
      case skip
      then have "I (Suc k) s" using m d b by (auto simp: I_def less_Suc_eq)
      then show ?thesis using skip kn by simp
    next
      case new
      have "new_marks n s \<subseteq> new_marks n col - {e}"
        using d lenc Suc.prems(2,3) by (auto simp: new_marks_def only_done_def nth_list_update split: if_splits)
      moreover have "e \<in> new_marks n col" "finite (new_marks n col)"
        using Suc.prems(2,3) by (auto simp: new_marks_def)
      ultimately have "card (new_marks n s) \<le> card (new_marks n col) - 1"
        using card_mono [of "new_marks n col - {e}" "new_marks n s"] by simp
      then have c: "card (new_marks n s) \<le> f" using Suc.prems(6) by simp
      have "case visit f trig n k (path @ [e]) s of Inl r \<Rightarrow> ?R r
          | Inr s' \<Rightarrow> marks_ok trig n (set (path @ [e])) s' \<and> only_done n s s' \<and> s' ! k = 2"
        by (rule Suc.IH) (use m kn new c Suc.prems(2,4,5) in \<open>auto simp: successively_append_iff\<close>)
      then show ?thesis
        using new kn d b by (auto simp: I_def only_done_def less_Suc_eq split: sum.splits)
    next
      case found
      then have "k \<in> set (path @ [e])" using marks_okD(3) [OF m kn(1)] by auto
      then have "is_cycle trig n (dropWhile (\<lambda>x. x \<noteq> k) (path @ [e]) @ [k])"
        using Suc.prems(2,4,5) found by (intro cycle_found) auto
      then show ?thesis using found kn by simp
    qed
  qed
  show ?case
  proof (cases "for_each ?step [0..<n] (col[e := 1])")
    case (Inl r)
    then show ?thesis using loop by simp
  next
    case (Inr s)
    then have I: "I n s" using loop by simp
    have "marks_ok trig n (set path) (s[e := 2])"
      by (rule marks_ok_finish) (use I e Suc.prems(2) in \<open>auto simp: I_def\<close>)
    moreover have "length s = n" using I marks_okD(1) unfolding I_def by blast
    moreover have "only_done n col (s[e := 2])"
      using I Suc.prems(2,3) lenc \<open>length s = n\<close>
      by (auto simp: I_def only_done_def nth_list_update split: if_splits)
    ultimately show ?thesis using Inr Suc.prems(2) by simp
  qed
qed

text \<open>
  C24. The search for trigger cycles is exact: it accepts a configuration if and only if no chain of
  triggers leads from an eval back to itself, the cycle it reports is one, and it always ends (the
  depth never exceeds the number of evals).
\<close>

theorem check_cycles_exact:
  "(check_cycles trig n = Inr () \<longleftrightarrow> acyclic (trigger_graph trig n)) \<and>
   (check_cycles trig n = Inr () \<or> (\<exists>c. check_cycles trig n = Inl (Some c) \<and> is_cycle trig n c))"
proof -
  let ?step = "\<lambda>e col. if col ! e = 0 then visit n trig n e [] col else Inr col"
  let ?R = "\<lambda>r. \<exists>c. r = Some c \<and> is_cycle trig n c"
  define I where "I = (\<lambda>k s. marks_ok trig n {} s \<and> (\<forall>e < k. e < n \<longrightarrow> s ! e = (2 :: nat)))"
  have "case for_each ?step [0..<n] (replicate n 0) of Inl r \<Rightarrow> ?R r | Inr s \<Rightarrow> I (length [0..<n]) s"
  proof (rule for_each_rule)
    show "I 0 (replicate n 0)" by (simp add: I_def marks_ok_def)
  next
    fix k s assume k: "k < length [0..<n]" and I: "I k s"
    then have kn: "k < n" "[0..<n] ! k = k" by simp_all
    have m: "marks_ok trig n {} s" using I by (simp add: I_def)
    show "case ?step ([0..<n] ! k) s of Inl r \<Rightarrow> ?R r | Inr s' \<Rightarrow> I (Suc k) s'"
    proof (cases "s ! k = 0")
      case True
      have "card (new_marks n s) \<le> n"
        using card_mono [of "{..<n}" "new_marks n s"] by (auto simp: new_marks_def)
      then have "case visit n trig n k [] s of Inl r \<Rightarrow> ?R r
          | Inr s' \<Rightarrow> marks_ok trig n {} s' \<and> only_done n s s' \<and> s' ! k = 2"
        using visit_correct [of trig n "[]" s k n, unfolded list.set] m kn True by simp
      then show ?thesis
        using True I kn by (auto simp: I_def only_done_def less_Suc_eq split: sum.splits)
    next
      case False
      then have "s ! k = 2" using marks_okD(2,3) [OF m kn(1)] by (simp add: le_Suc_eq numeral_2_eq_2)
      then show ?thesis using False I kn by (auto simp: I_def less_Suc_eq)
    qed
  qed
  then have r: "case check_cycles trig n of Inl r \<Rightarrow> ?R r | Inr u \<Rightarrow> \<exists>s. I n s"
    by (auto simp: check_cycles_def split: sum.splits)
  have ok: "acyclic (trigger_graph trig n)" if "check_cycles trig n = Inr ()"
  proof (rule acyclicI, intro allI notI)
    fix x assume x: "(x, x) \<in> (trigger_graph trig n)\<^sup>+"
    then have "x < n" by (auto dest!: tranclD simp: trigger_graph_def)
    moreover obtain s where "I n s" using r \<open>check_cycles trig n = Inr ()\<close> by auto
    ultimately show False using marks_okD(5) [of trig n "{}" s x] x by (auto simp: I_def)
  qed
  show ?thesis
  proof (cases "check_cycles trig n")
    case (Inl r')
    then obtain c where "r' = Some c" "is_cycle trig n c" using r by auto
    then show ?thesis using Inl cycle_not_acyclic by auto
  next
    case (Inr u)
    then show ?thesis using ok by auto
  qed
qed

subsection \<open>Closing the dependencies\<close>

lemma add_index_set [simp]: "set (add_index xs j) = insert j (set xs)"
  by (auto simp: add_index_def)

lemma add_index_distinct [simp]: "distinct xs \<Longrightarrow> distinct (add_index xs j)"
  by (simp add: add_index_def)

definition add_all :: "nat list \<Rightarrow> nat list \<Rightarrow> nat list" where
  "add_all js xs = fold (\<lambda>j xs. add_index xs j) js xs"

lemma add_all_set [simp]: "set (add_all js xs) = set xs \<union> set js"
  unfolding add_all_def by (induction js arbitrary: xs) auto

lemma add_all_distinct [simp]: "distinct xs \<Longrightarrow> distinct (add_all js xs)"
  unfolding add_all_def by (induction js arbitrary: xs) auto

lemma add_all_prefix: "prefix xs (add_all js xs)"
  unfolding add_all_def
proof (induction js arbitrary: xs)
  case (Cons j js)
  have "prefix xs (add_index xs j)" by (simp add: add_index_def)
  then show ?case using Cons prefix_order.trans by fastforce
qed simp

text \<open>The pass as one sequence of steps: the list of \<open>v\<close> takes over that of \<open>r\<close>.\<close>

definition close_step :: "nat \<times> nat \<Rightarrow> nat list list \<Rightarrow> nat list list" where
  "close_step = (\<lambda>(v, r) ins. ins[v := add_all (ins ! r) (ins ! v)])"

definition close_steps :: "nat list list \<Rightarrow> nat \<Rightarrow> (nat \<times> nat) list" where
  "close_steps refs n = concat (map (\<lambda>v. map (Pair v) (refs ! v)) [0..<n])"

lemma fold_concat_map: "fold (\<lambda>x. fold f (g x)) xs s = fold f (concat (map g xs)) s"
  by (induction xs arbitrary: s) simp_all

lemma close_pass_steps: "close_pass refs ins = fold close_step (close_steps refs (length ins)) ins"
proof -
  have "close_value refs v = fold close_step (map (Pair v) (refs ! v))" for v
    by (rule ext) (simp add: close_value_def fold_map comp_def close_step_def add_all_def)
  then have "close_value refs = (\<lambda>v. fold close_step (map (Pair v) (refs ! v)))" by (rule ext)
  then show ?thesis
    unfolding close_pass_def close_steps_def by (simp only: fold_concat_map)
qed

text \<open>Every list is a prefix of the later one.\<close>

definition grown :: "nat list list \<Rightarrow> nat list list \<Rightarrow> bool" where
  "grown ins ins' \<longleftrightarrow> list_all2 prefix ins ins'"

lemma grown_refl: "grown ins ins"
  by (simp add: grown_def list_all2_refl)

lemma grown_trans: "grown a b \<Longrightarrow> grown b c \<Longrightarrow> grown a c"
  unfolding grown_def list_all2_conv_all_nth by (metis prefix_order.trans)

lemma grown_antisym: "grown a b \<Longrightarrow> grown b a \<Longrightarrow> a = b"
  unfolding grown_def list_all2_conv_all_nth by (metis nth_equalityI prefix_order.antisym)

lemma grown_step: "grown ins (close_step x ins)"
  by (cases x; cases "fst x < length ins")
    (auto simp: grown_def close_step_def list_all2_conv_all_nth nth_list_update add_all_prefix list_update_beyond)

lemma grown_fold: "grown ins (fold close_step xs ins)"
  by (induction xs arbitrary: ins) (auto intro: grown_refl grown_trans grown_step)

lemma fixed_fold:
  "fold close_step xs ins = ins \<Longrightarrow> x \<in> set xs \<Longrightarrow> close_step x ins = ins"
proof (induction xs)
  case (Cons y ys)
  have "grown (close_step y ins) ins"
    using Cons.prems(1) grown_fold [of "close_step y ins" ys] by simp
  then have y: "close_step y ins = ins" using grown_antisym grown_step by blast
  then show ?case using Cons by auto
qed simp

definition total :: "nat list list \<Rightarrow> nat" where
  "total ins = sum_list (map length ins)"

lemma grown_total:
  assumes "grown ins ins'"
  shows "total ins \<le> total ins'" "ins' \<noteq> ins \<Longrightarrow> total ins < total ins'"
proof -
  have "total ins \<le> total ins' \<and> (total ins = total ins' \<longrightarrow> ins' = ins)"
    using assms unfolding grown_def total_def
  proof (induction rule: list_all2_induct)
    case (Cons x xs y ys)
    have "length x \<le> length y" by (rule prefix_length_le [OF Cons(1)])
    moreover have "length x = length y \<Longrightarrow> x = y" using Cons(1) by (auto simp: prefix_def)
    ultimately show ?case using Cons(3) by auto
  qed simp
  then show "total ins \<le> total ins'" "ins' \<noteq> ins \<Longrightarrow> total ins < total ins'" by auto
qed

text \<open>Which own values a value reads, and what it depends on.\<close>

definition ref_graph :: "nat list list \<Rightarrow> (nat \<times> nat) set" where
  "ref_graph refs = {(a, b). a < length refs \<and> b \<in> set (refs ! a)}"

definition dependencies :: "nat list list \<Rightarrow> nat list list \<Rightarrow> nat \<Rightarrow> nat set" where
  "dependencies refs ins v = (\<Union>w \<in> {w. (v, w) \<in> (ref_graph refs)\<^sup>*}. set (ins ! w))"

text \<open>
  What holds between passes: the lists have grown from the direct ones \<open>ins0\<close> and hold nothing a value
  does not depend on.
\<close>

definition closing :: "nat list list \<Rightarrow> nat list list \<Rightarrow> nat list list \<Rightarrow> bool" where
  "closing refs ins0 ins \<longleftrightarrow> length ins = length refs \<and>
     (\<forall>v < length refs. distinct (ins ! v) \<and> set (ins0 ! v) \<subseteq> set (ins ! v) \<and>
        set (ins ! v) \<subseteq> dependencies refs ins0 v)"

lemma dependencies_step: "(v, r) \<in> ref_graph refs \<Longrightarrow> dependencies refs ins0 r \<subseteq> dependencies refs ins0 v"
  by (auto simp: dependencies_def intro: converse_rtrancl_into_rtrancl)

definition refs_ok :: "nat list list \<Rightarrow> bool" where
  "refs_ok refs \<longleftrightarrow> (\<forall>v < length refs. \<forall>r \<in> set (refs ! v). r < length refs)"

lemma closing_step:
  assumes "closing refs ins0 ins" "refs_ok refs" "(v, r) \<in> ref_graph refs"
  shows "closing refs ins0 (close_step (v, r) ins)"
proof -
  have v: "v < length refs" "r < length refs" using assms(2,3) by (auto simp: ref_graph_def refs_ok_def)
  have "set (ins ! r) \<subseteq> dependencies refs ins0 v"
    using dependencies_step [OF assms(3)] assms(1) v unfolding closing_def by blast
  then show ?thesis
    using assms(1) v unfolding closing_def close_step_def by (auto simp: nth_list_update)
qed

lemma close_steps_set: "set (close_steps refs (length refs)) = ref_graph refs"
  by (auto simp: close_steps_def ref_graph_def)

lemma closing_pass:
  assumes "closing refs ins0 ins" "refs_ok refs"
  shows "closing refs ins0 (close_pass refs ins)"
proof -
  have len: "length ins = length refs" using assms(1) by (simp add: closing_def)
  have "closing refs ins0 (fold close_step xs ins)" if "set xs \<subseteq> ref_graph refs" for xs
    using assms(1) that
  proof (induction xs arbitrary: ins)
    case (Cons x xs)
    then show ?case using closing_step [OF _ assms(2), of ins0 ins "fst x" "snd x"] by simp
  qed simp
  then show ?thesis using close_pass_steps [of refs ins] close_steps_set [of refs] len by simp
qed

text \<open>At the end a value's list holds those of the values it reads.\<close>

lemma closed_complete:
  assumes "closing refs ins0 ins" "refs_ok refs" "close_pass refs ins = ins" "v < length refs"
  shows "set (ins ! v) = dependencies refs ins0 v"
proof
  have len: "length ins = length refs" using assms(1) by (simp add: closing_def)
  have own: "set (ins ! r) \<subseteq> set (ins ! v)" if "(v, r) \<in> ref_graph refs" for v r
  proof -
    have "(v, r) \<in> set (close_steps refs (length ins))" using that close_steps_set len by simp
    then have "close_step (v, r) ins = ins"
      using fixed_fold [of "close_steps refs (length ins)" ins "(v, r)"] assms(3) close_pass_steps [of refs ins] by simp
    moreover have "v < length ins" using that len by (auto simp: ref_graph_def)
    ultimately have "add_all (ins ! r) (ins ! v) = ins ! v"
      using nth_list_update_eq [of v ins "add_all (ins ! r) (ins ! v)"] by (simp add: close_step_def)
    then have "set (add_all (ins ! r) (ins ! v)) = set (ins ! v)" by (rule arg_cong)
    then show ?thesis by auto
  qed
  have "set (ins ! w) \<subseteq> set (ins ! v)" if "(v, w) \<in> (ref_graph refs)\<^sup>*" for w
    using that
  proof (induction rule: rtrancl_induct)
    case (step y z)
    then show ?case using own [OF step(2)] by (rule_tac subset_trans)
  qed simp
  moreover have "w < length refs" if "(v, w) \<in> (ref_graph refs)\<^sup>*" for w
    using that
  proof (induction rule: rtrancl_induct)
    case base
    then show ?case using assms(4) .
  next
    case (step y z)
    then show ?case using assms(2) by (simp add: ref_graph_def refs_ok_def)
  qed
  ultimately show "dependencies refs ins0 v \<subseteq> set (ins ! v)"
    using assms(1) unfolding dependencies_def closing_def by blast
  show "set (ins ! v) \<subseteq> dependencies refs ins0 v" using assms(1,4) by (simp add: closing_def)
qed

lemma total_bound:
  assumes "closing refs ins0 ins" "\<forall>xs \<in> set ins0. set xs \<subseteq> {..<k}" "length ins0 = length refs" "refs_ok refs"
  shows "total ins \<le> length refs * k"
proof -
  have len: "length ins = length refs" using assms(1) by (simp add: closing_def)
  have "length xs \<le> k" if "xs \<in> set ins" for xs
  proof -
    obtain v where v: "v < length refs" "xs = ins ! v" using \<open>xs \<in> set ins\<close> len by (auto simp: in_set_conv_nth)
    have "w < length refs" if "(v, w) \<in> (ref_graph refs)\<^sup>*" for w
      using that
    proof (induction rule: rtrancl_induct)
      case base
      then show ?case using v(1) .
    next
      case (step y z)
      then show ?case using assms(4) by (simp add: ref_graph_def refs_ok_def)
    qed
    moreover have "set (ins0 ! w) \<subseteq> {..<k}" if "w < length refs" for w
      using assms(2,3) that nth_mem [of w ins0] by auto
    ultimately have "dependencies refs ins0 v \<subseteq> {..<k}" unfolding dependencies_def by blast
    then have "set xs \<subseteq> {..<k}" "distinct xs" using assms(1) v unfolding closing_def by auto
    then show ?thesis using card_mono [of "{..<k}" "set xs"] by (simp add: distinct_card)
  qed
  then have "sum_list (map length ins) \<le> sum_list (map (\<lambda>_. k) ins)" by (intro sum_list_mono)
  then show ?thesis by (simp add: total_def len sum_list_triv)
qed

lemma close_inputs_total:
  assumes "closing refs ins0 ins" "refs_ok refs" "\<forall>xs \<in> set ins0. set xs \<subseteq> {..<k}" "length ins0 = length refs"
  shows "\<exists>ins'. close_inputs refs ins = Some ins' \<and> closing refs ins0 ins' \<and> close_pass refs ins' = ins'"
  using assms(1)
proof (induction "length refs * k - total ins" arbitrary: ins rule: less_induct)
  case less
  let ?ins = "close_pass refs ins"
  have c: "closing refs ins0 ?ins" by (rule closing_pass [OF less.prems assms(2)])
  show ?case
  proof (cases "?ins = ins")
    case True
    then show ?thesis using less.prems by (subst close_inputs.simps) simp
  next
    case False
    have "grown ins ?ins" using close_pass_steps [of refs ins] grown_fold by simp
    then have "total ins < total ?ins" using grown_total(2) False by simp
    then have "length refs * k - total ?ins < length refs * k - total ins"
      using total_bound [OF c assms(3,4,2)] by simp
    from less.hyps [OF this c] show ?thesis using False by (subst close_inputs.simps) simp
  qed
qed

lemma close_inputs_correct:
  assumes "length ins = length refs" "refs_ok refs" "\<forall>xs \<in> set ins. set xs \<subseteq> {..<k} \<and> distinct xs"
  shows "\<exists>ins'. close_inputs refs ins = Some ins' \<and> length ins' = length refs \<and>
    (\<forall>v < length refs. set (ins' ! v) = dependencies refs ins v)"
proof -
  have "set (ins ! v) \<subseteq> dependencies refs ins v" for v by (auto simp: dependencies_def)
  then have c: "closing refs ins ins" using assms(1,3) by (simp add: closing_def)
  from assms(3) have "\<forall>xs \<in> set ins. set xs \<subseteq> {..<k}" by simp
  from close_inputs_total [OF c assms(2) this assms(1)]
  obtain ins' where i: "close_inputs refs ins = Some ins'" "closing refs ins ins'" "close_pass refs ins' = ins'" by blast
  then show ?thesis using closed_complete [OF i(2) assms(2) i(3)] by (auto simp: closing_def)
qed

subsection \<open>The walk over an expression\<close>

lemma fold_concat_fold: "fold f (concat xss) s = fold (\<lambda>xs. fold f xs) xss s"
  by (induction xss arbitrary: s) simp_all

lemma walk_reads: "walk n vi e d = fold (walk_slot n vi) (reads e) d"
proof (induction e arbitrary: d)
  case (Fun g pure es)
  have "fold (walk n vi) es d = fold (\<lambda>e. fold (walk_slot n vi) (reads e)) es d"
    by (rule fold_cong) (use Fun.IH in auto)
  then show ?case by (simp add: fold_concat_map)
qed simp_all

text \<open>
  The state of the walk with \<open>n\<close> own values and \<open>K\<close> candidates: the outside values found so far are
  distinct, and the table knows which is which.
\<close>

definition dep_ok :: "nat \<Rightarrow> nat \<Rightarrow> eval_in list \<Rightarrow> nat option list \<Rightarrow> bool" where
  "dep_ok n K ins cands \<longleftrightarrow> length cands = K \<and>
     (\<forall>i < length ins. n < ei_slot (ins ! i) \<and> ei_slot (ins ! i) = 1 + n + ei_disp (ins ! i) \<and> ei_disp (ins ! i) < K \<and>
        cands ! ei_disp (ins ! i) = Some i) \<and>
     (\<forall>k < K. \<forall>i. cands ! k = Some i \<longrightarrow> i < length ins \<and> ei_disp (ins ! i) = k)"

definition in_slots :: "eval_in list \<Rightarrow> nat list \<Rightarrow> nat set" where
  "in_slots ins xs = (\<lambda>j. ei_slot (ins ! j)) ` set xs"

definition ins_ok :: "eval_in list \<Rightarrow> nat list \<Rightarrow> bool" where
  "ins_ok ins xs \<longleftrightarrow> distinct xs \<and> set xs \<subseteq> {..<length ins}"

lemma in_slots_prefix: "prefix ins ins' \<Longrightarrow> ins_ok ins xs \<Longrightarrow> in_slots ins' xs = in_slots ins xs"
  by (auto simp: in_slots_def ins_ok_def prefix_def nth_append image_iff subset_iff)

lemma ins_ok_prefix: "prefix ins ins' \<Longrightarrow> ins_ok ins xs \<Longrightarrow> ins_ok ins' xs"
  using prefix_length_le [of ins ins'] by (auto simp: ins_ok_def)

lemma walk_slot_ok:
  fixes vi :: nat
  assumes "dep_ok n K (de_ins d) (de_cand_ins d)" "ins_ok (de_ins d) (de_vins d)" "slot \<le> n + K"
  defines "d' \<equiv> walk_slot n vi slot d"
  shows "dep_ok n K (de_ins d') (de_cand_ins d') \<and> ins_ok (de_ins d') (de_vins d') \<and> prefix (de_ins d) (de_ins d') \<and>
    set (de_refs d') = set (de_refs d) \<union> (if 0 < slot \<and> slot \<le> n \<and> slot - 1 \<noteq> vi then {slot - 1} else {}) \<and>
    in_slots (de_ins d') (de_vins d') = in_slots (de_ins d) (de_vins d) \<union> (if n < slot then {slot} else {})"
proof (cases "n < slot")
  case False
  then show ?thesis using assms by (auto simp: walk_slot_def)
next
  case True
  define cand where "cand = slot - 1 - n"
  have cd: "slot - Suc n = cand" by (simp add: cand_def)
  have cand: "cand < K" "slot = 1 + n + cand" using True assms(3) by (auto simp: cand_def)
  show ?thesis
  proof (cases "de_cand_ins d ! cand")
    case (Some i)
    then have i: "i < length (de_ins d)" "ei_disp (de_ins d ! i) = cand" "ei_slot (de_ins d ! i) = slot"
      using assms(1) cand unfolding dep_ok_def by auto
    have d': "d' = d\<lparr>de_vins := add_index (de_vins d) i\<rparr>"
      using True Some by (simp add: d'_def walk_slot_def Let_def cd)
    show ?thesis using assms(1,2) i True unfolding d' by (auto simp: ins_ok_def in_slots_def)
  next
    case None
    define new where "new = \<lparr>ei_disp = cand, ei_slot = slot, ei_valid = False\<rparr>"
    have len: "length (de_cand_ins d) = K" using assms(1) by (simp add: dep_ok_def)
    have d': "d' = d\<lparr>de_cand_ins := (de_cand_ins d)[cand := Some (length (de_ins d))],
        de_ins := de_ins d @ [new], de_vins := add_index (de_vins d) (length (de_ins d))\<rparr>"
      using True None len cand by (simp add: d'_def walk_slot_def Let_def cd new_def)
    have p: "prefix (de_ins d) (de_ins d @ [new])" by simp
    have "dep_ok n K (de_ins d @ [new]) ((de_cand_ins d)[cand := Some (length (de_ins d))])"
      unfolding dep_ok_def
    proof (intro conjI allI impI)
      fix i assume "i < length (de_ins d @ [new])"
      then consider "i < length (de_ins d)" | "i = length (de_ins d)" by fastforce
      then have "n < ei_slot ((de_ins d @ [new]) ! i) \<and> ei_slot ((de_ins d @ [new]) ! i) = 1 + n + ei_disp ((de_ins d @ [new]) ! i) \<and>
        ei_disp ((de_ins d @ [new]) ! i) < K \<and>
        (de_cand_ins d)[cand := Some (length (de_ins d))] ! ei_disp ((de_ins d @ [new]) ! i) = Some i"
      proof cases
        case 1
        then have "ei_disp (de_ins d ! i) \<noteq> cand" using assms(1) None unfolding dep_ok_def by auto
        then show ?thesis using 1 assms(1) unfolding dep_ok_def by (simp add: nth_append)
      next
        case 2
        then show ?thesis using cand len by (simp add: new_def)
      qed
      then show "n < ei_slot ((de_ins d @ [new]) ! i)" "ei_slot ((de_ins d @ [new]) ! i) = 1 + n + ei_disp ((de_ins d @ [new]) ! i)"
        "ei_disp ((de_ins d @ [new]) ! i) < K"
        "(de_cand_ins d)[cand := Some (length (de_ins d))] ! ei_disp ((de_ins d @ [new]) ! i) = Some i" by auto
    next
      fix k i assume k: "k < K" "(de_cand_ins d)[cand := Some (length (de_ins d))] ! k = Some i"
      show "i < length (de_ins d @ [new])" "ei_disp ((de_ins d @ [new]) ! i) = k"
        using k assms(1) cand len unfolding dep_ok_def
        by (cases "k = cand"; auto simp: nth_append new_def)+
    qed (use len in simp)
    moreover have "ins_ok (de_ins d @ [new]) (add_index (de_vins d) (length (de_ins d)))"
      using ins_ok_prefix [OF p assms(2)] by (auto simp: ins_ok_def)
    moreover have "in_slots (de_ins d @ [new]) (add_index (de_vins d) (length (de_ins d))) = in_slots (de_ins d) (de_vins d) \<union> {slot}"
      using in_slots_prefix [OF p assms(2)] by (auto simp: in_slots_def new_def)
    ultimately show ?thesis using True p unfolding d' by simp
  qed
qed

lemma walk_ok:
  fixes vi :: nat
  assumes "dep_ok n K (de_ins d) (de_cand_ins d)" "ins_ok (de_ins d) (de_vins d)" "\<forall>s \<in> set slots. s \<le> n + K"
  defines "d' \<equiv> fold (walk_slot n vi) slots d"
  shows "dep_ok n K (de_ins d') (de_cand_ins d') \<and> ins_ok (de_ins d') (de_vins d') \<and> prefix (de_ins d) (de_ins d') \<and>
    set (de_refs d') = set (de_refs d) \<union> {s - 1 |s. s \<in> set slots \<and> 0 < s \<and> s \<le> n \<and> s - 1 \<noteq> vi} \<and>
    in_slots (de_ins d') (de_vins d') = in_slots (de_ins d) (de_vins d) \<union> {s \<in> set slots. n < s}"
  using assms(1-3) unfolding d'_def
proof (induction slots arbitrary: d)
  case (Cons s ss)
  define d1 where "d1 = walk_slot n vi s d"
  note w = walk_slot_ok [OF Cons.prems(1,2), of s vi, folded d1_def]
  have w1: "dep_ok n K (de_ins d1) (de_cand_ins d1)" "ins_ok (de_ins d1) (de_vins d1)" "prefix (de_ins d) (de_ins d1)"
    "set (de_refs d1) = set (de_refs d) \<union> (if 0 < s \<and> s \<le> n \<and> s - 1 \<noteq> vi then {s - 1} else {})"
    "in_slots (de_ins d1) (de_vins d1) = in_slots (de_ins d) (de_vins d) \<union> (if n < s then {s} else {})"
    using w Cons.prems(3) by auto
  note ih = Cons.IH [OF w1(1,2)]
  have "fold (walk_slot n vi) (s # ss) d = fold (walk_slot n vi) ss d1" by (simp add: d1_def)
  then show ?case using ih Cons.prems(3) w1(3-5) prefix_order.trans [OF w1(3)] by auto
qed simp

subsection \<open>Compiling an eval\<close>

lemma eval_vars_snd:
  "snd ` set (eval_vars vs ds) \<subseteq> Slot ` {..length vs + length ds} \<union> snd ` set eval_functions"
  by (auto simp: eval_vars_def outside_vars_def Let_def split: if_splits)

lemma eval_vars_ok: "lookup_ok \<lparr>tl_env = m, tl_vars = eval_vars vs ds\<rparr>"
proof -
  have "Function g n pure \<in> snd ` set eval_functions" if "Function g n pure \<in> snd ` set (eval_vars vs ds)" for g n pure
    using that eval_vars_snd [of vs ds] by auto
  moreover have "pure \<and> arity_ok g n" if "Function g n pure \<in> snd ` set eval_functions" for g n pure
    using that by (auto simp: eval_functions_def arity_ok_def)
  ultimately show ?thesis unfolding lookup_ok_def te_lookup.simps by blast
qed

lemma wf_expr_reads: "wf_expr c e \<Longrightarrow> s \<in> set (reads e) \<Longrightarrow> Slot s \<in> snd ` set (tl_vars c)"
  by (induction e) auto

lemma eval_reads_bound:
  "wf_expr \<lparr>tl_env = m, tl_vars = eval_vars vs ds\<rparr> e \<Longrightarrow> s \<in> set (reads e) \<Longrightarrow> s \<le> length vs + length ds"
  using eval_vars_snd [of vs ds] wf_expr_reads [of "\<lparr>tl_env = m, tl_vars = eval_vars vs ds\<rparr>" e s]
  by (auto simp: eval_functions_def)

text \<open>What compiling a value gives: the value \<open>v'\<close> at the index \<open>k\<close> from the value \<open>v\<close>.\<close>

definition compiled :: "te_lookup \<Rightarrow> nat \<Rightarrow> eval_in list \<Rightarrow> nat \<Rightarrow> eval_val \<Rightarrow> eval_val \<Rightarrow> bool" where
  "compiled c n ins k v v' \<longleftrightarrow> wf_expr c (ev_expr v') \<and> ev_slot v' = 1 + k \<and> ins_ok ins (ev_ins v') \<and>
     ev_name v' = ev_name v \<and> ev_disp v' = ev_disp v \<and>
     set (ev_refs v') = {s - 1 |s. s \<in> set (reads (ev_expr v')) \<and> 0 < s \<and> s \<le> n \<and> s - 1 \<noteq> k} \<and>
     in_slots ins (ev_ins v') = {s \<in> set (reads (ev_expr v')). n < s}"

lemma compiled_prefix: "prefix ins ins' \<Longrightarrow> compiled c n ins k v v' \<Longrightarrow> compiled c n ins' k v v'"
  using in_slots_prefix [of ins ins' "ev_ins v'"] ins_ok_prefix [of ins ins' "ev_ins v'"]
  by (simp add: compiled_def)

lemma compile_values_ok:
  assumes "compile_values c slots n vi vs (ins, cands) = Inr (vs', ins')" "dep_ok n K ins cands"
    and "lookup_ok c" "\<And>e s. wf_expr c e \<Longrightarrow> s \<in> set (reads e) \<Longrightarrow> s \<le> n + K"
    and "\<forall>v \<in> set vs. ev_refs v = [] \<and> ev_ins v = []"
  shows "length vs' = length vs \<and> prefix ins ins' \<and> (\<exists>cands'. dep_ok n K ins' cands') \<and>
    (\<forall>k < length vs. compiled c n ins' (vi + k) (vs ! k) (vs' ! k))"
  using assms(1,2,5)
proof (induction vs arbitrary: vi ins cands vs')
  case Nil
  then show ?case by auto
next
  case (Cons v vs)
  obtain e where e: "te_compile c slots (ev_expr_str v) = Some (Inr e)"
    using Cons.prems(1) by (auto split: option.splits sum.splits)
  define d where "d = walk n vi e \<lparr>de_ins = ins, de_cand_ins = cands, de_refs = ev_refs v, de_vins = ev_ins v\<rparr>"
  obtain vs2 where r: "compile_values c slots n (Suc vi) vs (de_ins d, de_cand_ins d) = Inr (vs2, ins')"
    "vs' = v\<lparr>ev_expr := e, ev_slot := 1 + vi, ev_refs := de_refs d, ev_ins := de_vins d\<rparr> # vs2"
    using Cons.prems(1) e by (auto simp: Let_def d_def split: sum.splits)
  have wf: "wf_expr c e" using compiled_well_formed [OF e assms(3)] by simp
  have bound: "\<forall>s \<in> set (reads e). s \<le> n + K" using assms(4) [OF wf] by blast
  have w: "dep_ok n K (de_ins d) (de_cand_ins d)" "ins_ok (de_ins d) (de_vins d)" "prefix ins (de_ins d)"
    "set (de_refs d) = {s - 1 |s. s \<in> set (reads e) \<and> 0 < s \<and> s \<le> n \<and> s - 1 \<noteq> vi}"
    "in_slots (de_ins d) (de_vins d) = {s \<in> set (reads e). n < s}"
    using walk_ok [of n K "\<lparr>de_ins = ins, de_cand_ins = cands, de_refs = ev_refs v, de_vins = ev_ins v\<rparr>" "reads e" vi]
      Cons.prems(2,3) bound by (simp_all add: d_def walk_reads ins_ok_def in_slots_def)
  have ih: "length vs2 = length vs" "prefix (de_ins d) ins'" "\<exists>cands'. dep_ok n K ins' cands'"
    "\<forall>k < length vs. compiled c n ins' (Suc vi + k) (vs ! k) (vs2 ! k)"
    using Cons.IH [OF r(1) w(1)] Cons.prems(3) by simp_all
  have "compiled c n (de_ins d) vi v (v\<lparr>ev_expr := e, ev_slot := 1 + vi, ev_refs := de_refs d, ev_ins := de_vins d\<rparr>)"
    using wf w by (simp add: compiled_def)
  then have "compiled c n ins' vi v (vs' ! 0)" using compiled_prefix [OF ih(2)] r(2) by simp
  then have "compiled c n ins' (vi + k) ((v # vs) ! k) (vs' ! k)" if "k < length (v # vs)" for k
    using that ih(4) r(2) by (cases k) auto
  then show ?case using ih w(3) r(2) prefix_order.trans [OF w(3) ih(2)] by simp
qed

text \<open>Own value \<open>a\<close> reads the other own value \<open>b\<close>.\<close>

definition own_reads :: "eval \<Rightarrow> (nat \<times> nat) set" where
  "own_reads e = {(a, b). a < length (el_values e) \<and> b < length (el_values e) \<and> a \<noteq> b \<and>
     Suc b \<in> set (reads (ev_expr (el_values e ! a)))}"

text \<open>The slots of the outside values recorded for a value.\<close>

definition recorded :: "eval \<Rightarrow> nat \<Rightarrow> nat set" where
  "recorded e v = in_slots (el_ins e) (ev_ins (el_values e ! v))"

text \<open>The dependency graph of the values compiled, and that of the lists recorded.\<close>

lemma compile_eval_ends:
  assumes "\<forall>v \<in> set (el_values e). ev_refs v = [] \<and> ev_ins v = []"
    and "compile_values \<lparr>tl_env = m, tl_vars = eval_vars (el_values e) ds\<rparr>
      (DFin 0 # map ev_init_value (el_values e) @ replicate (length ds) (DFin 0)) (length (el_values e)) 0 (el_values e)
      ([], replicate (length ds) None) = Inr (vs', ins)"
  defines "n \<equiv> length (el_values e)" and "c \<equiv> \<lparr>tl_env = m, tl_vars = eval_vars (el_values e) ds\<rparr>"
  shows "length vs' = n" "\<exists>cands. dep_ok n (length ds) ins cands" "\<And>k. k < n \<Longrightarrow> compiled c n ins k (el_values e ! k) (vs' ! k)"
    "\<exists>cl. close_inputs (map ev_refs vs') (map ev_ins vs') = Some cl \<and> length cl = n \<and>
      (\<forall>v < n. set (cl ! v) = dependencies (map ev_refs vs') (map ev_ins vs') v)"
proof -
  have d0: "dep_ok n (length ds) [] (replicate (length ds) None)" by (simp add: dep_ok_def)
  have cv: "length vs' = n \<and> prefix [] ins \<and> (\<exists>cands'. dep_ok n (length ds) ins cands') \<and>
    (\<forall>k < n. compiled c n ins (0 + k) (el_values e ! k) (vs' ! k))"
    unfolding n_def c_def
    by (rule compile_values_ok [OF assms(2)])
      (use d0 eval_vars_ok eval_reads_bound assms(1) in \<open>auto simp: n_def\<close>)
  then show len: "length vs' = n" and "\<exists>cands. dep_ok n (length ds) ins cands"
    and cp: "\<And>k. k < n \<Longrightarrow> compiled c n ins k (el_values e ! k) (vs' ! k)" by simp_all
  have refs: "refs_ok (map ev_refs vs')"
    unfolding refs_ok_def using len cp by (auto simp: compiled_def)
  have "ins_ok ins (ev_ins v)" if "v \<in> set vs'" for v
    using that cp len by (auto simp: in_set_conv_nth compiled_def)
  then have "\<forall>xs \<in> set (map ev_ins vs'). set xs \<subseteq> {..<length ins} \<and> distinct xs"
    by (auto simp: ins_ok_def)
  from close_inputs_correct [OF _ refs this]
  show "\<exists>cl. close_inputs (map ev_refs vs') (map ev_ins vs') = Some cl \<and> length cl = n \<and>
      (\<forall>v < n. set (cl ! v) = dependencies (map ev_refs vs') (map ev_ins vs') v)"
    using len by simp
qed

lemma compile_eval_facts:
  assumes "compile_eval m ds e = Some (Inr e')" "\<forall>v \<in> set (el_values e). ev_refs v = [] \<and> ev_ins v = []"
  defines "n \<equiv> length (el_values e)" and "vs \<equiv> el_values e'"
  shows "length vs = n"
    and "\<And>k. k < n \<Longrightarrow> ev_slot (vs ! k) = 1 + k \<and> ev_disp (vs ! k) = ev_disp (el_values e ! k) \<and>
      set (ev_ins (vs ! k)) \<subseteq> {..<length (el_ins e')} \<and>
      wf_expr \<lparr>tl_env = m, tl_vars = eval_vars (el_values e) ds\<rparr> (ev_expr (vs ! k))"
    and "\<exists>cands. dep_ok n (length ds) (el_ins e') cands"
    and "\<And>k. k < n \<Longrightarrow> recorded e' k = {s. n < s \<and> (\<exists>w. (k, w) \<in> (own_reads e')\<^sup>* \<and> s \<in> set (reads (ev_expr (vs ! w))))}"
    and "el_slots e' = DFin 0 # map ev_init_value (el_values e) @ replicate (length ds) (DFin 0)"
proof -
  define c where "c = \<lparr>tl_env = m, tl_vars = eval_vars (el_values e) ds\<rparr>"
  define slots where "slots = DFin 0 # map ev_init_value (el_values e) @ replicate (length ds) (DFin 0)"
  obtain vs' ins where cv: "compile_values c slots n 0 (el_values e) ([], replicate (length ds) None) = Inr (vs', ins)"
    using assms(1) by (auto simp: compile_eval_def Let_def c_def n_def slots_def split: sum.splits)
  note f = compile_eval_ends [OF assms(2) cv [unfolded c_def slots_def n_def], folded c_def n_def]
  obtain cl where cl: "close_inputs (map ev_refs vs') (map ev_ins vs') = Some cl" "length cl = n"
    "\<forall>v < n. set (cl ! v) = dependencies (map ev_refs vs') (map ev_ins vs') v" using f(4) by blast
  have e': "e' = e\<lparr>el_slots := slots, el_ins := ins, el_values := map2 (\<lambda>v xs. v\<lparr>ev_ins := xs\<rparr>) vs' cl\<rparr>"
    using assms(1) cv cl(1) by (simp add: compile_eval_def Let_def c_def n_def slots_def)
  then show "el_slots e' = DFin 0 # map ev_init_value (el_values e) @ replicate (length ds) (DFin 0)"
    by (simp add: slots_def)
  show len: "length vs = n" using f(1) cl(2) e' by (simp add: vs_def)
  have vsk: "vs ! k = (vs' ! k)\<lparr>ev_ins := cl ! k\<rparr>" if "k < n" for k
    using that f(1) cl(2) e' by (simp add: vs_def)
  show "\<exists>cands. dep_ok n (length ds) (el_ins e') cands" using f(2) e' by simp
  have graph: "ref_graph (map ev_refs vs') = own_reads e'"
  proof (intro set_eqI iffI; clarify)
    fix a b assume "(a, b) \<in> ref_graph (map ev_refs vs')"
    then show "(a, b) \<in> own_reads e'"
      using f(1,3) vsk len by (auto simp: ref_graph_def own_reads_def compiled_def vs_def)
  next
    fix a b assume "(a, b) \<in> own_reads e'"
    then have ab: "a < n" "b < n" "a \<noteq> b" "Suc b \<in> set (reads (ev_expr (vs' ! a)))"
      using len vsk by (auto simp: own_reads_def vs_def)
    then have "b \<in> set (ev_refs (vs' ! a))"
      using f(3) [OF ab(1)] unfolding compiled_def by force
    then show "(a, b) \<in> ref_graph (map ev_refs vs')" using ab f(1) by (simp add: ref_graph_def)
  qed
  have reach: "w < n" if "(k, w) \<in> (own_reads e')\<^sup>*" "k < n" for k w
    using that by (induction rule: rtrancl_induct) (auto simp: own_reads_def len [unfolded vs_def])
  have ins_lt: "set (ev_ins (vs' ! w)) \<subseteq> {..<length ins}" if "w < n" for w
    using f(3) [OF that] by (simp add: compiled_def ins_ok_def)
  have dep: "set (cl ! k) = (\<Union>w \<in> {w. (k, w) \<in> (own_reads e')\<^sup>*}. set (ev_ins (vs' ! w)))" if "k < n" for k
    using cl(3) that reach f(1) unfolding dependencies_def graph by auto
  show "ev_slot (vs ! k) = 1 + k \<and> ev_disp (vs ! k) = ev_disp (el_values e ! k) \<and>
      set (ev_ins (vs ! k)) \<subseteq> {..<length (el_ins e')} \<and>
      wf_expr \<lparr>tl_env = m, tl_vars = eval_vars (el_values e) ds\<rparr> (ev_expr (vs ! k))" if k: "k < n" for k
  proof -
    have "set (cl ! k) \<subseteq> {..<length ins}" unfolding dep [OF k] using ins_lt reach [OF _ k] by blast
    then show ?thesis using f(3) [OF k] vsk [OF k] e' by (simp add: compiled_def c_def)
  qed
  show "recorded e' k = {s. n < s \<and> (\<exists>w. (k, w) \<in> (own_reads e')\<^sup>* \<and> s \<in> set (reads (ev_expr (vs ! w))))}" if k: "k < n" for k
  proof -
    have "recorded e' k = in_slots ins (cl ! k)" using vsk [OF k] e' by (simp add: recorded_def vs_def)
    also have "\<dots> = (\<Union>w \<in> {w. (k, w) \<in> (own_reads e')\<^sup>*}. in_slots ins (ev_ins (vs' ! w)))"
      by (auto simp: in_slots_def dep [OF k])
    also have "\<dots> = (\<Union>w \<in> {w. (k, w) \<in> (own_reads e')\<^sup>*}. {s \<in> set (reads (ev_expr (vs ! w))). n < s})"
      by (rule SUP_cong) (use f(3) vsk reach [OF _ k] in \<open>auto simp: compiled_def\<close>)
    finally show ?thesis by auto
  qed
qed

text \<open>
  C23. The recorded dependencies are exact: compiling an eval always ends, and if it succeeds, the outside
  values recorded for a value are those whose slots are read by its expression or by the expression
  of any own value it reads, directly or through further own values, above or below, whatever
  cycles there are between them; nothing is missed and nothing is added.
\<close>

theorem dependencies_exact:
  assumes "\<forall>v \<in> set (el_values e). ev_refs v = [] \<and> ev_ins v = []"
  shows "compile_eval m ds e \<noteq> None \<and>
    (\<forall>e'. compile_eval m ds e = Some (Inr e') \<longrightarrow>
      (\<forall>k < length (el_values e'). recorded e' k =
        {s. length (el_values e') < s \<and> (\<exists>w. (k, w) \<in> (own_reads e')\<^sup>* \<and> s \<in> set (reads (ev_expr (el_values e' ! w))))}))"
proof
  show "compile_eval m ds e \<noteq> None"
    using compile_eval_ends(4) [OF assms] by (force simp: compile_eval_def Let_def split: sum.splits)
  show "\<forall>e'. compile_eval m ds e = Some (Inr e') \<longrightarrow>
      (\<forall>k < length (el_values e'). recorded e' k =
        {s. length (el_values e') < s \<and> (\<exists>w. (k, w) \<in> (own_reads e')\<^sup>* \<and> s \<in> set (reads (ev_expr (el_values e' ! w))))})"
    using compile_eval_facts(1,4) [OF _ assms] by simp
qed

definition example_eval_val :: "string \<Rightarrow> string \<Rightarrow> eval_val" where
  "example_eval_val name expr = \<lparr>ev_name = name, ev_local = True, ev_init_value = DFin 0, ev_expr_str = expr,
     ev_expr = Constant DNaN, ev_slot = 0, ev_disp = None, ev_ins = [], ev_refs = [], ev_valid = False,
     ev_has_last = False, ev_last_ts = 0, ev_not_finite = False\<rparr>"

definition example_eval :: eval where
  "example_eval = \<lparr>el_name = ''pump'', el_period = 0,
     el_values = [example_eval_val ''on'' ''hyst(on, t, lim, 1)'', example_eval_val ''lim'' ''if(on, u, lim)''],
     el_ins = [], el_triggers = [], el_explicit_triggers = False, el_slots = [], el_pending = False, el_next = 0\<rparr>"

theorem dependencies_exact_witness:
  "\<exists>e'. compile_eval example_env [new_dnode ''t'', new_dnode ''u''] example_eval = Some (Inr e') \<and>
     recorded e' 1 = {3, 4} \<and>
     recorded e' 1 = {s. 2 < s \<and> (\<exists>w. (1, w) \<in> (own_reads e')\<^sup>* \<and> s \<in> set (reads (ev_expr (el_values e' ! w))))}"
proof -
  have "case compile_eval example_env [new_dnode ''t'', new_dnode ''u''] example_eval of
      Some (Inr e') \<Rightarrow> length (el_values e') = 2 \<and> recorded e' 1 = {3, 4} | _ \<Rightarrow> False" by code_simp
  then obtain e' where e': "compile_eval example_env [new_dnode ''t'', new_dnode ''u''] example_eval = Some (Inr e')"
    "length (el_values e') = 2" "recorded e' 1 = {3, 4}"
    by (auto split: option.splits sum.splits)
  have "\<forall>v \<in> set (el_values example_eval). ev_refs v = [] \<and> ev_ins v = []"
    by (simp add: example_eval_def example_eval_val_def)
  note d = dependencies_exact [OF this, THEN conjunct2, rule_format, OF e'(1), of 1, unfolded e'(2)]
  show ?thesis by (intro exI [of _ e'] conjI e'(1,3) d) simp
qed

end
