(* ===== verification/Eval.thy ===== *)
theory Eval
  imports Eval_Graph
begin

text \<open>
  Calculated values at run time (\<open>eval.c\<close>): evaluation of an eval, its thread, and the functions for
  control logic. The results of the calls of \<open>uvrgw_conf_get_val\<close> and \<open>utl_get_ticks\<close> are arguments.
\<close>

subsection \<open>Evaluation\<close>

text \<open>The log of a result: the value's flag and the message.\<close>

definition log_finite :: "bool \<Rightarrow> eval_val \<Rightarrow> eval_val \<times> logmsg list" where
  "log_finite ok v =
     (v\<lparr>ev_not_finite := \<not> ok\<rparr>,
      if ok = ev_not_finite v
      then [if ok then (LOG_INFO, ''value finite again'') else (LOG_WARNING, ''result is not finite'')] else [])"

definition value_dt :: "ticks \<Rightarrow> eval_val \<Rightarrow> dbl" where
  "value_dt now v = (if ev_has_last v then d_div (d_of_int (now - ev_last_ts v)) (DFin 1000) else DFin 0)"

definition eval_value ::
  "c_env \<Rightarrow> ticks \<Rightarrow> eval_in list \<Rightarrow> eval_val \<Rightarrow> dbl list \<Rightarrow> eval_val \<times> dbl list \<times> logmsg list" where
  "eval_value m now ins v slots =
     (let slots1 = slots[0 := value_dt now v];
          r = te_eval m slots1 (ev_expr v);
          fin = isfinite r;
          slots2 = (if fin then slots1[ev_slot v := r] else slots1);
          (v1, l) = log_finite fin v;
          v2 = v1\<lparr>ev_valid := fin \<and> list_all (\<lambda>i. ei_valid (ins ! i)) (ev_ins v), ev_has_last := fin\<rparr>
      in (if fin then v2\<lparr>ev_last_ts := now\<rparr> else v2, slots2, l))"

fun eval_values ::
  "c_env \<Rightarrow> ticks \<Rightarrow> eval_in list \<Rightarrow> eval_val list \<Rightarrow> dbl list \<Rightarrow> eval_val list \<times> dbl list \<times> logmsg list" where
  "eval_values m now ins [] slots = ([], slots, [])"
| "eval_values m now ins (v # vs) slots =
     (let (v', slots1, l1) = eval_value m now ins v slots;
          (vs', slots2, l2) = eval_values m now ins vs slots1
      in (v' # vs', slots2, l1 @ l2))"

text \<open>\<open>got\<close>: what \<open>uvrgw_conf_get_val\<close> gives for each outside value.\<close>

definition refresh :: "eval_in list \<Rightarrow> (bool \<times> dbl) list \<Rightarrow> eval_in list" where
  "refresh ins got = map2 (\<lambda>i g. i\<lparr>ei_valid := fst g\<rparr>) ins got"

definition refresh_slots :: "eval_in list \<Rightarrow> (bool \<times> dbl) list \<Rightarrow> dbl list \<Rightarrow> dbl list" where
  "refresh_slots ins got slots = fold (\<lambda>(i, g) s. s[ei_slot i := snd g]) (zip ins got) slots"

definition publish :: "nat \<Rightarrow> eval_val list \<Rightarrow> dbl list \<Rightarrow> disp_req list" where
  "publish self vs slots =
     concat (map (\<lambda>v. case ev_disp v of
        Some d \<Rightarrow> [Disp d (Some (EvalRef self)) (slots ! ev_slot v) (ev_valid v)] | None \<Rightarrow> []) vs)"

definition evaluate :: "c_env \<Rightarrow> nat \<Rightarrow> ticks \<Rightarrow> (bool \<times> dbl) list \<Rightarrow> eval \<Rightarrow> eval \<times> disp_req list \<times> logmsg list" where
  "evaluate m self now got e =
     (let ins = refresh (el_ins e) got;
          (vs, slots, l) = eval_values m now ins (el_values e) (refresh_slots (el_ins e) got (el_slots e))
      in (e\<lparr>el_ins := ins, el_values := vs, el_slots := slots\<rparr>, publish self vs slots, l))"

interpretation eval_log: edge_logger ev_not_finite log_finite
  by unfold_locales (auto simp: log_finite_def)

subsection \<open>The thread\<close>

definition trigger_update :: "eval \<Rightarrow> eval" where
  "trigger_update e = e\<lparr>el_pending := True\<rparr>"

text \<open>All evals are evaluated once at startup: success, whether the thread runs, the evals.\<close>

definition eval_startup :: "ticks \<Rightarrow> bool \<Rightarrow> eval list \<Rightarrow> bool \<times> bool \<times> eval list" where
  "eval_startup now created es =
     (if es = [] then (True, False, es)
      else let (ok, running, evs) = thread_startup created False
        in (ok, running, map (\<lambda>e. e\<lparr>el_pending := True, el_next := now\<rparr>) es))"

definition eval_shutdown :: "bool \<Rightarrow> bool" where
  "eval_shutdown running = fst (thread_shutdown running)"

definition eval_next :: "int \<Rightarrow> ticks \<Rightarrow> ticks \<Rightarrow> ticks" where
  "eval_next period now next = next + (c_div (now - next) period + 1) * period"

text \<open>The check of one eval under the lock: whether it is due.\<close>

definition eval_due :: "ticks \<Rightarrow> eval \<Rightarrow> bool \<times> eval" where
  "eval_due now e =
     (if 0 < el_period e then
        (if el_next e \<le> now then (True, e\<lparr>el_next := eval_next (el_period e) now (el_next e)\<rparr>) else (False, e))
      else if el_pending e then (True, e\<lparr>el_pending := False\<rparr>)
      else (False, e))"

text \<open>
  What happens while the lock is released for an evaluation: the time of the evaluation, the
  outside values, which evals are triggered meanwhile, and the time read after it.
\<close>

record unlocked =
  un_now :: ticks
  un_got :: "(bool \<times> dbl) list"
  un_triggered :: "nat list"
  un_after :: ticks

definition trigger_all :: "nat list \<Rightarrow> eval list \<Rightarrow> eval list" where
  "trigger_all ts es = map (\<lambda>i. if i \<in> set ts then trigger_update (es ! i) else es ! i) [0..<length es]"

text \<open>
  One pass of the loop from the eval \<open>i\<close> on: the evals evaluated, in order, the next due time of
  the periodic ones (\<open>None\<close>: \<open>INT64_MAX\<close>), and what was published. \<open>us\<close> has an entry for each evaluation.
\<close>

definition earlier :: "ticks option \<Rightarrow> eval \<Rightarrow> ticks option" where
  "earlier due e =
     (if 0 < el_period e then (case due of Some d \<Rightarrow> Some (min d (el_next e)) | None \<Rightarrow> Some (el_next e)) else due)"

function eval_pass ::
  "c_env \<Rightarrow> nat \<Rightarrow> ticks \<Rightarrow> ticks option \<Rightarrow> unlocked list \<Rightarrow> eval list \<Rightarrow>
    nat list \<times> ticks option \<times> eval list \<times> disp_req list" where
  "eval_pass m i now next_due us es =
     (if length es \<le> i then ([], next_due, es, [])
      else let (due, e) = eval_due now (es ! i); due_at = earlier next_due e in
        if due then
          let u = hd us;
              (e', rs, l) = evaluate m i (un_now u) (un_got u) e;
              (done, nd, es', rs') = eval_pass m (i + 1) (un_after u) due_at (tl us) (trigger_all (un_triggered u) (es[i := e']))
          in (i # done, nd, es', rs @ rs')
        else eval_pass m (i + 1) now due_at us (es[i := e]))"
  by pat_completeness auto

termination eval_pass
  by (relation "measure (\<lambda>(m, i, now, nd, us, es). length es - i)") (auto simp: trigger_all_def)

declare eval_pass.simps [simp del]

text \<open>What the thread does after a pass; \<open>running\<close> is read then.\<close>

datatype eval_wait = Next_pass | Wait_signal | Wait_until ticks

definition eval_thread_pass ::
  "c_env \<Rightarrow> ticks \<Rightarrow> unlocked list \<Rightarrow> bool \<Rightarrow> eval list \<Rightarrow> eval list \<times> disp_req list \<times> eval_wait" where
  "eval_thread_pass m now us running es =
     (let (ids, next_due, es', rs) = eval_pass m 0 now None us es in
      (es', rs, if ids \<noteq> [] \<or> \<not> running then Next_pass
                else case next_due of None \<Rightarrow> Wait_signal | Some t \<Rightarrow> Wait_until t))"

subsection \<open>Compiled evals\<close>

text \<open>What evaluating relies on, and keeps.\<close>

definition run_ok :: "eval \<Rightarrow> bool" where
  "run_ok e \<longleftrightarrow>
     (let n = length (el_values e) in
      n < length (el_slots e) \<and>
      (\<forall>k < n. ev_slot (el_values e ! k) = Suc k \<and> isfinite (el_slots e ! Suc k) \<and>
         set (ev_ins (el_values e ! k)) \<subseteq> {..<length (el_ins e)} \<and>
         recorded e k = {s. n < s \<and> (\<exists>w. (k, w) \<in> (own_reads e)\<^sup>* \<and> s \<in> set (reads (ev_expr (el_values e ! w))))} \<and>
         (\<forall>s \<in> set (reads (ev_expr (el_values e ! k))). s < length (el_slots e))) \<and>
      (\<forall>i \<in> set (el_ins e). n < ei_slot i \<and> ei_slot i < length (el_slots e)) \<and>
      distinct (map ei_slot (el_ins e)))"

lemma run_okD:
  assumes "run_ok e"
  shows "length (el_values e) < length (el_slots e)"
    "k < length (el_values e) \<Longrightarrow> ev_slot (el_values e ! k) = Suc k"
    "k < length (el_values e) \<Longrightarrow> isfinite (el_slots e ! Suc k)"
    "k < length (el_values e) \<Longrightarrow> set (ev_ins (el_values e ! k)) \<subseteq> {..<length (el_ins e)}"
    "k < length (el_values e) \<Longrightarrow> recorded e k =
       {s. length (el_values e) < s \<and> (\<exists>w. (k, w) \<in> (own_reads e)\<^sup>* \<and> s \<in> set (reads (ev_expr (el_values e ! w))))}"
    "k < length (el_values e) \<Longrightarrow> s \<in> set (reads (ev_expr (el_values e ! k))) \<Longrightarrow> s < length (el_slots e)"
    "i \<in> set (el_ins e) \<Longrightarrow> length (el_values e) < ei_slot i \<and> ei_slot i < length (el_slots e)"
    "distinct (map ei_slot (el_ins e))"
  using assms unfolding run_ok_def Let_def by blast+

lemma dep_ok_distinct:
  assumes "dep_ok n K ins cands"
  shows "distinct (map ei_slot ins)" "i \<in> set ins \<Longrightarrow> n < ei_slot i \<and> ei_slot i \<le> n + K"
proof -
  note each = assms [unfolded dep_ok_def, THEN conjunct2, THEN conjunct1, rule_format]
  show "distinct (map ei_slot ins)"
    unfolding distinct_conv_nth
  proof (intro allI impI)
    fix i j assume ij: "i < length (map ei_slot ins)" "j < length (map ei_slot ins)" "i \<noteq> j"
    then have "cands ! ei_disp (ins ! i) = Some i" "cands ! ei_disp (ins ! j) = Some j"
      "ei_slot (ins ! i) = 1 + n + ei_disp (ins ! i)" "ei_slot (ins ! j) = 1 + n + ei_disp (ins ! j)"
      using each by simp_all
    then show "map ei_slot ins ! i \<noteq> map ei_slot ins ! j" using ij by auto
  qed
  show "n < ei_slot i \<and> ei_slot i \<le> n + K" if i: "i \<in> set ins"
  proof -
    obtain j where j: "j < length ins" "ins ! j = i" using i by (auto simp: in_set_conv_nth)
    show ?thesis using each [OF j(1)] unfolding j(2) by linarith
  qed
qed

lemma compile_run_ok:
  assumes "compile_eval m ds e = Some (Inr e')"
    and "\<forall>v \<in> set (el_values e). ev_refs v = [] \<and> ev_ins v = [] \<and> isfinite (ev_init_value v)"
  shows "run_ok e'"
proof -
  have a: "\<forall>v \<in> set (el_values e). ev_refs v = [] \<and> ev_ins v = []" using assms(2) by blast
  note f = compile_eval_facts [OF assms(1) a]
  obtain cands where d: "dep_ok (length (el_values e)) (length ds) (el_ins e') cands" using f(3) by blast
  have slot: "isfinite (el_slots e' ! Suc k)" if "k < length (el_values e)" for k
    using assms(2) that nth_mem [OF that] by (simp add: f(5) nth_append)
  have bound: "s < length (el_slots e')" if "k < length (el_values e)" "s \<in> set (reads (ev_expr (el_values e' ! k)))" for k s
    using f(2) [OF that(1)] that(2) eval_reads_bound [of m "el_values e" ds "ev_expr (el_values e' ! k)" s]
    by (auto simp: f(5))
  have ins: "length (el_values e) < ei_slot i \<and> ei_slot i < length (el_slots e')" if "i \<in> set (el_ins e')" for i
    using dep_ok_distinct(2) [OF d that] by (simp add: f(5))
  show ?thesis
    unfolding run_ok_def Let_def f(1)
  proof (intro conjI allI impI ballI)
    show "length (el_values e) < length (el_slots e')" by (simp add: f(5))
    show "distinct (map ei_slot (el_ins e'))" by (rule dep_ok_distinct(1) [OF d])
    fix i assume "i \<in> set (el_ins e')"
    then show "length (el_values e) < ei_slot i" "ei_slot i < length (el_slots e')" using ins by blast+
  next
    fix k assume k: "k < length (el_values e)"
    show "ev_slot (el_values e' ! k) = Suc k" "set (ev_ins (el_values e' ! k)) \<subseteq> {..<length (el_ins e')}"
      using f(2) [OF k] by simp_all
    show "isfinite (el_slots e' ! Suc k)" by (rule slot [OF k])
    show "recorded e' k = {s. length (el_values e) < s \<and> (\<exists>w. (k, w) \<in> (own_reads e')\<^sup>* \<and> s \<in> set (reads (ev_expr (el_values e' ! w))))}"
      by (rule f(4) [OF k])
    fix s assume "s \<in> set (reads (ev_expr (el_values e' ! k)))"
    then show "s < length (el_slots e')" by (rule bound [OF k])
  qed
qed

text \<open>Evaluating a value changes only its state, and only its slot and that of \<open>dt\<close>.\<close>

definition same_static :: "eval_val \<Rightarrow> eval_val \<Rightarrow> bool" where
  "same_static v v' \<longleftrightarrow> ev_expr v' = ev_expr v \<and> ev_slot v' = ev_slot v \<and> ev_ins v' = ev_ins v \<and> ev_disp v' = ev_disp v"

lemma eval_value_static: "same_static v (fst (eval_value m now ins v slots))"
  by (auto simp: eval_value_def log_finite_def same_static_def Let_def)

lemma eval_values_static: "list_all2 same_static vs (fst (eval_values m now ins vs slots))"
proof (induction vs arbitrary: slots)
  case (Cons v vs)
  then show ?case using eval_value_static [of v m now ins slots]
    by (auto simp: Let_def case_prod_beta)
qed simp

lemma eval_value_slots:
  "slots' = fst (snd (eval_value m now ins v slots)) \<Longrightarrow>
    slots' = (let s1 = slots[0 := value_dt now v]; r = te_eval m s1 (ev_expr v) in if isfinite r then s1[ev_slot v := r] else s1)"
  by (simp add: eval_value_def log_finite_def Let_def)

lemma eval_values_length: "length (fst (snd (eval_values m now ins vs slots))) = length slots"
proof (induction vs arbitrary: slots)
  case (Cons v vs)
  have "length (fst (snd (eval_value m now ins v slots))) = length slots"
    by (simp add: eval_value_def log_finite_def Let_def)
  then show ?case using Cons by (simp add: Let_def case_prod_beta)
qed simp

lemma eval_values_finite:
  "(\<And>s. s \<in> S \<Longrightarrow> isfinite (slots ! s)) \<Longrightarrow> 0 \<notin> S \<Longrightarrow> S \<subseteq> {..<length slots} \<Longrightarrow> s \<in> S \<Longrightarrow>
    isfinite (fst (snd (eval_values m now ins vs slots)) ! s)"
proof (induction vs arbitrary: slots)
  case (Cons v vs)
  define s1 where "s1 = fst (snd (eval_value m now ins v slots))"
  have s1: "s1 = (let s1 = slots[0 := value_dt now v]; r = te_eval m s1 (ev_expr v) in
      if isfinite r then s1[ev_slot v := r] else s1)" unfolding s1_def by (rule eval_value_slots) simp
  have len: "length s1 = length slots" by (simp add: s1 Let_def)
  have fin: "isfinite (s1 ! t)" if t: "t \<in> S" for t
  proof -
    have "t \<noteq> 0" "t < length slots" "isfinite (slots ! t)" using t Cons.prems(1-3) by (metis, blast, blast)
    then show ?thesis by (cases "t = ev_slot v") (simp_all add: s1 Let_def)
  qed
  have "isfinite (fst (snd (eval_values m now ins vs s1)) ! s)"
    using Cons.IH [of s1] fin Cons.prems(2-4) len by simp
  then show ?case by (simp add: Let_def case_prod_beta s1_def)
qed simp

lemma refresh_slots_length [simp]: "length (refresh_slots ins got slots) = length slots"
proof -
  have "length (fold (\<lambda>(i, g) s. s[ei_slot i := snd g]) xs slots) = length slots" for xs
    by (induction xs arbitrary: slots) auto
  then show ?thesis by (simp add: refresh_slots_def)
qed

lemma refresh_slots_other: "s \<notin> ei_slot ` set ins \<Longrightarrow> refresh_slots ins got slots ! s = slots ! s"
  unfolding refresh_slots_def
proof (induction ins got arbitrary: slots rule: list_induct2')
  case (4 i ins g got)
  then show ?case by simp
qed simp_all

lemma refresh_slots_own:
  assumes "distinct (map ei_slot ins)" "length got = length ins" "j < length ins" "ei_slot (ins ! j) < length slots"
  shows "refresh_slots ins got slots ! ei_slot (ins ! j) = snd (got ! j)"
  using assms
proof (induction ins got arbitrary: slots j rule: list_induct2')
  case (4 i ins g got)
  show ?case
  proof (cases j)
    case 0
    then show ?thesis
      using 4 refresh_slots_other [of "ei_slot i" ins got "slots[ei_slot i := snd g]"]
      by (auto simp: refresh_slots_def)
  next
    case (Suc j')
    then show ?thesis using 4 by (simp add: refresh_slots_def)
  qed
qed simp_all

lemma refresh_ins [simp]:
  "length got = length ins \<Longrightarrow> map ei_slot (refresh ins got) = map ei_slot ins"
  "length got = length ins \<Longrightarrow> length (refresh ins got) = length ins"
  "length got = length ins \<Longrightarrow> j < length ins \<Longrightarrow> ei_slot (refresh ins got ! j) = ei_slot (ins ! j)"
  "length got = length ins \<Longrightarrow> j < length ins \<Longrightarrow> ei_valid (refresh ins got ! j) = fst (got ! j)"
  by (auto simp: refresh_def intro: nth_equalityI)

text \<open>An evaluation in its parts.\<close>

lemma evaluate_parts:
  assumes "evaluate m self now got e = (e', rs, l)"
  defines "ins \<equiv> refresh (el_ins e) got" and "s0 \<equiv> refresh_slots (el_ins e) got (el_slots e)"
  shows "el_ins e' = ins" "el_values e' = fst (eval_values m now ins (el_values e) s0)"
    "el_slots e' = fst (snd (eval_values m now ins (el_values e) s0))" "rs = publish self (el_values e') (el_slots e')"
  using assms by (auto simp: evaluate_def Let_def split: prod.splits)

lemma static_same:
  assumes "list_all2 same_static (el_values e) (el_values e')" "map ei_slot (el_ins e') = map ei_slot (el_ins e)"
    and "\<forall>k < length (el_values e). set (ev_ins (el_values e ! k)) \<subseteq> {..<length (el_ins e)}"
  shows "length (el_values e') = length (el_values e)" "own_reads e' = own_reads e"
    and "k < length (el_values e) \<Longrightarrow> recorded e' k = recorded e k"
    and "k < length (el_values e) \<Longrightarrow> same_static (el_values e ! k) (el_values e' ! k)"
proof -
  show len: "length (el_values e') = length (el_values e)" using assms(1) by (simp add: list_all2_lengthD)
  show st: "same_static (el_values e ! k) (el_values e' ! k)" if "k < length (el_values e)" for k
    using assms(1) that by (simp add: list_all2_nthD)
  show "own_reads e' = own_reads e"
    using st unfolding own_reads_def len by (auto simp: same_static_def)
  show "recorded e' k = recorded e k" if k: "k < length (el_values e)"
  proof -
    have slot: "ei_slot (el_ins e' ! j) = ei_slot (el_ins e ! j)" if "j < length (el_ins e)" for j
      using arg_cong [OF assms(2), of "\<lambda>xs. xs ! j"] arg_cong [OF assms(2), of length] that by simp
    have "ev_ins (el_values e' ! k) = ev_ins (el_values e ! k)" using st [OF k] by (simp add: same_static_def)
    moreover have "j < length (el_ins e)" if "j \<in> set (ev_ins (el_values e ! k))" for j
      using assms(3) k that by blast
    ultimately show ?thesis using slot by (simp add: recorded_def in_slots_def cong: image_cong)
  qed
qed

lemma evaluate_static:
  assumes "evaluate m self now got e = (e', rs, l)" "length got = length (el_ins e)"
  shows "list_all2 same_static (el_values e) (el_values e')" "map ei_slot (el_ins e') = map ei_slot (el_ins e)"
    "length (el_slots e') = length (el_slots e)"
  using evaluate_parts [OF assms(1)] assms(2) eval_values_static by (simp_all add: eval_values_length)

lemma evaluate_run_ok:
  assumes "evaluate m self now got e = (e', rs, l)" "length got = length (el_ins e)" "run_ok e"
  shows "run_ok e'"
proof -
  define n where "n = length (el_values e)"
  note r = run_okD [OF assms(3), folded n_def]
  note st = evaluate_static [OF assms(1,2)]
  have ins: "\<forall>k < length (el_values e). set (ev_ins (el_values e ! k)) \<subseteq> {..<length (el_ins e)}"
    using r(4) by (simp add: n_def)
  note same = static_same [OF st(1,2) ins, folded n_def]
  note parts = evaluate_parts [OF assms(1)]
  have slots: "ei_slot ` set (el_ins e') = ei_slot ` set (el_ins e)"
    using st(2) by (metis list.set_map)
  define S where "S = Suc ` {..<n}"
  have fin: "isfinite (el_slots e' ! Suc k)" if "k < n" for k
    unfolding parts(3)
  proof (rule eval_values_finite [where S = S])
    show "isfinite (refresh_slots (el_ins e) got (el_slots e) ! s)" if "s \<in> S" for s
    proof -
      have "s \<notin> ei_slot ` set (el_ins e)" using that r(7) by (force simp: S_def)
      then show ?thesis using that r(3) by (auto simp: refresh_slots_other S_def)
    qed
    show "S \<subseteq> {..<length (refresh_slots (el_ins e) got (el_slots e))}" using r(1) by (auto simp: S_def)
  qed (use that in \<open>auto simp: S_def\<close>)
  have w: "w < n" if "(k, w) \<in> (own_reads e)\<^sup>*" "k < n" for k w
    using that by (induction rule: rtrancl_induct) (auto simp: own_reads_def n_def)
  have rd: "reads (ev_expr (el_values e' ! k)) = reads (ev_expr (el_values e ! k))" if "k < n" for k
    using same(4) [OF that] by (simp add: same_static_def)
  have rec: "recorded e' k = {s. n < s \<and> (\<exists>w. (k, w) \<in> (own_reads e')\<^sup>* \<and> s \<in> set (reads (ev_expr (el_values e' ! w))))}"
    if "k < n" for k
  proof -
    have "recorded e' k = {s. n < s \<and> (\<exists>w. (k, w) \<in> (own_reads e)\<^sup>* \<and> s \<in> set (reads (ev_expr (el_values e ! w))))}"
      unfolding same(3) [OF that] by (rule r(5) [OF that])
    then show ?thesis unfolding same(2) using w [OF _ that] rd by auto
  qed
  show ?thesis
    unfolding run_ok_def Let_def same(1) st(3)
  proof (intro conjI allI impI ballI)
    show "n < length (el_slots e)" by (rule r(1))
    show "distinct (map ei_slot (el_ins e'))" unfolding st(2) by (rule r(8))
    fix i assume "i \<in> set (el_ins e')"
    then have "ei_slot i \<in> ei_slot ` set (el_ins e)" unfolding slots [symmetric] by simp
    then show "n < ei_slot i" "ei_slot i < length (el_slots e)" using r(7) by auto
  next
    fix k assume k: "k < n"
    have len: "length (el_ins e') = length (el_ins e)" using st(2) by (metis length_map)
    show "ev_slot (el_values e' ! k) = Suc k" "set (ev_ins (el_values e' ! k)) \<subseteq> {..<length (el_ins e')}"
      using same(4) [OF k] r(2,4) [OF k] unfolding len same_static_def by simp_all
    show "isfinite (el_slots e' ! Suc k)" by (rule fin [OF k])
    show "recorded e' k = {s. n < s \<and> (\<exists>w. (k, w) \<in> (own_reads e')\<^sup>* \<and> s \<in> set (reads (ev_expr (el_values e' ! w))))}"
      by (rule rec [OF k])
    fix s assume "s \<in> set (reads (ev_expr (el_values e' ! k)))"
    then show "s < length (el_slots e)" unfolding rd [OF k] by (rule r(6) [OF k])
  qed
qed

subsection \<open>What is published\<close>

lemma eval_value_other:
  assumes "s \<noteq> 0" "s \<noteq> ev_slot v"
  shows "fst (snd (eval_value m now ins v slots)) ! s = slots ! s"
  using assms by (simp add: eval_value_def Let_def log_finite_def)

lemma eval_values_other:
  "s \<noteq> 0 \<Longrightarrow> s \<notin> ev_slot ` set vs \<Longrightarrow> fst (snd (eval_values m now ins vs slots)) ! s = slots ! s"
  by (induction vs arbitrary: slots) (simp_all add: Let_def case_prod_beta eval_value_other)

text \<open>The result of the expression of the value \<open>k\<close>: the values before it are evaluated first.\<close>

definition result_in :: "c_env \<Rightarrow> ticks \<Rightarrow> eval_in list \<Rightarrow> eval_val list \<Rightarrow> dbl list \<Rightarrow> nat \<Rightarrow> dbl" where
  "result_in m now ins vs slots k =
     te_eval m ((fst (snd (eval_values m now ins (take k vs) slots)))[0 := value_dt now (vs ! k)]) (ev_expr (vs ! k))"

definition value_result :: "c_env \<Rightarrow> ticks \<Rightarrow> (bool \<times> dbl) list \<Rightarrow> eval \<Rightarrow> nat \<Rightarrow> dbl" where
  "value_result m now got e k =
     result_in m now (refresh (el_ins e) got) (el_values e) (refresh_slots (el_ins e) got (el_slots e)) k"

lemma eval_values_result:
  fixes m :: c_env and now :: ticks and ins :: "eval_in list"
  assumes "i < length vs" "\<And>i. i < length vs \<Longrightarrow> ev_slot (vs ! i) = Suc (k + i)" "k + length vs < length slots"
  defines "r \<equiv> result_in m now ins vs slots i"
  shows "fst (snd (eval_values m now ins vs slots)) ! Suc (k + i) = (if isfinite r then r else slots ! Suc (k + i)) \<and>
    (ev_valid (fst (eval_values m now ins vs slots) ! i) \<longleftrightarrow> isfinite r \<and> (\<forall>j \<in> set (ev_ins (vs ! i)). ei_valid (ins ! j)))"
  using assms(1-3) unfolding r_def
proof (induction vs arbitrary: i k slots)
  case (Cons v vs)
  define s1 where "s1 = fst (snd (eval_value m now ins v slots))"
  have slot: "ev_slot v = Suc k" using Cons.prems(2) [of 0] by simp
  have slots: "ev_slot (vs ! i) = Suc (Suc k + i)" if "i < length vs" for i using Cons.prems(2) [of "Suc i"] that by simp
  show ?case
  proof (cases i)
    case 0
    have "Suc k \<notin> ev_slot ` set vs" using slots by (auto simp: in_set_conv_nth)
    then have rest: "fst (snd (eval_values m now ins vs s1)) ! Suc k = s1 ! Suc k" by (rule eval_values_other [rotated]) simp
    have "s1 ! Suc k = (let r = te_eval m (slots[0 := value_dt now v]) (ev_expr v) in if isfinite r then r else slots ! Suc k)"
      using eval_value_slots [OF s1_def] slot Cons.prems(3) by (simp add: Let_def)
    moreover have "ev_valid (fst (eval_value m now ins v slots)) \<longleftrightarrow> isfinite (te_eval m (slots[0 := value_dt now v]) (ev_expr v)) \<and>
        (\<forall>j \<in> set (ev_ins v). ei_valid (ins ! j))"
      by (auto simp: eval_value_def log_finite_def Let_def list_all_iff)
    ultimately show ?thesis using 0 rest by (simp add: Let_def case_prod_beta s1_def result_in_def)
  next
    case (Suc i')
    have len: "length s1 = length slots" by (simp add: s1_def eval_value_def log_finite_def Let_def)
    have keep: "s1 ! Suc (Suc k + i') = slots ! Suc (Suc k + i')" unfolding s1_def by (rule eval_value_other) (simp_all add: slot)
    have "result_in m now ins (v # vs) slots i = result_in m now ins vs s1 i'"
      using Suc by (simp add: result_in_def Let_def case_prod_beta s1_def)
    then show ?thesis
      using Cons.IH [of i' "Suc k" s1] Cons.prems slots len keep Suc by (simp add: Let_def case_prod_beta s1_def)
  qed
qed simp

text \<open>The same of an evaluation.\<close>

lemma evaluate_result:
  assumes "evaluate m self now got e = (e', rs, l)" "length got = length (el_ins e)" "run_ok e" "k < length (el_values e)"
  defines "r \<equiv> value_result m now got e k"
  shows "el_slots e' ! Suc k = (if isfinite r then r else el_slots e ! Suc k)"
    and "ev_valid (el_values e' ! k) \<longleftrightarrow> isfinite r \<and> (\<forall>j \<in> set (ev_ins (el_values e ! k)). fst (got ! j))"
proof -
  let ?ins = "refresh (el_ins e) got" and ?slots = "refresh_slots (el_ins e) got (el_slots e)"
  note ok = run_okD [OF assms(3)]
  note parts = evaluate_parts [OF assms(1)]
  have "Suc k \<notin> ei_slot ` set (el_ins e)" using ok(7) assms(4) by fastforce
  then have "?slots ! Suc k = el_slots e ! Suc k" by (rule refresh_slots_other)
  moreover have "ei_valid (?ins ! j) = fst (got ! j)" if "j \<in> set (ev_ins (el_values e ! k))" for j
    using ok(4) [OF assms(4)] that assms(2) by auto
  moreover have "el_slots e' ! Suc (0 + k) = (if isfinite r then r else ?slots ! Suc (0 + k)) \<and>
      (ev_valid (el_values e' ! k) \<longleftrightarrow> isfinite r \<and> (\<forall>j \<in> set (ev_ins (el_values e ! k)). ei_valid (?ins ! j)))"
    unfolding parts(2,3) r_def value_result_def
    by (rule eval_values_result [OF assms(4)]) (use ok(1,2) in simp_all)
  ultimately show "el_slots e' ! Suc k = (if isfinite r then r else el_slots e ! Suc k)"
    "ev_valid (el_values e' ! k) \<longleftrightarrow> isfinite r \<and> (\<forall>j \<in> set (ev_ins (el_values e ! k)). fst (got ! j))"
    by simp_all
qed

text \<open>
  C25. What an eval publishes is always a number, and is marked valid only if it may be trusted: the value
  published is the result of its expression if that is finite, and its previous number otherwise, so that
  every published value is finite; and it is published as valid exactly if the result was finite and every
  outside value recorded as one it depends on was valid when it was read for this evaluation. All that
  evaluation relies on is kept.
\<close>

theorem published_values_sound:
  assumes "evaluate m self now got e = (e', rs, l)" "length got = length (el_ins e)" "run_ok e"
    and "Disp d src f valid \<in> set rs"
  shows "run_ok e' \<and> isfinite f \<and> src = Some (EvalRef self) \<and>
    (\<exists>k < length (el_values e'). ev_disp (el_values e' ! k) = Some d \<and> f = el_slots e' ! Suc k \<and>
      f = (if isfinite (value_result m now got e k) then value_result m now got e k else el_slots e ! Suc k) \<and>
      (valid \<longleftrightarrow> isfinite (value_result m now got e k) \<and> (\<forall>j \<in> set (ev_ins (el_values e' ! k)). fst (got ! j))))"
proof -
  note parts = evaluate_parts [OF assms(1)]
  note st = evaluate_static [OF assms(1,2)]
  have ok: "run_ok e'" by (rule evaluate_run_ok [OF assms(1-3)])
  obtain v where v: "v \<in> set (el_values e')" "ev_disp v = Some d" "f = el_slots e' ! ev_slot v" "valid = ev_valid v"
    "src = Some (EvalRef self)"
    using assms(4) unfolding parts(4) publish_def by (auto split: option.splits)
  obtain k where k: "k < length (el_values e')" "v = el_values e' ! k" using v(1) by (auto simp: in_set_conv_nth)
  have len: "k < length (el_values e)" using st(1) k(1) by (simp add: list_all2_lengthD)
  have stk: "ev_ins (el_values e ! k) = ev_ins (el_values e' ! k)"
    using list_all2_nthD [OF st(1) len] by (simp add: same_static_def)
  have f: "f = el_slots e' ! Suc k" using v(3) run_okD(2) [OF ok k(1)] k(2) by simp
  let ?r = "value_result m now got e k"
  have num: "f = (if isfinite ?r then ?r else el_slots e ! Suc k)" unfolding f by (rule evaluate_result(1) [OF assms(1-3) len])
  have valid: "valid \<longleftrightarrow> isfinite ?r \<and> (\<forall>j \<in> set (ev_ins (el_values e' ! k)). fst (got ! j))"
    using evaluate_result(2) [OF assms(1-3) len] unfolding v(4) k(2) stk .
  have "isfinite f" unfolding f by (rule run_okD(3) [OF ok k(1)])
  then show ?thesis using ok v(2,5) k f num valid by blast
qed

text \<open>An eval with a switch and a value that reads another outside value.\<close>

definition example_pump :: eval where
  "example_pump = \<lparr>el_name = ''pump'', el_period = 0,
     el_values = [(example_eval_val ''on'' ''hyst(on, t, 2, 1)'')\<lparr>ev_local := False, ev_disp := Some 2\<rparr>,
                  example_eval_val ''lim'' ''if(on, t, u)''],
     el_ins = [], el_triggers = [], el_explicit_triggers = False, el_slots = [], el_pending = False, el_next = 0\<rparr>"

definition compiled_pump :: eval where
  "compiled_pump = (case compile_eval example_env [new_dnode ''t'', new_dnode ''u'', new_dnode ''on''] example_pump of
     Some (Inr e) \<Rightarrow> e | _ \<Rightarrow> example_pump)"

lemma compiled_pump: "run_ok compiled_pump" "length (el_values compiled_pump) = 2" "length (el_ins compiled_pump) = 2"
  "ev_ins (el_values compiled_pump ! 0) = [0]"
proof -
  let ?c = "compile_eval example_env [new_dnode ''t'', new_dnode ''u'', new_dnode ''on''] example_pump"
  have "case ?c of Some (Inr e) \<Rightarrow> length (el_values e) = 2 \<and> length (el_ins e) = 2 \<and> ev_ins (el_values e ! 0) = [0] | _ \<Rightarrow> False"
    by code_simp
  then obtain e where e: "?c = Some (Inr e)" "length (el_values e) = 2" "length (el_ins e) = 2" "ev_ins (el_values e ! 0) = [0]"
    by (auto split: option.splits sum.splits)
  have p: "compiled_pump = e" by (simp add: compiled_pump_def e(1))
  have "run_ok e"
    by (rule compile_run_ok [OF e(1)]) (simp add: example_pump_def example_eval_val_def)
  then show "run_ok compiled_pump" "length (el_values compiled_pump) = 2" "length (el_ins compiled_pump) = 2"
    "ev_ins (el_values compiled_pump ! 0) = [0]" using e p by simp_all
qed

theorem published_values_sound_witness:
  "\<exists>e' f. evaluate example_env 0 100 [(True, DFin 3), (False, DNaN)] compiled_pump = (e', [Disp 2 (Some (EvalRef 0)) f True], []) \<and>
     run_ok e' \<and> isfinite f"
proof -
  have "case evaluate example_env 0 100 [(True, DFin 3), (False, DNaN)] compiled_pump of
      (e', [Disp d (Some (EvalRef 0)) f True], []) \<Rightarrow> d = 2 | _ \<Rightarrow> False"
    by code_simp
  then obtain e' f where e: "evaluate example_env 0 100 [(True, DFin 3), (False, DNaN)] compiled_pump =
      (e', [Disp 2 (Some (EvalRef 0)) f True], [])"
    by (auto split: prod.splits list.splits disp_req.splits option.splits val_ref.splits bool.splits nat.splits)
  have "run_ok e' \<and> isfinite f" using published_values_sound [OF e _ compiled_pump(1), of 2 "Some (EvalRef 0)" f True]
    by (simp add: compiled_pump(3))
  then show ?thesis using e by blast
qed

subsection \<open>What a value depends on\<close>

lemma update_agree: "length xs = length ys \<Longrightarrow> xs ! s = ys ! s \<Longrightarrow> xs[k := x] ! s = ys[k := x] ! s"
  by (cases "s = k"; cases "k < length xs") (simp_all add: list_update_beyond)

lemma update_first_agree: "length xs = length ys \<Longrightarrow> s = 0 \<or> xs ! s = ys ! s \<Longrightarrow> xs[0 := x] ! s = ys[0 := x] ! s"
  by (cases xs; cases ys; cases s) simp_all

lemma eval_value_agree:
  assumes "\<forall>s \<in> T. slots1 ! s = slots2 ! s" "length slots1 = length slots2"
    and "set (reads (ev_expr v)) \<subseteq> insert 0 T" "\<forall>j \<in> set (ev_ins v). ei_valid (ins1 ! j) = ei_valid (ins2 ! j)"
  shows "fst (eval_value m now ins1 v slots1) = fst (eval_value m now ins2 v slots2)"
    and "\<forall>s \<in> T. fst (snd (eval_value m now ins1 v slots1)) ! s = fst (snd (eval_value m now ins2 v slots2)) ! s"
proof -
  have t: "te_eval m (slots1[0 := value_dt now v]) (ev_expr v) = te_eval m (slots2[0 := value_dt now v]) (ev_expr v)"
  proof (rule te_eval_reads)
    fix s assume "s \<in> set (reads (ev_expr v))"
    then have "s = 0 \<or> slots1 ! s = slots2 ! s" using assms(1,3) by blast
    then show "slots1[0 := value_dt now v] ! s = slots2[0 := value_dt now v] ! s"
      using update_first_agree [OF assms(2)] by blast
  qed
  have valid: "list_all (\<lambda>i. ei_valid (ins1 ! i)) (ev_ins v) = list_all (\<lambda>i. ei_valid (ins2 ! i)) (ev_ins v)"
    using assms(4) by (simp add: list_all_iff)
  show "fst (eval_value m now ins1 v slots1) = fst (eval_value m now ins2 v slots2)"
    by (simp add: eval_value_def Let_def log_finite_def t valid)
  have one: "slots1[0 := a] ! s = slots2[0 := a] ! s" if "s \<in> T" for a s
    using update_agree [OF assms(2)] assms(1) that by blast
  moreover have "slots1[0 := a, k := x] ! s = slots2[0 := a, k := x] ! s" if "s \<in> T" for a k x s
    using update_agree [of "slots1[0 := a]" "slots2[0 := a]"] assms(2) one [OF that] by simp
  ultimately show "\<forall>s \<in> T. fst (snd (eval_value m now ins1 v slots1)) ! s = fst (snd (eval_value m now ins2 v slots2)) ! s"
    by (simp add: eval_value_def Let_def log_finite_def t)
qed

lemma eval_values_agree:
  assumes "list_all2 same_static vs1 vs2" "length slots1 = length slots2" "0 \<notin> T" "\<forall>s \<in> T. slots1 ! s = slots2 ! s"
    and "\<And>i. i < length vs1 \<Longrightarrow> ev_slot (vs1 ! i) = Suc (k + i)"
    and "\<And>i. i < length vs1 \<Longrightarrow> k + i \<in> W \<Longrightarrow> vs1 ! i = vs2 ! i \<and> set (reads (ev_expr (vs1 ! i))) \<subseteq> insert 0 T \<and>
      (\<forall>j \<in> set (ev_ins (vs1 ! i)). ei_valid (ins1 ! j) = ei_valid (ins2 ! j))"
    and "\<And>i. i < length vs1 \<Longrightarrow> k + i \<notin> W \<Longrightarrow> Suc (k + i) \<notin> T"
  shows "(\<forall>s \<in> T. fst (snd (eval_values m now ins1 vs1 slots1)) ! s = fst (snd (eval_values m now ins2 vs2 slots2)) ! s) \<and>
    (\<forall>i < length vs1. k + i \<in> W \<longrightarrow>
       fst (eval_values m now ins1 vs1 slots1) ! i = fst (eval_values m now ins2 vs2 slots2) ! i)"
  using assms
proof (induction vs1 vs2 arbitrary: slots1 slots2 k rule: list_all2_induct)
  case Nil
  then show ?case by simp
next
  case (Cons v1 vs1 v2 vs2)
  define t1 where "t1 = fst (snd (eval_value m now ins1 v1 slots1))"
  define t2 where "t2 = fst (snd (eval_value m now ins2 v2 slots2))"
  have slot: "ev_slot v1 = Suc k" "ev_slot v2 = Suc k"
    using Cons.prems(4) [of 0] Cons.hyps(1) by (simp_all add: same_static_def)
  have here: "(\<forall>s \<in> T. t1 ! s = t2 ! s) \<and> (k \<in> W \<longrightarrow> fst (eval_value m now ins1 v1 slots1) = fst (eval_value m now ins2 v2 slots2))"
  proof (cases "k \<in> W")
    case True
    then have v: "v1 = v2 \<and> set (reads (ev_expr v1)) \<subseteq> insert 0 T \<and> (\<forall>j \<in> set (ev_ins v1). ei_valid (ins1 ! j) = ei_valid (ins2 ! j))"
      using Cons.prems(5) [of 0] unfolding nth_Cons_0 length_Cons add_0_right by blast
    then have r: "set (reads (ev_expr v1)) \<subseteq> insert 0 T"
      and j: "\<forall>j \<in> set (ev_ins v1). ei_valid (ins1 ! j) = ei_valid (ins2 ! j)" by blast+
    show ?thesis
      using eval_value_agree [OF Cons.prems(3,1) r j, of m now] v unfolding t1_def t2_def by metis
  next
    case False
    then have "Suc k \<notin> T" using Cons.prems(6) [of 0] by simp
    then have "t1 ! s = slots1 ! s" "t2 ! s = slots2 ! s" if "s \<in> T" for s
      using that Cons.prems(2) slot unfolding t1_def t2_def by (metis eval_value_other)+
    then show ?thesis using Cons.prems(3) False by simp
  qed
  have len: "length t1 = length t2"
    using Cons.prems(1) by (simp add: t1_def t2_def eval_value_def Let_def log_finite_def)
  have rest: "(\<forall>s \<in> T. fst (snd (eval_values m now ins1 vs1 t1)) ! s = fst (snd (eval_values m now ins2 vs2 t2)) ! s) \<and>
    (\<forall>i < length vs1. Suc k + i \<in> W \<longrightarrow> fst (eval_values m now ins1 vs1 t1) ! i = fst (eval_values m now ins2 vs2 t2) ! i)"
  proof (rule Cons.IH [OF len Cons.prems(2)])
    fix i assume i: "i < length vs1"
    show "ev_slot (vs1 ! i) = Suc (Suc k + i)" using Cons.prems(4) [of "Suc i"] i by simp
    show "Suc k + i \<in> W \<Longrightarrow> vs1 ! i = vs2 ! i \<and> set (reads (ev_expr (vs1 ! i))) \<subseteq> insert 0 T \<and>
      (\<forall>j \<in> set (ev_ins (vs1 ! i)). ei_valid (ins1 ! j) = ei_valid (ins2 ! j))"
      using Cons.prems(5) [of "Suc i"] i unfolding nth_Cons_Suc length_Cons add_Suc_right add_Suc Suc_less_eq by blast
    show "Suc k + i \<notin> W \<Longrightarrow> Suc (Suc k + i) \<notin> T" using Cons.prems(6) [of "Suc i"] i by simp
  qed (use here in simp)
  have "fst (eval_values m now ins1 (v1 # vs1) slots1) ! i = fst (eval_values m now ins2 (v2 # vs2) slots2) ! i"
    if "i < length (v1 # vs1)" "k + i \<in> W" for i
    using that here rest by (cases i) (simp_all add: Let_def case_prod_beta t1_def t2_def)
  then show ?case using rest by (simp add: Let_def case_prod_beta t1_def t2_def)
qed

text \<open>Two evals that are the same as far as the values \<open>W\<close> go.\<close>

definition agree :: "nat set \<Rightarrow> eval \<Rightarrow> eval \<Rightarrow> bool" where
  "agree W e1 e2 \<longleftrightarrow> run_ok e1 \<and> run_ok e2 \<and> list_all2 same_static (el_values e1) (el_values e2) \<and>
     map ei_slot (el_ins e1) = map ei_slot (el_ins e2) \<and> length (el_slots e1) = length (el_slots e2) \<and>
     (\<forall>w \<in> W. el_values e1 ! w = el_values e2 ! w \<and> el_slots e1 ! Suc w = el_slots e2 ! Suc w)"

text \<open>The own values that \<open>k\<close> depends on, and their outside values.\<close>

lemma recorded_closed:
  assumes "run_ok e" "k < length (el_values e)" "(k, w) \<in> (own_reads e)\<^sup>*"
  shows "w < length (el_values e)" "recorded e w \<subseteq> recorded e k"
    "set (reads (ev_expr (el_values e ! w))) \<subseteq> insert 0 (Suc ` {w. (k, w) \<in> (own_reads e)\<^sup>*} \<union> recorded e k)"
    "set (ev_ins (el_values e ! w)) \<subseteq> set (ev_ins (el_values e ! k))"
proof -
  show w: "w < length (el_values e)"
    using assms(3,2) by (induction rule: rtrancl_induct) (auto simp: own_reads_def)
  show sub: "recorded e w \<subseteq> recorded e k"
    unfolding run_okD(5) [OF assms(1) w] run_okD(5) [OF assms(1,2)] using assms(3) by (auto intro: rtrancl_trans)
  show "set (reads (ev_expr (el_values e ! w))) \<subseteq> insert 0 (Suc ` {w. (k, w) \<in> (own_reads e)\<^sup>*} \<union> recorded e k)"
  proof
    fix s assume s: "s \<in> set (reads (ev_expr (el_values e ! w)))"
    show "s \<in> insert 0 (Suc ` {w. (k, w) \<in> (own_reads e)\<^sup>*} \<union> recorded e k)"
    proof (cases "s = 0 \<or> length (el_values e) < s")
      case True
      then show ?thesis unfolding run_okD(5) [OF assms(1,2)] using s assms(3) by auto
    next
      case False
      then obtain b where b: "s = Suc b" "b < length (el_values e)" by (cases s) auto
      have "(k, b) \<in> (own_reads e)\<^sup>*"
      proof (cases "w = b")
        case False
        then have "(w, b) \<in> own_reads e" using s b w by (simp add: own_reads_def)
        then show ?thesis using assms(3) by simp
      qed (use assms(3) in simp)
      then show ?thesis using b by blast
    qed
  qed
  show "set (ev_ins (el_values e ! w)) \<subseteq> set (ev_ins (el_values e ! k))"
  proof
    fix j assume j: "j \<in> set (ev_ins (el_values e ! w))"
    then have "ei_slot (el_ins e ! j) \<in> recorded e k" using sub by (auto simp: recorded_def in_slots_def)
    then obtain j' where j': "j' \<in> set (ev_ins (el_values e ! k))" "ei_slot (el_ins e ! j) = ei_slot (el_ins e ! j')"
      by (auto simp: recorded_def in_slots_def)
    have "j < length (el_ins e)" "j' < length (el_ins e)"
      using run_okD(4) [OF assms(1) w] run_okD(4) [OF assms(1,2)] j j'(1) by auto
    then have "j = j'" using run_okD(8) [OF assms(1)] j'(2) by (simp add: nth_eq_iff_index_eq [symmetric])
    then show "j \<in> set (ev_ins (el_values e ! k))" using j'(1) by simp
  qed
qed

lemma evaluate_agree:
  assumes "agree W e1 e2" "k < length (el_values e1)" "W = {w. (k, w) \<in> (own_reads e1)\<^sup>*}"
    and "length got1 = length (el_ins e1)" "length got2 = length (el_ins e1)"
    and "\<forall>j \<in> set (ev_ins (el_values e1 ! k)). got1 ! j = got2 ! j"
  shows "agree W (fst (evaluate m self now got1 e1)) (fst (evaluate m self now got2 e2))"
proof -
  note ok = assms(1) [unfolded agree_def]
  have ok1: "run_ok e1" and ok2: "run_ok e2" and st: "list_all2 same_static (el_values e1) (el_values e2)"
    and slots: "map ei_slot (el_ins e1) = map ei_slot (el_ins e2)" and ls: "length (el_slots e1) = length (el_slots e2)"
    using ok by blast+
  have li: "length (el_ins e1) = length (el_ins e2)" using slots by (metis length_map)
  have lg2: "length got2 = length (el_ins e2)" using assms(5) li by simp
  have sl: "ei_slot (el_ins e2 ! j) = ei_slot (el_ins e1 ! j)" if "j < length (el_ins e1)" for j
    using arg_cong [OF slots, of "\<lambda>xs. xs ! j"] that li by simp
  obtain f1 rs1 l1 f2 rs2 l2 where f: "evaluate m self now got1 e1 = (f1, rs1, l1)" "evaluate m self now got2 e2 = (f2, rs2, l2)"
    by (metis prod_cases3)
  note p1 = evaluate_parts [OF f(1)]
  note p2 = evaluate_parts [OF f(2)]
  note s1 = evaluate_static [OF f(1) assms(4)]
  note s2 = evaluate_static [OF f(2) lg2]
  define T where "T = Suc ` W \<union> recorded e1 k"
  note cl = recorded_closed [OF ok1 assms(2), folded assms(3)]
  have Wlt: "w < length (el_values e1)" if "w \<in> W" for w
    using cl(1) that unfolding assms(3) by blast
  have rec: "\<exists>j \<in> set (ev_ins (el_values e1 ! k)). j < length (el_ins e1) \<and> s = ei_slot (el_ins e1 ! j)" if "s \<in> recorded e1 k" for s
    using that run_okD(4) [OF ok1 assms(2)] by (auto simp: recorded_def in_slots_def)
  have big: "length (el_values e1) < s" if "s \<in> recorded e1 k" for s
    using that unfolding run_okD(5) [OF ok1 assms(2)] by blast
  have start: "refresh_slots (el_ins e1) got1 (el_slots e1) ! s = refresh_slots (el_ins e2) got2 (el_slots e2) ! s" if "s \<in> T" for s
    using that unfolding T_def
  proof
    assume "s \<in> Suc ` W"
    then obtain w where w: "w \<in> W" "s = Suc w" by blast
    then have "s \<le> length (el_values e1)" using Wlt [OF w(1)] by simp
    then have n1: "s \<notin> ei_slot ` set (el_ins e1)" using run_okD(7) [OF ok1] by force
    have "s \<notin> ei_slot ` set (el_ins e2)" using n1 slots by (metis list.set_map)
    then show ?thesis using n1 w ok by (simp add: refresh_slots_other)
  next
    assume "s \<in> recorded e1 k"
    then obtain j where j: "j \<in> set (ev_ins (el_values e1 ! k))" "j < length (el_ins e1)" "s = ei_slot (el_ins e1 ! j)"
      using rec by blast
    have b: "ei_slot (el_ins e1 ! j) < length (el_slots e1)" using run_okD(7) [OF ok1 nth_mem [OF j(2)]] by blast
    have "refresh_slots (el_ins e1) got1 (el_slots e1) ! s = snd (got1 ! j)"
      unfolding j(3) by (rule refresh_slots_own [OF run_okD(8) [OF ok1] assms(4) j(2) b])
    moreover have "refresh_slots (el_ins e2) got2 (el_slots e2) ! ei_slot (el_ins e2 ! j) = snd (got2 ! j)"
      by (rule refresh_slots_own [OF run_okD(8) [OF ok2] lg2]) (use j(2) b sl li ls in auto)
    ultimately show ?thesis using j assms(6) sl by simp
  qed
  have res: "(\<forall>s \<in> T. el_slots f1 ! s = el_slots f2 ! s) \<and>
      (\<forall>i < length (el_values e1). 0 + i \<in> W \<longrightarrow> el_values f1 ! i = el_values f2 ! i)"
    unfolding p1(2,3) p2(2,3)
  proof (rule eval_values_agree [OF st])
    show "length (refresh_slots (el_ins e1) got1 (el_slots e1)) = length (refresh_slots (el_ins e2) got2 (el_slots e2))"
      using ls by simp
    show "0 \<notin> T" using big by (auto simp: T_def)
    show "\<forall>s \<in> T. refresh_slots (el_ins e1) got1 (el_slots e1) ! s = refresh_slots (el_ins e2) got2 (el_slots e2) ! s"
      using start by blast
    fix i assume i: "i < length (el_values e1)"
    show "ev_slot (el_values e1 ! i) = Suc (0 + i)" using run_okD(2) [OF ok1 i] by simp
    show "Suc (0 + i) \<notin> T" if "0 + i \<notin> W" using that i big by (force simp: T_def)
    assume w: "0 + i \<in> W"
    then have wk: "(k, i) \<in> (own_reads e1)\<^sup>*" by (simp add: assms(3))
    have "ei_valid (refresh (el_ins e1) got1 ! j) = ei_valid (refresh (el_ins e2) got2 ! j)"
      if "j \<in> set (ev_ins (el_values e1 ! i))" for j
    proof -
      have jk: "j \<in> set (ev_ins (el_values e1 ! k))" using cl(4) [OF wk] that by blast
      then have "j < length (el_ins e1)" using run_okD(4) [OF ok1 assms(2)] by blast
      then show ?thesis using assms(4,6) lg2 li jk by simp
    qed
    then show "el_values e1 ! i = el_values e2 ! i \<and> set (reads (ev_expr (el_values e1 ! i))) \<subseteq> insert 0 T \<and>
        (\<forall>j \<in> set (ev_ins (el_values e1 ! i)). ei_valid (refresh (el_ins e1) got1 ! j) = ei_valid (refresh (el_ins e2) got2 ! j))"
      using ok w cl(3) [OF wk] by (simp add: T_def)
  qed
  have "list_all2 same_static (el_values f1) (el_values f2)"
    using s1(1) s2(1) st by (auto simp: list_all2_conv_all_nth same_static_def)
  then show ?thesis
    unfolding agree_def f fst_conv
    using evaluate_run_ok [OF f(1) assms(4) ok1] evaluate_run_ok [OF f(2) lg2 ok2] s1(2,3) s2(2,3) slots ls res Wlt
    by (auto simp: T_def)
qed

text \<open>A history of evaluations: the time and the outside values of each.\<close>

fun evaluations :: "c_env \<Rightarrow> nat \<Rightarrow> (ticks \<times> (bool \<times> dbl) list) list \<Rightarrow> eval \<Rightarrow> eval" where
  "evaluations m self [] e = e"
| "evaluations m self ((now, got) # h) e = evaluations m self h (fst (evaluate m self now got e))"

text \<open>Two histories that differ at most in outside values \<open>k\<close> is not recorded to depend on.\<close>

definition same_inputs :: "eval \<Rightarrow> nat \<Rightarrow> (ticks \<times> (bool \<times> dbl) list) list \<Rightarrow> (ticks \<times> (bool \<times> dbl) list) list \<Rightarrow> bool" where
  "same_inputs e k = list_all2 (\<lambda>(t1, g1) (t2, g2). t1 = t2 \<and> length g1 = length (el_ins e) \<and> length g2 = length (el_ins e) \<and>
     (\<forall>j \<in> set (ev_ins (el_values e ! k)). g1 ! j = g2 ! j))"

lemma same_inputs_Cons:
  assumes "same_inputs e k ((t, g1) # h1) h2"
  obtains g2 h2' where "h2 = (t, g2) # h2'" "length g1 = length (el_ins e)" "length g2 = length (el_ins e)"
    "\<forall>j \<in> set (ev_ins (el_values e ! k)). g1 ! j = g2 ! j" "same_inputs e k h1 h2'"
  using assms unfolding same_inputs_def by (auto simp: list_all2_Cons1)

lemma same_inputs_cong:
  "length (el_ins e) = length (el_ins f) \<Longrightarrow> ev_ins (el_values e ! k) = ev_ins (el_values f ! k) \<Longrightarrow>
    same_inputs e k h1 h2 = same_inputs f k h1 h2"
  by (simp add: same_inputs_def)

lemma agree_evaluations:
  assumes "agree W e1 e2" "k < length (el_values e1)" "W = {w. (k, w) \<in> (own_reads e1)\<^sup>*}" "same_inputs e1 k h1 h2"
  shows "agree W (evaluations m self h1 e1) (evaluations m self h2 e2)"
  using assms
proof (induction h1 arbitrary: h2 e1 e2)
  case Nil
  then show ?case by (simp add: same_inputs_def)
next
  case (Cons x h1)
  obtain t g1 where x: "x = (t, g1)" by (cases x)
  obtain g2 h2' where y: "h2 = (t, g2) # h2'" and g: "length g1 = length (el_ins e1)" "length g2 = length (el_ins e1)"
    "\<forall>j \<in> set (ev_ins (el_values e1 ! k)). g1 ! j = g2 ! j" and rest: "same_inputs e1 k h1 h2'"
    using Cons.prems(4) unfolding x by (rule same_inputs_Cons)
  obtain f1 rs l where f: "evaluate m self t g1 e1 = (f1, rs, l)" by (metis prod_cases3)
  have ok: "run_ok e1" using Cons.prems(1) by (simp add: agree_def)
  note st = evaluate_static [OF f g(1)]
  have ins: "\<forall>k < length (el_values e1). set (ev_ins (el_values e1 ! k)) \<subseteq> {..<length (el_ins e1)}"
    using run_okD(4) [OF ok] by blast
  note same = static_same [OF st(1,2) ins]
  have li: "length (el_ins f1) = length (el_ins e1)" using st(2) by (metis length_map)
  have vi: "ev_ins (el_values f1 ! k) = ev_ins (el_values e1 ! k)"
    using same(4) [OF Cons.prems(2)] by (simp add: same_static_def)
  have a: "agree W f1 (fst (evaluate m self t g2 e2))"
    using evaluate_agree [OF Cons.prems(1-3) g, of m self t] f by simp
  have "agree W (evaluations m self h1 f1) (evaluations m self h2' (fst (evaluate m self t g2 e2)))"
    by (rule Cons.IH [OF a])
      (use Cons.prems(2,3) same(1,2) rest same_inputs_cong [OF li vi] in simp_all)
  then show ?case by (simp add: x y f)
qed

text \<open>
  C26. The recorded dependencies are all there are: over any sequence of evaluations, the number, the
  validity and the whole state of a value are the same whatever happens to the outside values that
  are not recorded for it, even where it reads the previous result of a value further down. So a
  value whose recorded inputs are all valid owes nothing to an invalid one.
\<close>

theorem value_depends_only_on_recorded:
  assumes "run_ok e" "k < length (el_values e)" "same_inputs e k h1 h2"
  shows "el_values (evaluations m self h1 e) ! k = el_values (evaluations m self h2 e) ! k \<and>
    el_slots (evaluations m self h1 e) ! Suc k = el_slots (evaluations m self h2 e) ! Suc k"
proof -
  have "agree {w. (k, w) \<in> (own_reads e)\<^sup>*} e e"
    using assms(1) by (auto simp: agree_def list_all2_conv_all_nth same_static_def)
  from agree_evaluations [OF this assms(2) refl assms(3)] show ?thesis by (simp add: agree_def)
qed

theorem value_depends_only_on_recorded_witness:
  "el_slots (evaluations example_env 0 [(5, [(True, DFin 3), (True, DFin 7)])] compiled_pump) ! 1 =
   el_slots (evaluations example_env 0 [(5, [(True, DFin 3), (False, DNaN)])] compiled_pump) ! 1"
proof -
  have "same_inputs compiled_pump 0 [(5, [(True, DFin 3), (True, DFin 7)])] [(5, [(True, DFin 3), (False, DNaN)])]"
    by (simp add: same_inputs_def compiled_pump)
  from value_depends_only_on_recorded [OF compiled_pump(1) _ this] show ?thesis unfolding One_nat_def by (simp only: compiled_pump(2))
qed

subsection \<open>The schedule\<close>

lemma eval_next_ticks:
  assumes "0 < period" "next \<le> now"
  shows "now < eval_next period now next" "eval_next period now next \<le> now + period"
    "period dvd eval_next period now next - next"
proof -
  have e: "eval_next period now next = next + ((now - next) div period + 1) * period"
    using assms by (simp add: eval_next_def)
  define q where "q = (now - next) div period"
  have d: "now - next = q * period + (now - next) mod period" by (simp add: q_def)
  show "now < eval_next period now next" "eval_next period now next \<le> now + period"
    using d pos_mod_bound [OF assms(1), of "now - next"] pos_mod_sign [OF assms(1), of "now - next"]
    unfolding e q_def [symmetric] distrib_right by linarith+
  show "period dvd eval_next period now next - next" unfolding e by simp
qed

interpretation eval_timer: aligned_timer eval_next "\<lambda>_. True"
proof unfold_locales
  fix period "next" now base :: int assume "0 < period" "0 \<le> next" "next \<le> now" "period dvd next - base"
  then show "period dvd eval_next period now next - base"
    using dvd_add [OF eval_next_ticks(3) [of period "next" now]] by fastforce
qed (simp_all add: eval_next_ticks)

lemma trigger_all_facts [simp]:
  "length (trigger_all ts es) = length es"
  "i < length es \<Longrightarrow> el_period (trigger_all ts es ! i) = el_period (es ! i)"
  "i < length es \<Longrightarrow> el_next (trigger_all ts es ! i) = el_next (es ! i)"
  "i < length es \<Longrightarrow> el_pending (trigger_all ts es ! i) \<longleftrightarrow> el_pending (es ! i) \<or> i \<in> set ts"
  by (simp_all add: trigger_all_def trigger_update_def)

lemma evaluate_keeps:
  "evaluate m self now got e = (e', rs, l) \<Longrightarrow> el_period e' = el_period e \<and> el_pending e' = el_pending e"
  by (auto simp: evaluate_def Let_def split: prod.splits)

lemma eval_pass_cases:
  assumes "eval_pass m j now nd us es = (ids, nd', es', rs)"
  obtains (finished) "length es \<le> j" "ids = []" "nd' = nd" "es' = es"
  | (idle) "j < length es" "eval_due now (es ! j) = (False, es ! j)"
      "eval_pass m (Suc j) now (earlier nd (es ! j)) us es = (ids, nd', es', rs)"
  | (ran) e e1 u ids1 rs1 where "j < length es" "eval_due now (es ! j) = (True, e)" "u = hd us"
      "el_period e1 = el_period e" "el_pending e1 = el_pending e"
      "eval_pass m (Suc j) (un_after u) (earlier nd e) (tl us) (trigger_all (un_triggered u) (es[j := e1])) = (ids1, nd', es', rs1)"
      "ids = j # ids1"
proof -
  obtain due e where d: "eval_due now (es ! j) = (due, e)" by force
  show thesis
  proof (cases "length es \<le> j")
    case True
    then show ?thesis using assms by (intro finished) (simp_all add: eval_pass.simps [of m j now nd us es])
  next
    case lt: False
    note un = assms [unfolded eval_pass.simps [of m j now nd us es] Let_def d prod.case, simplified lt if_False]
    show ?thesis
    proof (cases due)
      case False
      then have e: "e = es ! j" using d by (auto simp: eval_due_def split: if_splits)
      show ?thesis using lt un d False by (intro idle) (simp_all add: e)
    next
      case True
      obtain e1 rs0 l where ev: "evaluate m j (un_now (hd us)) (un_got (hd us)) e = (e1, rs0, l)" by (metis prod_cases3)
      obtain ids1 nd1 es1 rs1 where p: "eval_pass m (Suc j) (un_after (hd us)) (earlier nd e) (tl us)
          (trigger_all (un_triggered (hd us)) (es[j := e1])) = (ids1, nd1, es1, rs1)" by (metis prod_cases4)
      have r: "j # ids1 = ids" "nd1 = nd'" "es1 = es'" using True un ev p by simp_all
      show ?thesis
        by (rule ran [of e "hd us" e1 ids1 rs1]) (use lt True d p r evaluate_keeps [OF ev] in simp_all)
    qed
  qed
qed

text \<open>What a pass from the eval \<open>j\<close> on does with the pending flag of a triggered eval \<open>i\<close>.\<close>

lemma eval_pass_pending:
  assumes "eval_pass m j now nd us es = (ids, nd', es', rs)" "i < length es" "el_period (es ! i) \<le> 0" "length ids \<le> length us"
  shows "length es' = length es \<and> (el_pending (es ! i) \<longrightarrow> (if j \<le> i then i \<in> set ids else el_pending (es' ! i))) \<and>
    (\<forall>p < length ids. i \<in> set (un_triggered (us ! p)) \<longrightarrow> i \<in> set (drop (Suc p) ids) \<or> el_pending (es' ! i))"
  using assms
proof (induction "length es - j" arbitrary: j now nd us es ids rs)
  case 0
  from 0(2) show ?case by (cases rule: eval_pass_cases) (use 0 in simp_all)
next
  case (Suc n)
  from Suc.prems(1) show ?case
  proof (cases rule: eval_pass_cases)
    case finished
    then show ?thesis using Suc.hyps(2) by simp
  next
    case idle
    have "\<not> el_pending (es ! j)" if "i = j" using idle(2) Suc.prems(3) that by (auto simp: eval_due_def split: if_splits)
    moreover have "length es' = length es \<and> (el_pending (es ! i) \<longrightarrow> (if Suc j \<le> i then i \<in> set ids else el_pending (es' ! i))) \<and>
      (\<forall>p < length ids. i \<in> set (un_triggered (us ! p)) \<longrightarrow> i \<in> set (drop (Suc p) ids) \<or> el_pending (es' ! i))"
      by (rule Suc.hyps(1) [OF _ idle(3) Suc.prems(2-4)]) (use Suc.hyps(2) in simp)
    moreover have "j \<le> i \<longleftrightarrow> i = j \<or> Suc j \<le> i" by auto
    ultimately show ?thesis by auto
  next
    case (ran e e1 u ids1 rs1)
    let ?es = "trigger_all (un_triggered u) (es[j := e1])"
    have per: "el_period e = el_period (es ! j)" using ran(2) by (auto simp: eval_due_def split: if_splits)
    have nth: "el_period (?es ! i) \<le> 0" "i < length ?es"
      using Suc.prems(2,3) ran(1,4) per by (cases "i = j"; simp)+
    have pend: "el_pending (?es ! i)" if "i \<in> set (un_triggered u) \<or> (i \<noteq> j \<and> el_pending (es ! i))"
      using that Suc.prems(2) by auto
    have us: "us \<noteq> []" "length ids1 \<le> length (tl us)" using Suc.prems(4) ran(7) by (cases us; simp)+
    have ih: "length es' = length ?es \<and> (el_pending (?es ! i) \<longrightarrow> (if Suc j \<le> i then i \<in> set ids1 else el_pending (es' ! i))) \<and>
      (\<forall>p < length ids1. i \<in> set (un_triggered (tl us ! p)) \<longrightarrow> i \<in> set (drop (Suc p) ids1) \<or> el_pending (es' ! i))"
      by (rule Suc.hyps(1) [OF _ ran(6) nth(2,1) us(2)]) (use Suc.hyps(2) in simp)
    have "i \<in> set (drop (Suc p) ids) \<or> el_pending (es' ! i)"
      if p: "p < length ids" "i \<in> set (un_triggered (us ! p))" for p
    proof (cases p)
      case 0
      then have "us ! p = u" using us(1) ran(3) by (simp add: hd_conv_nth)
      then show ?thesis using ih pend p(2) 0 ran(7) by (auto split: if_splits)
    next
      case (Suc p')
      then show ?thesis using ih p ran(7) us(1) by (cases us) auto
    qed
    then show ?thesis using ih pend ran(7) by (auto split: if_splits)
  qed
qed

text \<open>A periodic eval that was due when the pass began is evaluated, as long as the clock does not go back.\<close>

lemma eval_pass_due:
  assumes "eval_pass m j now nd us es = (ids, nd', es', rs)" "i < length es" "j \<le> i" "length ids \<le> length us"
    and "0 < el_period (es ! i)" "el_next (es ! i) \<le> t" "t \<le> now" "\<forall>u \<in> set us. t \<le> un_after u"
  shows "i \<in> set ids"
  using assms
proof (induction "length es - j" arbitrary: j now nd us es ids rs)
  case 0
  then show ?case by simp
next
  case (Suc n)
  from Suc.prems(1) show ?case
  proof (cases rule: eval_pass_cases)
    case finished
    then show ?thesis using Suc.prems(2,3) by simp
  next
    case idle
    have "i \<noteq> j" using idle(2) Suc.prems(5-7) by (auto simp: eval_due_def split: if_splits)
    then show ?thesis using Suc.hyps(1) [OF _ idle(3)] Suc.hyps(2) Suc.prems(2-) by simp
  next
    case (ran e e1 u ids1 rs1)
    let ?es = "trigger_all (un_triggered u) (es[j := e1])"
    have us: "us \<noteq> []" "length ids1 \<le> length (tl us)" using Suc.prems(4) ran(7) by (cases us; simp)+
    have after: "t \<le> un_after u" "\<forall>u \<in> set (tl us). t \<le> un_after u"
      using Suc.prems(8) us(1) ran(3) by (cases us; simp)+
    have "i \<in> set ids1" if "i \<noteq> j"
    proof (rule Suc.hyps(1) [OF _ ran(6)])
      show "el_next (?es ! i) \<le> t" "0 < el_period (?es ! i)" using Suc.prems(2,5,6) that by simp_all
    qed (use Suc.hyps(2) Suc.prems(2,3) that us after in simp_all)
    then show ?thesis using ran(7) by auto
  qed
qed

text \<open>A pass that evaluates nothing found nothing to do.\<close>

lemma eval_pass_idle:
  assumes "eval_pass m j now nd us es = ([], nd', es', rs)"
  shows "es' = es \<and> (\<forall>i. j \<le> i \<longrightarrow> i < length es \<longrightarrow>
    (if 0 < el_period (es ! i) then now < el_next (es ! i) else \<not> el_pending (es ! i))) \<and>
    (\<forall>i. j \<le> i \<longrightarrow> i < length es \<longrightarrow> 0 < el_period (es ! i) \<longrightarrow> (\<exists>t. nd' = Some t \<and> t \<le> el_next (es ! i))) \<and>
    (\<forall>t. nd = Some t \<longrightarrow> (\<exists>t'. nd' = Some t' \<and> t' \<le> t))"
  using assms
proof (induction "length es - j" arbitrary: j nd rs)
  case 0
  from 0(2) show ?case by (cases rule: eval_pass_cases) (use 0 in auto)
next
  case (Suc n)
  from Suc.prems show ?case
  proof (cases rule: eval_pass_cases)
    case finished
    then show ?thesis using Suc.hyps(2) by simp
  next
    case idle
    have here: "if 0 < el_period (es ! j) then now < el_next (es ! j) else \<not> el_pending (es ! j)"
      using idle(2) by (auto simp: eval_due_def split: if_splits)
    have due: "0 < el_period (es ! j) \<longrightarrow> (\<exists>t. earlier nd (es ! j) = Some t \<and> t \<le> el_next (es ! j))"
      "\<forall>t. nd = Some t \<longrightarrow> (\<exists>t'. earlier nd (es ! j) = Some t' \<and> t' \<le> t)"
      by (auto simp: earlier_def split: option.splits)
    have ih: "es' = es" "\<forall>i. Suc j \<le> i \<longrightarrow> i < length es \<longrightarrow>
        (if 0 < el_period (es ! i) then now < el_next (es ! i) else \<not> el_pending (es ! i))"
      "\<forall>i. Suc j \<le> i \<longrightarrow> i < length es \<longrightarrow> 0 < el_period (es ! i) \<longrightarrow> (\<exists>t. nd' = Some t \<and> t \<le> el_next (es ! i))"
      "\<forall>t. earlier nd (es ! j) = Some t \<longrightarrow> (\<exists>t'. nd' = Some t' \<and> t' \<le> t)"
      using Suc.hyps(1) [OF _ idle(3)] Suc.hyps(2) by auto
    have later: "i = j \<or> Suc j \<le> i" if "j \<le> i" for i using that by auto
    have "\<exists>t. nd' = Some t \<and> t \<le> el_next (es ! j)" if "0 < el_period (es ! j)"
      using due(1) ih(4) that by fastforce
    moreover have "\<exists>t'. nd' = Some t' \<and> t' \<le> t" if "nd = Some t" for t
      using due(2) ih(4) that by fastforce
    moreover have "if 0 < el_period (es ! i) then now < el_next (es ! i) else \<not> el_pending (es ! i)"
      if "j \<le> i" "i < length es" for i
      using later [OF that(1)] here ih(2) that(2) by metis
    ultimately show ?thesis using ih(1,3) later by (intro conjI) (blast, metis, metis, blast)
  qed simp
qed

text \<open>
  C27. No trigger is lost, and the thread sleeps only when there is nothing to do. For the evals without a
  period, which run when they are triggered: a pass evaluates each that was pending when it began, one that
  is triggered while another eval is evaluated is evaluated later in the pass or is still pending after it,
  and none is pending if the thread waits after the pass. For the periodic evals, which run by the clock
  only (their pending flag is never read): a pass evaluates each that was due when it began, as long as the
  clock does not go back, and if the thread waits after the pass, each is due in the future and the wait
  ends no later than the first of them (it has no limit only if there is none).
\<close>

theorem no_trigger_lost:
  assumes "eval_thread_pass m now us running es = (es', rs, wait)" "i < length es"
    and "length (fst (eval_pass m 0 now None us es)) \<le> length us"
  shows "let ids = fst (eval_pass m 0 now None us es) in
    (el_period (es ! i) \<le> 0 \<longrightarrow> el_pending (es ! i) \<longrightarrow> i \<in> set ids) \<and>
    (el_period (es ! i) \<le> 0 \<longrightarrow> (\<forall>p < length ids. i \<in> set (un_triggered (us ! p)) \<longrightarrow>
       i \<in> set (drop (Suc p) ids) \<or> el_pending (es' ! i))) \<and>
    (0 < el_period (es ! i) \<longrightarrow> el_next (es ! i) \<le> now \<longrightarrow> (\<forall>u \<in> set us. now \<le> un_after u) \<longrightarrow> i \<in> set ids) \<and>
    (case wait of
       Next_pass \<Rightarrow> ids \<noteq> [] \<or> \<not> running
     | Wait_signal \<Rightarrow> el_period (es' ! i) \<le> 0 \<and> \<not> el_pending (es' ! i)
     | Wait_until t \<Rightarrow> if 0 < el_period (es' ! i) then now < el_next (es' ! i) \<and> t \<le> el_next (es' ! i)
         else \<not> el_pending (es' ! i))"
proof -
  obtain ids nd es1 rs1 where p: "eval_pass m 0 now None us es = (ids, nd, es1, rs1)" by (metis prod_cases4)
  have w: "es1 = es'" "wait = (if ids \<noteq> [] \<or> \<not> running then Next_pass else case nd of None \<Rightarrow> Wait_signal | Some t \<Rightarrow> Wait_until t)"
    using assms(1) p by (simp_all add: eval_thread_pass_def)
  have l: "length ids \<le> length us" using assms(3) p by simp
  have "(el_period (es ! i) \<le> 0 \<longrightarrow> el_pending (es ! i) \<longrightarrow> i \<in> set ids) \<and>
    (el_period (es ! i) \<le> 0 \<longrightarrow> (\<forall>p < length ids. i \<in> set (un_triggered (us ! p)) \<longrightarrow>
       i \<in> set (drop (Suc p) ids) \<or> el_pending (es' ! i)))"
    and idle: "ids = [] \<longrightarrow> (if 0 < el_period (es' ! i) then now < el_next (es' ! i) \<and> (\<exists>t. nd = Some t \<and> t \<le> el_next (es' ! i))
       else \<not> el_pending (es' ! i))"
    using eval_pass_pending [OF p assms(2) _ l] eval_pass_idle [of m 0 now None us es nd es1 rs1] assms(2) p w(1) by auto
  moreover have "case wait of
       Next_pass \<Rightarrow> ids \<noteq> [] \<or> \<not> running
     | Wait_signal \<Rightarrow> el_period (es' ! i) \<le> 0 \<and> \<not> el_pending (es' ! i)
     | Wait_until t \<Rightarrow> if 0 < el_period (es' ! i) then now < el_next (es' ! i) \<and> t \<le> el_next (es' ! i)
         else \<not> el_pending (es' ! i)"
    using idle unfolding w(2) by (cases "ids = [] \<and> running"; cases nd) (auto split: if_splits)
  moreover have "0 < el_period (es ! i) \<longrightarrow> el_next (es ! i) \<le> now \<longrightarrow> (\<forall>u \<in> set us. now \<le> un_after u) \<longrightarrow> i \<in> set ids"
    using eval_pass_due [OF p assms(2) le0 l] by blast
  ultimately show ?thesis using p by (simp add: Let_def)
qed

theorem no_trigger_lost_witness:
  "let us = [\<lparr>un_now = 10, un_got = [], un_triggered = [0], un_after = 12\<rparr>];
       es = [example_eval\<lparr>el_values := []\<rparr>, example_eval\<lparr>el_values := [], el_pending := True\<rparr>];
       (es', rs, wait) = eval_thread_pass example_env 10 us True es
   in fst (eval_pass example_env 0 10 None us es) = [1] \<and> wait = Next_pass \<and> el_pending (es' ! 0)"
proof -
  let ?us = "[\<lparr>un_now = 10, un_got = [], un_triggered = [0], un_after = 12\<rparr>]"
  let ?es = "[example_eval\<lparr>el_values := []\<rparr>, example_eval\<lparr>el_values := [], el_pending := True\<rparr>]"
  obtain es' rs wait where t: "eval_thread_pass example_env 10 ?us True ?es = (es', rs, wait)" by (metis prod_cases3)
  have ids: "fst (eval_pass example_env 0 10 None ?us ?es) = [1]" by code_simp
  have "case eval_thread_pass example_env 10 ?us True ?es of (x, y, w) \<Rightarrow> w = Next_pass" by code_simp
  then have "wait = Next_pass" using t by simp
  moreover have "el_pending (es' ! 0)" using no_trigger_lost [OF t, of 0] ids by (simp add: example_eval_def Let_def)
  ultimately show ?thesis using t ids by (simp only: Let_def prod.case simp_thms)
qed

end
