(* ===== verification/Number_Text.thy ===== *)
theory Number_Text
  imports CDouble Config_Parse
begin

text \<open>
  Numbers as text, as the C library reads and writes them: \<open>strtod\<close> (also used for the \<open>%lf\<close> of
  fscanf) and \<open>printf("%.<p>f")\<close>, with the lemma that a printed number is read back as the printed
  decimal fraction. The text of \<open>strtod\<close> is a C string without NUL; \<open>ERANGE\<close> is not modelled (no
  caller looks at errno).
\<close>

subsection \<open>Reading: \<open>strtod\<close>\<close>

definition to_lower :: "char \<Rightarrow> char" where
  "to_lower c = (if 65 \<le> ch c \<and> ch c \<le> 90 then char_of (nat (ch c + 32)) else c)"

definition ci_prefix :: "string \<Rightarrow> string \<Rightarrow> bool" where
  "ci_prefix p s \<longleftrightarrow> map to_lower (take (length p) s) = p"

definition nan_char :: "char \<Rightarrow> bool" where
  "nan_char c \<longleftrightarrow> digit_val c < 36 \<or> c = CHR ''_''"

text \<open>Digits with an optional decimal point: the digits as a number, how many follow the point, the rest.\<close>

definition scan_mantissa :: "int \<Rightarrow> string \<Rightarrow> int \<times> nat \<times> string" where
  "scan_mantissa base s =
     (let (i, p) = scan_digits base 0 s in
      if take 1 p = ''.'' then let (m, q) = scan_digits base i (drop 1 p) in (m, length p - 1 - length q, q)
      else (i, 0, p))"

definition starts_number :: "int \<Rightarrow> string \<Rightarrow> bool" where
  "starts_number base s \<longleftrightarrow> starts_digit base s \<or> (take 1 s = ''.'' \<and> starts_digit base (drop 1 s))"

text \<open>An optional exponent, introduced by one of the characters \<open>es\<close>.\<close>

definition scan_exponent :: "string \<Rightarrow> string \<Rightarrow> int \<times> string" where
  "scan_exponent es s =
     (let s1 = drop 1 s;
          neg = (take 1 s1 = ''-'');
          s2 = (if take 1 s1 = ''-'' \<or> take 1 s1 = ''+'' then drop 1 s1 else s1)
      in if s \<noteq> [] \<and> hd s \<in> set es \<and> starts_digit 10 s2
         then let (e, p) = scan_digits 10 0 s2 in (if neg then - e else e, p)
         else (0, s))"

definition rpow :: "rat \<Rightarrow> int \<Rightarrow> rat" where
  "rpow b e = (if 0 \<le> e then b ^ nat e else 1 / b ^ nat (- e))"

text \<open>The number after white space and sign; \<open>neg\<close> is the sign.\<close>

definition scan_number :: "bool \<Rightarrow> string \<Rightarrow> (dbl \<times> string) option" where
  "scan_number neg s =
     (let sg = (\<lambda>x. if neg then - x else x) in
      if ci_prefix ''infinity'' s then Some (DInf neg, drop 8 s)
      else if ci_prefix ''inf'' s then Some (DInf neg, drop 3 s)
      else if ci_prefix ''nan'' s then
        let s3 = drop 3 s; s4 = dropWhile nan_char (drop 1 s3) in
        Some (DNaN, if take 1 s3 = ''('' \<and> take 1 s4 = '')'' then drop 1 s4 else s3)
      else if ci_prefix ''0x'' s \<and> starts_number 16 (drop 2 s) then
        let (m, n, p) = scan_mantissa 16 (drop 2 s); (e, q) = scan_exponent ''pP'' p in
        Some (mk_dbl neg (sg (of_int m / 16 ^ n * rpow 2 e)), q)
      else if starts_number 10 s then
        let (m, n, p) = scan_mantissa 10 s; (e, q) = scan_exponent ''eE'' p in
        Some (mk_dbl neg (sg (of_int m / 10 ^ n * rpow 10 e)), q)
      else None)"

definition strtod :: "string \<Rightarrow> dbl \<times> string" where
  "strtod s =
     (let s1 = dropWhile c_isspace s in
      case (if take 1 s1 = ''-'' then scan_number True (drop 1 s1)
            else if take 1 s1 = ''+'' then scan_number False (drop 1 s1)
            else scan_number False s1) of
        Some r \<Rightarrow> r
      | None \<Rightarrow> (DFin 0, s))"

subsection \<open>Writing: \<open>printf("%.<p>f")\<close>\<close>

primrec pad :: "nat \<Rightarrow> nat \<Rightarrow> string" where
  "pad 0 m = []"
| "pad (Suc p) m = digit_char (m div 10 ^ p mod 10) # pad p m"

definition fmt_fixed :: "nat \<Rightarrow> nat \<Rightarrow> string" where
  "fmt_fixed p n = dec (n div 10 ^ p) @ (if p = 0 then [] else ''.'' @ pad p n)"

definition fmt_f :: "nat \<Rightarrow> dbl \<Rightarrow> string" where
  "fmt_f p d =
     (if isnan d then ''nan''
      else if \<not> isfinite d then (if signbit d then ''-inf'' else ''inf'')
      else (if signbit d then ''-'' else []) @ fmt_fixed p (nat (rne (\<bar>rval d\<bar> * 10 ^ p))))"

text \<open>Code equations that compute with integers instead of natural numbers.\<close>

function dec_int :: "int \<Rightarrow> string" where
  "dec_int z = (if z < 10 then [digit_char (nat z)] else dec_int (z div 10) @ [digit_char (nat (z mod 10))])"
  by pat_completeness auto

termination dec_int by (relation "measure nat") auto

declare dec_int.simps [simp del]

primrec pad_int :: "nat \<Rightarrow> int \<Rightarrow> string" where
  "pad_int 0 z = []"
| "pad_int (Suc p) z = digit_char (nat (z div 10 ^ p mod 10)) # pad_int p z"

lemma dec_int_of_nat: "dec_int (int n) = dec n"
proof (induction n rule: dec.induct)
  case (1 n)
  have "int n div 10 = int (n div 10)" "int n mod 10 = int (n mod 10)" by (simp_all add: zdiv_int zmod_int)
  then show ?case using 1 by (subst dec_int.simps, subst dec.simps) simp
qed

lemma pad_int_of_nat: "pad_int p (int n) = pad p n"
proof (induction p)
  case (Suc p)
  have "int n div 10 ^ p mod 10 = int (n div 10 ^ p mod 10)" by (simp add: zdiv_int zmod_int)
  then show ?case using Suc by simp
qed simp

lemma fmt_f_code [code]:
  "fmt_f p d =
     (if isnan d then ''nan''
      else if \<not> isfinite d then (if signbit d then ''-inf'' else ''inf'')
      else let z = rne (\<bar>rval d\<bar> * 10 ^ p) in
        (if signbit d then ''-'' else []) @ dec_int (z div 10 ^ p) @
          (if p = 0 then [] else ''.'' @ pad_int p z))"
proof -
  let ?z = "rne (\<bar>rval d\<bar> * 10 ^ p)"
  have "0 \<le> ?z" by (simp add: rne_pos)
  then obtain n where n: "?z = int n" using nonneg_int_cases by blast
  have "int n div 10 ^ p = int (n div 10 ^ p)" by (simp add: zdiv_int)
  then show ?thesis
    by (simp add: fmt_f_def fmt_fixed_def n dec_int_of_nat pad_int_of_nat)
qed

subsection \<open>Reading back a printed number\<close>

lemma length_pad [simp]: "length (pad p m) = p"
  by (induction p) simp_all

lemma pad_digit_val: "c \<in> set (pad p m) \<Longrightarrow> digit_val c < 10"
  by (induction p) (auto simp: digit_val_digit_char)

lemma mod_pow_Suc: "(m::nat) mod 10 ^ Suc p = (m div 10 ^ p mod 10) * 10 ^ p + m mod 10 ^ p"
  using mod_mult2_eq [of m "10 ^ p" 10] by (simp add: mult.commute)

lemma scan_pad: "scan_digits 10 acc (pad p m) = (acc * 10 ^ p + int (m mod 10 ^ p), [])"
proof (induction p arbitrary: acc)
  case 0
  then show ?case by simp
next
  case (Suc p)
  have "int (m mod 10 ^ Suc p) = int (m div 10 ^ p mod 10) * 10 ^ p + int (m mod 10 ^ p)"
    unfolding mod_pow_Suc by simp
  then show ?case using Suc by (simp add: digit_val_digit_char algebra_simps)
qed

lemma scan_pad_rest:
  "\<not> starts_digit 10 rest \<Longrightarrow> scan_digits 10 acc (pad p m @ rest) = (acc * 10 ^ p + int (m mod 10 ^ p), rest)"
  using scan_digits_append [of "pad p m" 10 acc rest] pad_digit_val [of _ p m] scan_pad [of acc p m]
  by (cases rest) (auto simp: starts_digit_def)

lemma scan_dec_rest:
  "\<not> starts_digit 10 rest \<Longrightarrow> scan_digits 10 0 (dec n @ rest) = (int n, rest)"
  using scan_digits_append [of "dec n" 10 0 rest] dec_digit_val [of _ n] fst_scan_dec [of n]
  by (cases rest) (auto simp: starts_digit_def)

lemma scan_mantissa_fixed:
  assumes "\<not> starts_digit 10 rest" "p = 0 \<longrightarrow> take 1 rest \<noteq> ''.''"
  shows "scan_mantissa 10 (fmt_fixed p n @ rest) = (int n, p, rest)"
proof (cases "p = 0")
  case True
  then show ?thesis using assms by (simp add: fmt_fixed_def scan_mantissa_def scan_dec_rest Let_def)
next
  case False
  have nd: "\<not> starts_digit 10 (CHR ''.'' # x)" for x
    by (simp add: starts_digit_def digit_val_def ch_def)
  have "int (n div 10 ^ p * 10 ^ p + n mod 10 ^ p) = int n" by (simp only: div_mult_mod_eq)
  then have n: "int (n div 10 ^ p) * 10 ^ p + int (n mod 10 ^ p) = int n" by simp
  have "scan_digits 10 0 (fmt_fixed p n @ rest) = (int (n div 10 ^ p), CHR ''.'' # pad p n @ rest)"
    using False nd scan_dec_rest [of "CHR ''.'' # pad p n @ rest"] by (simp add: fmt_fixed_def)
  then show ?thesis
    using n scan_pad_rest [OF assms(1), of "int (n div 10 ^ p)" p n] by (simp add: scan_mantissa_def)
qed

lemma fmt_fixed_head: "\<exists>d cs. d < 10 \<and> fmt_fixed p n = digit_char d # cs"
proof -
  obtain c cs where c: "dec (n div 10 ^ p) = c # cs" by (cases "dec (n div 10 ^ p)") auto
  then obtain d where "d < 10" "c = digit_char d" using dec_digits [of "n div 10 ^ p"] by auto
  with c show ?thesis by (auto simp: fmt_fixed_def)
qed

lemma to_lower_digit: "d < 10 \<Longrightarrow> to_lower (digit_char d) = digit_char d"
  by (simp add: to_lower_def ch_digit_char)

lemma digit_char_neq: "d < 10 \<Longrightarrow> ch c < 48 \<or> 57 < ch c \<Longrightarrow> digit_char d \<noteq> c"
  using ch_digit_char [of d] by auto

lemma fmt_not_hex:
  assumes "fmt_fixed p n = digit_char d # cs" "d < 10" "\<not> ci_prefix ''x'' rest"
  shows "\<not> ci_prefix ''0x'' (fmt_fixed p n @ rest)"
proof -
  have x: "\<not> ci_prefix ''x'' (c # s)" if "digit_val c < 10 \<or> c = CHR ''.''" for c s
    using that by (auto simp: ci_prefix_def to_lower_def digit_val_def ch_def split: if_splits)
  have all: "digit_val c < 10 \<or> c = CHR ''.''" if "c \<in> set (fmt_fixed p n)" for c
    using that by (auto simp: fmt_fixed_def split: if_splits dest: dec_digit_val pad_digit_val)
  have "\<not> ci_prefix ''x'' (cs @ rest)"
  proof (cases cs)
    case Nil
    then show ?thesis using assms(3) by simp
  next
    case (Cons c s)
    then show ?thesis using x [of c] all [of c] assms(1) by simp
  qed
  then show ?thesis using assms(1) by (auto simp: ci_prefix_def)
qed

text \<open>The decimal fraction with \<open>p\<close> digits that is printed for a number.\<close>

definition printed :: "nat \<Rightarrow> dbl \<Rightarrow> rat" where
  "printed p d = (let x = of_int (rne (\<bar>rval d\<bar> * 10 ^ p)) / 10 ^ p in if signbit d then - x else x)"

lemma strtod_fixed:
  assumes rest: "\<not> starts_digit 10 rest" "take 1 rest \<noteq> ''.''" "\<not> ci_prefix ''x'' rest"
    "rest = [] \<or> hd rest \<notin> {CHR ''e'', CHR ''E''}"
  shows "strtod ((if neg then ''-'' else []) @ fmt_fixed p n @ rest) =
    (mk_dbl neg ((if neg then - 1 else 1) * (of_nat n / 10 ^ p)), rest)"
proof -
  obtain d cs where h: "d < 10" "fmt_fixed p n = digit_char d # cs" using fmt_fixed_head by blast
  have dl: "to_lower (digit_char d) = digit_char d" by (rule to_lower_digit [OF h(1)])
  have neq: "digit_char d \<noteq> CHR ''i''" "digit_char d \<noteq> CHR ''n''" "digit_char d \<noteq> CHR ''-''"
    "digit_char d \<noteq> CHR ''+''"
    by (rule digit_char_neq [OF h(1)], simp add: ch_def)+
  have sp: "\<not> c_isspace (digit_char d)" "\<not> c_isspace (CHR ''-'')"
    using h(1) by (auto simp: c_isspace_def ch_digit_char) (simp_all add: ch_def)
  have np: "\<not> ci_prefix ''infinity'' (fmt_fixed p n @ rest)" "\<not> ci_prefix ''inf'' (fmt_fixed p n @ rest)"
    "\<not> ci_prefix ''nan'' (fmt_fixed p n @ rest)"
    using h(2) dl neq by (simp_all add: ci_prefix_def)
  have hex: "\<not> ci_prefix ''0x'' (fmt_fixed p n @ rest)" by (rule fmt_not_hex [OF h(2,1) rest(3)])
  have st: "starts_number 10 (fmt_fixed p n @ rest)"
    using h by (simp add: starts_number_def starts_digit_def digit_val_digit_char)
  have m: "scan_mantissa 10 (fmt_fixed p n @ rest) = (int n, p, rest)"
    using rest(1,2) by (intro scan_mantissa_fixed) simp_all
  have e: "scan_exponent ''eE'' rest = (0, rest)"
    using rest(4) by (auto simp: scan_exponent_def Let_def)
  have sc: "scan_number neg (fmt_fixed p n @ rest) =
      Some (mk_dbl neg ((if neg then - 1 else 1) * (of_nat n / 10 ^ p)), rest)"
    using np hex st m e by (simp add: scan_number_def rpow_def)
  show ?thesis
  proof (cases neg)
    case True
    then show ?thesis using sc sp by (simp add: strtod_def)
  next
    case False
    have "dropWhile c_isspace (fmt_fixed p n @ rest) = fmt_fixed p n @ rest"
      "take 1 (fmt_fixed p n @ rest) \<noteq> ''-''" "take 1 (fmt_fixed p n @ rest) \<noteq> ''+''"
      using sp neq h(2) by simp_all
    then show ?thesis using False sc by (simp add: strtod_def Let_def)
  qed
qed

lemma strtod_fmt_f:
  assumes "isfinite d" "\<not> starts_digit 10 rest" "take 1 rest \<noteq> ''.''" "\<not> ci_prefix ''x'' rest"
    "rest = [] \<or> hd rest \<notin> {CHR ''e'', CHR ''E''}"
  shows "strtod (fmt_f p d @ rest) = (mk_dbl (signbit d) (printed p d), rest)"
proof -
  have "0 \<le> rne (\<bar>rval d\<bar> * 10 ^ p)" by (simp add: rne_pos)
  then have "printed p d = (if signbit d then - 1 else 1) * (of_nat (nat (rne (\<bar>rval d\<bar> * 10 ^ p))) / 10 ^ p)"
    by (simp add: printed_def Let_def)
  then show ?thesis
    using strtod_fixed [OF assms(2-), of "signbit d" p "nat (rne (\<bar>rval d\<bar> * 10 ^ p))"] assms(1)
    by (simp add: fmt_f_def)
qed

lemma rval_sign: "isfinite d \<Longrightarrow> rval d = (if signbit d then - \<bar>rval d\<bar> else \<bar>rval d\<bar>)"
  by (cases d) auto

lemma printed_near:
  assumes "isfinite d"
  shows "\<bar>printed p d - rval d\<bar> \<le> 1 / (2 * 10 ^ p)"
proof -
  let ?x = "\<bar>rval d\<bar> * 10 ^ p"
  have "\<bar>of_int (rne ?x) / 10 ^ p - \<bar>rval d\<bar>\<bar> = \<bar>of_int (rne ?x) - ?x\<bar> / 10 ^ p"
    by (simp add: field_simps abs_if)
  also have "\<dots> \<le> (1 / 2) / 10 ^ p"
    by (rule divide_right_mono [OF rne_near]) simp
  finally have "\<bar>of_int (rne ?x) / 10 ^ p - \<bar>rval d\<bar>\<bar> \<le> 1 / (2 * 10 ^ p)" by simp
  then show ?thesis
    by (subst rval_sign [OF assms]) (auto simp: printed_def Let_def abs_if split: if_splits)
qed

lemma printed_exact:
  assumes "isfinite d" "rval d * 10 ^ p = of_int z"
  shows "printed p d = rval d"
proof -
  have "\<bar>rval d\<bar> * 10 ^ p = \<bar>rval d * 10 ^ p\<bar>" by (simp add: abs_mult)
  also have "\<dots> = of_int \<bar>z\<bar>" unfolding assms(2) by simp
  finally have "\<bar>rval d\<bar> * 10 ^ p = of_int \<bar>z\<bar>" .
  then have e: "of_int (rne (\<bar>rval d\<bar> * 10 ^ p)) = \<bar>rval d\<bar> * 10 ^ p" by (simp only: rne_of_int)
  show ?thesis
    by (subst rval_sign [OF assms(1)]) (simp add: printed_def Let_def e)
qed

end
