(* ===== verification/Fmt_G.thy ===== *)
theory Fmt_G
  imports Number_Text
begin

text \<open>
  \<open>printf("%.15g")\<close>: the 15 significant decimal digits of a number (rounded to nearest, ties to even, as
  the C library does), its text, and the facts that make the text usable in the logger's JSON:
  it is a number of the JSON grammar, and it is short.
\<close>

subsection \<open>Powers of ten and the decimal exponent\<close>

lemma rpow10_powi: "rpow 10 e = 10 powi e"
  by (simp add: rpow_def power_int_def field_simps)

lemma rpow10_pos [simp]: "0 < rpow 10 e"
  by (simp add: rpow10_powi)

lemma rpow10_add: "rpow 10 (a + b) = rpow 10 a * rpow 10 b"
  by (simp add: rpow10_powi power_int_add)

lemma rpow10_diff: "rpow 10 (a - b) = rpow 10 a / rpow 10 b"
  by (simp add: rpow10_powi power_int_diff)

lemma rpow10_mono: "a < b \<Longrightarrow> rpow 10 a < rpow 10 b"
  by (simp add: rpow10_powi power_int_strict_increasing)

lemma rpow10_less_iff: "rpow 10 a < rpow 10 b \<longleftrightarrow> a < b"
  by (metis linorder_neqE_linordered_idom order.asym order.irrefl rpow10_mono)

lemma rpow10_of_nat: "rpow 10 (int n) = 10 ^ n"
  by (simp add: rpow_def)

function ndigits :: "int \<Rightarrow> int" where
  "ndigits z = (if z < 10 then 1 else 1 + ndigits (z div 10))"
  by pat_completeness auto

termination ndigits by (relation "measure nat") auto

declare ndigits.simps [simp del]

lemma ndigits_pos: "0 < ndigits z"
  by (induction z rule: ndigits.induct) (subst ndigits.simps, auto)

lemma ndigits_bounds: "0 < z \<Longrightarrow> rpow 10 (ndigits z - 1) \<le> of_int z \<and> of_int z < rpow 10 (ndigits z)"
proof (induction z rule: ndigits.induct)
  case (1 z)
  show ?case
  proof (cases "z < 10")
    case True
    then show ?thesis using 1(2) by (simp add: ndigits.simps [of z] rpow_def)
  next
    case False
    then have n: "ndigits z = 1 + ndigits (z div 10)" by (subst ndigits.simps) simp
    have ih: "rpow 10 (ndigits (z div 10) - 1) \<le> of_int (z div 10)" "of_int (z div 10) < rpow 10 (ndigits (z div 10))"
      using 1(1) [OF False] False by simp_all
    have "rpow 10 (ndigits z - 1) = 10 * rpow 10 (ndigits (z div 10) - 1)"
      using rpow10_add [of 1 "ndigits (z div 10) - 1"] by (simp add: n rpow_def)
    also have "\<dots> \<le> of_int (10 * (z div 10))" using ih(1) by simp
    also have "\<dots> \<le> of_int z" by (subst of_int_le_iff) presburger
    finally have lo: "rpow 10 (ndigits z - 1) \<le> of_int z" .
    obtain k where k: "ndigits (z div 10) = int k" using ndigits_pos [of "z div 10"] nonneg_int_cases by (metis less_imp_le)
    have "(of_int (z div 10) :: rat) < of_int (10 ^ k)" using ih(2) by (simp add: k rpow10_of_nat)
    then have "z div 10 < 10 ^ k" by (simp only: of_int_less_iff)
    then have "z < 10 * 10 ^ k" by presburger
    then have "(of_int z :: rat) < of_int (10 * 10 ^ k)" by (simp only: of_int_less_iff)
    also have "\<dots> = rpow 10 (ndigits z)" using rpow10_of_nat [of "Suc k"] by (simp add: n k)
    finally show ?thesis using lo by simp
  qed
qed

definition ilog10 :: "rat \<Rightarrow> int" where
  "ilog10 x = (let (n, d) = quotient_of x; k = ndigits n - ndigits d in if rpow 10 k \<le> x then k else k - 1)"

lemma ilog10_bounds:
  assumes "0 < x"
  shows "rpow 10 (ilog10 x) \<le> x" "x < rpow 10 (ilog10 x + 1)"
proof -
  obtain n d where q: "quotient_of x = (n, d)" by force
  have d: "0 < d" and x: "x = of_int n / of_int d"
    using quotient_of_denom_pos [OF q] quotient_of_div [OF q] by auto
  have n: "0 < n" using assms d x by (simp add: zero_less_divide_iff)
  let ?k = "ndigits n - ndigits d"
  have "rpow 10 (ndigits n - 1) / rpow 10 (ndigits d) < x"
    unfolding x using ndigits_bounds [OF n] ndigits_bounds [OF d] d n by (intro frac_less2) auto
  then have lo: "rpow 10 (?k - 1) < x" by (simp add: rpow10_diff [symmetric] algebra_simps)
  have "x < rpow 10 (ndigits n) / rpow 10 (ndigits d - 1)"
    unfolding x using ndigits_bounds [OF n] ndigits_bounds [OF d] d n by (intro frac_less) auto
  then have hi: "x < rpow 10 (?k + 1)" by (simp add: rpow10_diff [symmetric] algebra_simps)
  show "rpow 10 (ilog10 x) \<le> x" "x < rpow 10 (ilog10 x + 1)"
    using lo hi by (auto simp: ilog10_def q Let_def)
qed

subsection \<open>Fifteen significant digits\<close>

definition digits15 :: "rat \<Rightarrow> int \<times> int" where
  "digits15 x =
     (let e = ilog10 x; m = rne (x / rpow 10 (e - 14)) in
      if m = 10 ^ 15 then (10 ^ 14, e + 1) else (m, e))"

lemma digits15_bounds:
  assumes "0 < x" "digits15 x = (m, e)"
  shows "10 ^ 14 \<le> m" "m < 10 ^ 15" "\<bar>of_int m * rpow 10 (e - 14) - x\<bar> \<le> rpow 10 (e - 14) / 2"
    "ilog10 x \<le> e" "e \<le> ilog10 x + 1"
proof -
  define e0 where "e0 = ilog10 x"
  define y where "y = x / rpow 10 (e0 - 14)"
  have x: "x = y * rpow 10 (e0 - 14)" by (simp add: y_def less_imp_neq [symmetric])
  have e14: "rpow 10 e0 = of_int (10 ^ 14) * rpow 10 (e0 - 14)"
    using rpow10_add [of 14 "e0 - 14"] by (simp add: rpow_def [of 10 14])
  have e15: "rpow 10 (e0 + 1) = of_int (10 ^ 15) * rpow 10 (e0 - 14)"
    using rpow10_add [of 15 "e0 - 14"] by (simp add: rpow_def [of 10 15] add.commute)
  have lo: "of_int (10 ^ 14) \<le> y"
    using ilog10_bounds(1) [OF assms(1)] unfolding y_def e0_def [symmetric] e14
    by (subst pos_le_divide_eq) simp_all
  have hi: "y \<le> of_int (10 ^ 15)"
    using ilog10_bounds(2) [OF assms(1)] unfolding y_def e0_def [symmetric] e15
    by (subst pos_divide_le_eq) simp_all
  have r: "10 ^ 14 \<le> rne y" "rne y \<le> 10 ^ 15"
    using rne_mono [OF lo] rne_mono [OF hi] by (simp_all only: rne_of_int)
  have "\<bar>of_int (rne y) * rpow 10 (e0 - 14) - x\<bar> = \<bar>of_int (rne y) - y\<bar> * rpow 10 (e0 - 14)"
    unfolding x by (simp add: abs_mult left_diff_distrib [symmetric] abs_of_pos)
  also have "\<dots> \<le> 1 / 2 * rpow 10 (e0 - 14)" by (rule mult_right_mono [OF rne_near]) (simp add: less_imp_le)
  finally have near: "\<bar>of_int (rne y) * rpow 10 (e0 - 14) - x\<bar> \<le> rpow 10 (e0 - 14) / 2" by simp
  have me: "(m, e) = (if rne y = 10 ^ 15 then (10 ^ 14, e0 + 1) else (rne y, e0))"
    using assms(2) [symmetric] unfolding digits15_def Let_def e0_def [symmetric] y_def [symmetric] .
  show "10 ^ 14 \<le> m" "m < 10 ^ 15" "ilog10 x \<le> e" "e \<le> ilog10 x + 1"
    using me r by (auto simp: e0_def split: if_splits)
  show "\<bar>of_int m * rpow 10 (e - 14) - x\<bar> \<le> rpow 10 (e - 14) / 2"
  proof (cases "rne y = 10 ^ 15")
    case True
    have r: "rpow 10 (e - 14) = 10 * rpow 10 (e0 - 14)"
      using rpow10_add [of 1 "e0 - 14"] me True by (simp add: rpow_def [of 10 1] algebra_simps)
    have "of_int m * rpow 10 (e - 14) = of_int (rne y) * rpow 10 (e0 - 14)"
      unfolding r using me True by simp
    moreover have "rpow 10 (e0 - 14) \<le> rpow 10 (e - 14)" unfolding r using rpow10_pos [of "e0 - 14"] by linarith
    ultimately show ?thesis using near by linarith
  qed (use near me in simp)
qed

subsection \<open>The text\<close>

definition strip_zeros :: "string \<Rightarrow> string" where
  "strip_zeros ds = rev (dropWhile (\<lambda>c. c = CHR ''0'') (rev ds))"

definition frac_part :: "string \<Rightarrow> string" where
  "frac_part ds = (let f = strip_zeros ds in if f = [] then [] else CHR ''.'' # f)"

definition exp_part :: "int \<Rightarrow> string" where
  "exp_part e =
     (let ds = dec_int \<bar>e\<bar> in
      CHR ''e'' # (if e < 0 then CHR ''-'' else CHR ''+'') # (if length ds < 2 then CHR ''0'' # ds else ds))"

text \<open>The digits \<open>ds\<close> with the decimal exponent \<open>e\<close>, in the style \<open>%e\<close> or \<open>%f\<close>: integer part, fraction and exponent.\<close>

definition g_parts :: "string \<Rightarrow> int \<Rightarrow> string \<times> string \<times> string" where
  "g_parts ds e =
     (if e < - 4 \<or> 15 \<le> e then (take 1 ds, frac_part (drop 1 ds), exp_part e)
      else if 0 \<le> e then (take (nat e + 1) ds, frac_part (drop (nat e + 1) ds), [])
      else (''0'', frac_part (replicate (nat (- e) - 1) (CHR ''0'') @ ds), []))"

definition fmt_g :: "dbl \<Rightarrow> string" where \<comment> \<open>\<open>%.15g\<close>\<close>
  "fmt_g d =
     (if isnan d then ''nan''
      else if \<not> isfinite d then (if signbit d then ''-inf'' else ''inf'')
      else (if signbit d then ''-'' else []) @
        (if rval d = 0 then ''0''
         else let (m, e) = digits15 \<bar>rval d\<bar>; (i, f, x) = g_parts (pad_int 15 m) e in i @ f @ x))"

subsection \<open>Numbers of the JSON grammar\<close>

definition json_digit :: "char \<Rightarrow> bool" where
  "json_digit c \<longleftrightarrow> digit_val c < 10"

text \<open>\<open>int = zero / (digit1-9 *digit)\<close>, \<open>frac = "." 1*digit\<close>, \<open>exp = e [sign] 1*digit\<close> of RFC 8259.\<close>

definition json_int :: "string \<Rightarrow> bool" where
  "json_int s \<longleftrightarrow> s \<noteq> [] \<and> list_all json_digit s \<and> (hd s = CHR ''0'' \<longrightarrow> length s = 1)"

definition json_frac :: "string \<Rightarrow> bool" where
  "json_frac s \<longleftrightarrow> (case s of [] \<Rightarrow> True | c # cs \<Rightarrow> c = CHR ''.'' \<and> cs \<noteq> [] \<and> list_all json_digit cs)"

definition json_exp :: "string \<Rightarrow> bool" where
  "json_exp s \<longleftrightarrow> (case s of [] \<Rightarrow> True | c # cs \<Rightarrow> c \<in> set ''eE'' \<and>
     (let ds = (if take 1 cs = ''+'' \<or> take 1 cs = ''-'' then drop 1 cs else cs) in ds \<noteq> [] \<and> list_all json_digit ds))"

definition json_number :: "string \<Rightarrow> bool" where
  "json_number s \<longleftrightarrow>
     (let s1 = (if take 1 s = ''-'' then drop 1 s else s);
          i = takeWhile json_digit s1; r = dropWhile json_digit s1;
          f = (if take 1 r = ''.'' then CHR ''.'' # takeWhile json_digit (drop 1 r) else []);
          x = (if take 1 r = ''.'' then dropWhile json_digit (drop 1 r) else r)
      in json_int i \<and> json_frac f \<and> json_exp x)"

text \<open>A consumer takes a number with a point or an exponent for a float.\<close>

definition json_float :: "string \<Rightarrow> bool" where
  "json_float s \<longleftrightarrow> json_number s \<and> list_ex (\<lambda>c. c \<in> set ''.eE'') s"

lemma json_digit_cases: "json_digit c \<Longrightarrow> c \<notin> set ''.eE+-''"
  by (auto simp: json_digit_def digit_val_def ch_def)

lemma json_number_parts:
  assumes "json_int i" "json_frac f" "json_exp x"
  shows "json_number ((if neg then ''-'' else []) @ i @ f @ x)"
proof -
  have id: "\<forall>c \<in> set i. json_digit c" "i \<noteq> []" using assms(1) by (auto simp: json_int_def list_all_iff)
  have fx: "f @ x = [] \<or> \<not> json_digit (hd (f @ x))"
    using assms(2,3) json_digit_cases by (auto simp: json_frac_def json_exp_def split: list.splits)
  have s1: "takeWhile json_digit (i @ f @ x) = i" "dropWhile json_digit (i @ f @ x) = f @ x"
    using id fx by (auto simp: takeWhile_append dropWhile_append hd_append split: if_splits) (metis takeWhile_eq_Nil_iff dropWhile_eq_self_iff)+
  have neg: "take 1 (i @ f @ x) \<noteq> ''-''" using id json_digit_cases [of "CHR ''-''"] by (cases i) auto
  have x: "x = [] \<or> \<not> json_digit (hd x)" "take 1 x \<noteq> ''.''"
    using assms(3) json_digit_cases by (auto simp: json_exp_def split: list.splits)
  have "(if take 1 (f @ x) = ''.'' then CHR ''.'' # takeWhile json_digit (drop 1 (f @ x)) else []) = f \<and>
     (if take 1 (f @ x) = ''.'' then dropWhile json_digit (drop 1 (f @ x)) else f @ x) = x" (is "?f = f \<and> ?x = x")
  proof (cases f)
    case Nil
    then show ?thesis using x(2) by simp
  next
    case (Cons c cs)
    then have c: "c = CHR ''.''" "\<forall>c \<in> set cs. json_digit c" using assms(2) by (auto simp: json_frac_def list_all_iff)
    have "takeWhile json_digit (cs @ x) = cs" "dropWhile json_digit (cs @ x) = x"
      using c(2) x(1) by (auto simp: takeWhile_append dropWhile_append) (metis takeWhile_eq_Nil_iff dropWhile_eq_self_iff)+
    then show ?thesis using Cons c(1) by simp
  qed
  then have p: "?f = f" "?x = x" by blast+
  have n: "(let s = (if neg then ''-'' else []) @ i @ f @ x in if take 1 s = ''-'' then drop 1 s else s) = i @ f @ x"
    using neg by (cases neg) (simp_all add: Let_def)
  show ?thesis unfolding json_number_def n [unfolded Let_def] Let_def s1 p using assms by blast
qed

subsection \<open>The printed numbers\<close>

lemma strip_zeros_length: "length (strip_zeros ds) \<le> length ds"
  using length_dropWhile_le [of "\<lambda>c. c = CHR ''0''" "rev ds"] by (simp add: strip_zeros_def)

lemma strip_zeros_digits: "list_all json_digit ds \<Longrightarrow> list_all json_digit (strip_zeros ds)"
  by (auto simp: strip_zeros_def list_all_iff dest: set_dropWhileD)

lemma frac_part_ok: "list_all json_digit ds \<Longrightarrow> json_frac (frac_part ds) \<and> length (frac_part ds) \<le> length ds + 1"
  using strip_zeros_digits [of ds] strip_zeros_length [of ds] by (simp add: frac_part_def json_frac_def Let_def)

lemma json_digit_char: "d < 10 \<Longrightarrow> json_digit (digit_char d)"
  by (simp add: json_digit_def digit_val_digit_char)

lemma json_digit_zero: "json_digit (CHR ''0'')"
  by (simp add: json_digit_def digit_val_def ch_def)

lemma dec_int_ok: "0 \<le> z \<Longrightarrow> list_all json_digit (dec_int z) \<and> dec_int z \<noteq> []"
proof (induction z rule: dec_int.induct)
  case (1 z)
  then show ?case by (subst (1 2) dec_int.simps) (auto simp: json_digit_char)
qed

lemma dec_int_length: "z < 10 ^ n \<Longrightarrow> length (dec_int z) \<le> max 1 n"
proof (induction n arbitrary: z)
  case 0
  then show ?case by (simp add: dec_int.simps [of z])
next
  case (Suc n)
  show ?case
  proof (cases "z < 10")
    case False
    then have "z div 10 < 10 ^ n" "n \<noteq> 0" using Suc.prems by (auto intro: gr0I)
    then show ?thesis using Suc.IH [of "z div 10"] False by (subst dec_int.simps) simp
  qed (simp add: dec_int.simps [of z])
qed

lemma exp_part_ok:
  assumes "\<bar>e\<bar> < 1000"
  shows "json_exp (exp_part e)" "length (exp_part e) \<le> 5"
proof -
  note d = dec_int_ok [of "\<bar>e\<bar>"]
  show "json_exp (exp_part e)" using d json_digit_zero by (auto simp: exp_part_def json_exp_def Let_def)
  have "length (dec_int \<bar>e\<bar>) \<le> 3" using dec_int_length [of "\<bar>e\<bar>" 3] assms by simp
  then show "length (exp_part e) \<le> 5" by (auto simp: exp_part_def Let_def)
qed

lemma pad_int_ok: "0 \<le> z \<Longrightarrow> list_all json_digit (pad_int p z)" "length (pad_int p z) = p"
proof -
  show "length (pad_int p z) = p" by (induction p) simp_all
  have "nat (z div 10 ^ k mod 10) < 10" for k by (simp add: nat_less_iff)
  then show "list_all json_digit (pad_int p z)" by (induction p) (simp_all add: json_digit_char)
qed

lemma digit_char_neq_zero: "0 < d \<Longrightarrow> d < 10 \<Longrightarrow> digit_char d \<noteq> CHR ''0''"
  using ch_digit_char [of d] by (auto simp: ch_def)

lemma pad_int_head:
  assumes "10 ^ p \<le> z" "z < 10 ^ Suc p"
  shows "hd (pad_int (Suc p) z) \<noteq> CHR ''0''"
proof -
  have "1 \<le> z div 10 ^ p" "z div 10 ^ p < 10"
    using assms by (simp_all add: pos_imp_zdiv_pos_iff int_one_le_iff_zero_less div_less_of_mult)
  then have "z div 10 ^ p mod 10 = int (nat (z div 10 ^ p))" "0 < nat (z div 10 ^ p)" "nat (z div 10 ^ p) < 10" by simp_all
  then show ?thesis using digit_char_neq_zero [of "nat (z div 10 ^ p)"] by simp
qed

lemma g_parts_ok:
  assumes "list_all json_digit ds" "hd ds \<noteq> CHR ''0''" "length ds = 15" "\<bar>e\<bar> < 1000" "g_parts ds e = (i, f, x)"
  shows "json_int i" "json_frac f" "json_exp x" "length i + length f + length x \<le> 21"
    "f = [] \<Longrightarrow> x = [] \<Longrightarrow> length i \<le> 15"
proof -
  note z = json_digit_zero
  have t: "json_int (take (Suc k) ds)" for k
    using assms(1-3) by (cases ds) (auto simp: json_int_def list_all_iff dest: in_set_takeD)
  have d: "list_all json_digit (drop k ds)" for k using assms(1) by (auto simp: list_all_iff dest: in_set_dropD)
  have len: "length (frac_part (drop k ds)) \<le> 16 - k" if "k \<le> 15" for k
    using frac_part_ok [OF d [of k]] that assms(3) by (simp add: Suc_diff_le [symmetric])
  consider (sci) "e < - 4 \<or> 15 \<le> e" "i = take 1 ds" "f = frac_part (drop 1 ds)" "x = exp_part e"
    | (big) "0 \<le> e" "e < 15" "i = take (nat e + 1) ds" "f = frac_part (drop (nat e + 1) ds)" "x = []"
    | (small) "- 4 \<le> e" "e < 0" "i = ''0''" "f = frac_part (replicate (nat (- e) - 1) (CHR ''0'') @ ds)" "x = []"
    using assms(5) by (auto simp: g_parts_def split: if_splits)
  then have "json_int i \<and> json_frac f \<and> json_exp x \<and> length i + length f + length x \<le> 21 \<and>
    (f = [] \<longrightarrow> x = [] \<longrightarrow> length i \<le> 15)"
  proof cases
    case sci
    then show ?thesis using t [of 0] frac_part_ok [OF d [of 1]] exp_part_ok [OF assms(4)] len [of 1] assms(3)
      by (simp add: exp_part_def Let_def)
  next
    case big
    then have "nat e + 1 \<le> 15" by linarith
    then show ?thesis using big t [of "nat e"] frac_part_ok [OF d [of "nat e + 1"]] len [of "nat e + 1"] assms(3)
      by (simp add: json_exp_def)
  next
    case small
    have "list_all json_digit (replicate (nat (- e) - 1) (CHR ''0'') @ ds)" using assms(1) z by (auto simp: list_all_iff)
    note fp = frac_part_ok [OF this]
    have "nat (- e) \<le> 4" using small by linarith
    then show ?thesis using small fp z assms(3) by (simp add: json_int_def json_exp_def)
  qed
  then show "json_int i" "json_frac f" "json_exp x" "length i + length f + length x \<le> 21"
    "f = [] \<Longrightarrow> x = [] \<Longrightarrow> length i \<le> 15" by blast+
qed

text \<open>The decimal exponent of a double.\<close>

lemma double_min:
  assumes "0 < x" "rnd64 x = x"
  shows "pow2 (- 1074) \<le> x"
proof -
  let ?q = "quantum 53 (- 1074) x"
  have x: "of_int (rne (x / pow2 ?q)) * pow2 ?q = x"
    using assms by (simp add: rnd_def rnd_pos_def Let_def)
  then have "rne (x / pow2 ?q) \<noteq> 0" using assms(1) by auto
  then have "1 \<le> rne (x / pow2 ?q)" using rne_pos [of "x / pow2 ?q"] assms(1) by simp
  then have "1 * pow2 ?q \<le> of_int (rne (x / pow2 ?q)) * pow2 ?q" by (intro mult_right_mono) simp_all
  moreover have "pow2 (- 1074) \<le> pow2 ?q" by (simp add: quantum_def)
  ultimately show ?thesis using x by linarith
qed

lemma double_exponent:
  assumes "is_double d" "isfinite d" "rval d \<noteq> 0"
  shows "\<bar>ilog10 \<bar>rval d\<bar>\<bar> < 900"
proof -
  let ?x = "\<bar>rval d\<bar>"
  have x: "0 < ?x" "rnd64 ?x = ?x" "?x < pow2 1024"
    using rval_is_double [OF assms(1,2)] assms(3) by (auto simp: abs_if)
  note b = ilog10_bounds [OF x(1)]
  have "pow2 1024 \<le> rpow 10 800" by (simp add: pow2_def rpow_def)
  then have "rpow 10 (ilog10 ?x) < rpow 10 800" using b(1) x(3) by linarith
  moreover have "rpow 10 (- 800) \<le> pow2 (- 1074)" by (simp add: pow2_def rpow_def)
  then have "rpow 10 (- 800) < rpow 10 (ilog10 ?x + 1)" using b(2) double_min [OF x(1,2)] by linarith
  ultimately show ?thesis by (simp add: rpow10_less_iff)
qed

text \<open>
  The text of a finite double is a JSON number of at most 22 characters, and of at most 16 if it has
  neither point nor exponent.
\<close>

lemma fmt_g_json:
  assumes "is_double d" "isfinite d"
  obtains neg i f x where "fmt_g d = (if neg then ''-'' else []) @ i @ f @ x" "json_int i" "json_frac f" "json_exp x"
    "length (fmt_g d) \<le> 22" "f = [] \<and> x = [] \<longrightarrow> length (fmt_g d) \<le> 16"
proof (cases "rval d = 0")
  case True
  have "json_int ''0''" using json_digit_zero by (simp add: json_int_def)
  moreover have "fmt_g d = (if signbit d then ''-'' else []) @ ''0'' @ [] @ []"
    using True assms(2) by (simp add: fmt_g_def)
  ultimately show thesis by (intro that [of "signbit d" "''0''" "[]" "[]"]) (simp_all add: json_frac_def json_exp_def)
next
  case False
  obtain m e where me: "digits15 \<bar>rval d\<bar> = (m, e)" by force
  have x: "0 < \<bar>rval d\<bar>" using False by simp
  note b = digits15_bounds [OF x me]
  have m: "0 \<le> m" using b(1) by simp
  obtain i f y where g: "g_parts (pad_int 15 m) e = (i, f, y)" by (metis prod_cases3)
  have "\<bar>e\<bar> < 1000" using double_exponent [OF assms False] b(4,5) by linarith
  moreover have "hd (pad_int 15 m) \<noteq> CHR ''0''" using pad_int_head [of 14 m] b(1,2) by simp
  ultimately have ok: "json_int i" "json_frac f" "json_exp y" "length i + length f + length y \<le> 21"
    "f = [] \<Longrightarrow> y = [] \<Longrightarrow> length i \<le> 15"
    using g_parts_ok [OF pad_int_ok(1) [OF m] _ _ _ g] by (simp_all add: pad_int_ok(2))
  have t: "fmt_g d = (if signbit d then ''-'' else []) @ i @ f @ y"
    using False me g assms(2) by (simp add: fmt_g_def)
  show thesis by (rule that [OF t ok(1-3)]) (use ok(4,5) in \<open>auto simp: t\<close>)
qed

end
