(* ===== verification/Logger.thy ===== *)
theory Logger
  imports Dispatch Fmt_G
begin

text \<open>
  The MQTT loggers (\<open>mqtt_logger.c\<close>): configuration, the schedule of the snapshots, their JSON text and
  publishing them. The wall clock, whether it is synchronised, the values the dispatchers give and
  the result of \<open>mosquitto_publish\<close> are arguments. Running out of memory is not modelled, but the two
  character arrays of \<open>build_json\<close> are: writing past \<open>num\<close> is \<open>None\<close>, and text that does not fit into
  \<open>json\<close> is cut off as \<open>snprintf\<close> does.
\<close>

subsection \<open>Data\<close>

record logger_val =
  lv_name :: string
  lv_field :: string
  lv_scale :: dbl
  lv_disp :: nat

record logger =
  lo_name :: string
  lo_topic :: string
  lo_interval :: int
  lo_qos :: int
  lo_values :: "logger_val list"
  lo_next_time :: int
  lo_publish_failed :: bool
  lo_unsynced :: bool

record logger_val_cfg =
  lvc_title :: string
  lvc_field :: "string option"
  lvc_scale :: dbl

record logger_cfg =
  loc_title :: string
  loc_topic :: "string option"
  loc_interval :: int
  loc_qos :: int
  loc_values :: "logger_val_cfg list"

definition mqtt_logger_val_opts :: "string \<Rightarrow> logger_val_cfg" where
  "mqtt_logger_val_opts title = \<lparr>lvc_title = title, lvc_field = None, lvc_scale = DFin 1\<rparr>"

definition mqtt_logger_opts :: "string \<Rightarrow> logger_cfg" where
  "mqtt_logger_opts title = \<lparr>loc_title = title, loc_topic = None, loc_interval = 300, loc_qos = 1, loc_values = []\<rparr>"

datatype logger_error =
    TopicNotGiven | IntervalInvalid int | LoggerQosInvalid | FieldInvalid string | NoValues | FieldTwice string

subsection \<open>Configuration\<close>

definition field_char :: "char \<Rightarrow> bool" where
  "field_char c \<longleftrightarrow> (65 \<le> ch c \<and> ch c \<le> 90) \<or> (97 \<le> ch c \<and> ch c \<le> 122) \<or> (48 \<le> ch c \<and> ch c \<le> 57) \<or> c = CHR ''_''"

definition valid_field :: "string \<Rightarrow> bool" where
  "valid_field field \<longleftrightarrow> field \<noteq> [] \<and> field \<noteq> ''time'' \<and> list_all field_char field"

definition logger_value_configure :: "logger_val_cfg \<Rightarrow> nat \<Rightarrow> dnode list \<Rightarrow> logger_error + logger_val \<times> dnode list" where
  "logger_value_configure cfg vi ds =
     (let field = (case lvc_field cfg of Some f \<Rightarrow> f | None \<Rightarrow> lvc_title cfg) in
      if \<not> valid_field field then Inl (FieldInvalid field)
      else let (ds1, d) = uvrgw_conf_get_dispatcher (lvc_title cfg) False ds in
        Inr (\<lparr>lv_name = lvc_title cfg, lv_field = field, lv_scale = lvc_scale cfg, lv_disp = d\<rparr>, ds1))"

text \<open>The first field that an earlier value has as well.\<close>

fun field_twice :: "string list \<Rightarrow> string list \<Rightarrow> string option" where
  "field_twice seen [] = None"
| "field_twice seen (f # fs) = (if f \<in> set seen then Some f else field_twice (seen @ [f]) fs)"

definition logger_configure :: "logger_cfg \<Rightarrow> nat \<Rightarrow> dnode list \<Rightarrow> logger_error + logger \<times> dnode list" where
  "logger_configure cfg li ds =
     (case loc_topic cfg of
        None \<Rightarrow> Inl TopicNotGiven
      | Some topic \<Rightarrow>
          if loc_interval cfg \<le> 0 \<or> c_mod 86400 (loc_interval cfg) \<noteq> 0 then Inl (IntervalInvalid (loc_interval cfg))
          else if loc_qos cfg < 0 \<or> 2 < loc_qos cfg then Inl LoggerQosInvalid
          else case config_childs logger_value_configure 0 (loc_values cfg) ds of
                 Inl e \<Rightarrow> Inl e
               | Inr (vals, ds1) \<Rightarrow>
                   if vals = [] then Inl NoValues
                   else case field_twice [] (map lv_field vals) of
                          Some f \<Rightarrow> Inl (FieldTwice f)
                        | None \<Rightarrow> Inr (\<lparr>lo_name = loc_title cfg, lo_topic = topic, lo_interval = loc_interval cfg,
                                       lo_qos = loc_qos cfg, lo_values = vals, lo_next_time = 0,
                                       lo_publish_failed = False, lo_unsynced = False\<rparr>, ds1))"

definition mqtt_logger_configure :: "logger_cfg list \<Rightarrow> dnode list \<Rightarrow> logger_error + logger list \<times> dnode list" where
  "mqtt_logger_configure cfgs ds = config_childs logger_configure 0 cfgs ds"

subsection \<open>The schedule\<close>

text \<open>The first slot after \<open>now\<close>.\<close>

definition next_slot :: "int \<Rightarrow> int \<Rightarrow> int" where
  "next_slot interval now = (c_div now interval + 1) * interval"

definition schedule_loggers :: "int \<Rightarrow> logger list \<Rightarrow> logger list" where
  "schedule_loggers now = map (\<lambda>l. l\<lparr>lo_next_time := next_slot (lo_interval l) now\<rparr>)"

text \<open>The slot a due snapshot is taken for.\<close>

definition due_slot :: "int \<Rightarrow> int \<Rightarrow> int \<Rightarrow> int" where
  "due_slot interval now next =
     (if interval \<le> now - next then c_div now interval * interval else next)"

definition log_synced :: "bool \<Rightarrow> logger \<Rightarrow> logger \<times> logmsg list" where
  "log_synced ok l =
     (l\<lparr>lo_unsynced := \<not> ok\<rparr>,
      if ok = lo_unsynced l
      then [if ok then (LOG_INFO, ''clock synchronised, snapshots resumed'')
            else (LOG_WARNING, ''clock not synchronised, snapshots skipped'')] else [])"

definition realign :: "int \<Rightarrow> logger \<Rightarrow> logger" where
  "realign now l =
     (if lo_interval l < lo_next_time l - now then l\<lparr>lo_next_time := next_slot (lo_interval l) now\<rparr> else l)"

text \<open>The time of the snapshot to be taken, if any.\<close>

definition logger_task :: "int \<Rightarrow> bool \<Rightarrow> logger \<Rightarrow> logger \<times> int option \<times> logmsg list" where
  "logger_task now synced l0 =
     (let l = realign now l0 in
      if lo_next_time l \<le> now then
        let t = due_slot (lo_interval l) now (lo_next_time l);
            (l1, msgs) = log_synced synced (l\<lparr>lo_next_time := t + lo_interval l\<rparr>)
        in (l1, if synced then Some t else None, msgs)
      else (l, None, []))"

text \<open>One pass of the thread over the loggers; \<open>clock i\<close>: what the clock says when the \<open>i\<close>-th is looked at.\<close>

fun logger_pass ::
  "(nat \<Rightarrow> int \<times> bool) \<Rightarrow> nat \<Rightarrow> logger list \<Rightarrow> logger list \<times> (nat \<times> int) list \<times> logmsg list" where
  "logger_pass clock i [] = ([], [], [])"
| "logger_pass clock i (l # ls) =
     (let (l1, shot, msgs) = logger_task (fst (clock i)) (snd (clock i)) l;
          (ls1, shots, more) = logger_pass clock (Suc i) ls
      in (l1 # ls1, (case shot of None \<Rightarrow> [] | Some t \<Rightarrow> [(i, t)]) @ shots, msgs @ more))"

subsection \<open>The snapshot\<close>

definition LOGGER_NUM_LEN :: nat where "LOGGER_NUM_LEN = 40"

text \<open>\<open>snprintf(buf + len, size - len, "%s", text)\<close> for the text \<open>buf\<close> of length \<open>len\<close>, and \<open>strcat\<close> to an array of \<open>size\<close>.\<close>

definition snprintf_at :: "nat \<Rightarrow> string \<Rightarrow> string \<Rightarrow> string" where
  "snprintf_at sz buf txt = buf @ take (sz - length buf - 1) txt"

definition strcat :: "nat \<Rightarrow> string \<Rightarrow> string \<Rightarrow> string option" where
  "strcat sz buf txt = (if length buf + length txt < sz then Some (buf @ txt) else None)"

lemma snprintf_at_fits: "length buf + length txt < sz \<Longrightarrow> snprintf_at sz buf txt = buf @ txt"
  by (simp add: snprintf_at_def)

text \<open>The number of a value, from what \<open>uvrgw_conf_get_val\<close> gives; \<open>None\<close>: written past the end of \<open>num\<close>.\<close>

definition json_num :: "bool \<times> dbl \<Rightarrow> logger_val \<Rightarrow> string option" where
  "json_num g v =
     (let f = d_mul (snd g) (lv_scale v) in
      if fst g \<and> isfinite f then
        let num = snprintf_at LOGGER_NUM_LEN [] (fmt_g f) in
        if list_ex (\<lambda>c. c \<in> set ''.eE'') num then Some num else strcat LOGGER_NUM_LEN num ''.0''
      else Some ''null'')"

text \<open>\<open>len\<close> is the sum of the lengths \<open>snprintf\<close> returns; \<open>sz - len\<close> is a \<open>size_t\<close>, so it must not exceed \<open>sz\<close>.\<close>

fun json_fields :: "nat \<Rightarrow> nat \<Rightarrow> (logger_val \<times> bool \<times> dbl) list \<Rightarrow> string \<Rightarrow> (nat \<times> string) option" where
  "json_fields sz len [] buf = Some (len, buf)"
| "json_fields sz len ((v, g) # vs) buf =
     (case json_num g v of
        None \<Rightarrow> None
      | Some num \<Rightarrow>
          if sz < len then None
          else let txt = '',\"'' @ lv_field v @ ''\":'' @ num in
            json_fields sz (len + length txt) vs (snprintf_at sz buf txt))"

definition json_size :: "logger_val list \<Rightarrow> nat" where
  "json_size vals = 32 + sum_list (map (\<lambda>v. length (lv_field v) + 4 + LOGGER_NUM_LEN) vals)"

definition time_text :: "int \<Rightarrow> string" where
  "time_text t = (if t < 0 then ''-'' else []) @ dec_int \<bar>t\<bar>"

definition build_json :: "logger \<Rightarrow> int \<Rightarrow> (bool \<times> dbl) list \<Rightarrow> string option" where
  "build_json l t got =
     (let sz = json_size (lo_values l); head = ''{\"time\":'' @ time_text t in
      case json_fields sz (length head) (zip (lo_values l) got) (snprintf_at sz [] head) of
        None \<Rightarrow> None
      | Some (len, buf) \<Rightarrow> if sz < len then None else Some (snprintf_at sz buf ''}''))"

text \<open>The result of \<open>mosquitto_publish\<close>.\<close>

datatype mosq_err = MOSQ_ERR_SUCCESS | MOSQ_ERR_NO_CONN | MOSQ_ERR_PAYLOAD_SIZE | MOSQ_ERR_UNKNOWN | MOSQ_ERR_OTHER int

text \<open>What is handed to \<open>mosquitto_publish\<close>: topic, payload, QoS and the retain flag.\<close>

datatype mosq_pub = Publish string string int bool

definition log_published :: "mosq_err \<Rightarrow> bool \<Rightarrow> logger \<Rightarrow> logger \<times> logmsg list" where
  "log_published rc ok l =
     (l\<lparr>lo_publish_failed := \<not> ok\<rparr>,
      if ok = lo_publish_failed l
      then [if ok then (LOG_INFO, ''publishing again'')
            else if rc = MOSQ_ERR_NO_CONN \<and> 0 < lo_qos l
              then (LOG_WARNING, ''broker not connected, snapshots are kept until reconnect'')
              else (LOG_WARNING, ''publish failed, snapshots lost'')] else [])"

text \<open>\<open>rc\<close> is what publishing gives.\<close>

definition take_snapshot :: "logger \<Rightarrow> int \<Rightarrow> (bool \<times> dbl) list \<Rightarrow> mosq_err \<Rightarrow> (logger \<times> mosq_pub \<times> logmsg list) option" where
  "take_snapshot l t got rc =
     (case build_json l t got of
        None \<Rightarrow> None
      | Some json \<Rightarrow>
          let (l1, msgs) = log_published rc (rc = MOSQ_ERR_SUCCESS) l
          in Some (l1, Publish (lo_topic l) json (lo_qos l) False, msgs))"

interpretation logger_sync_log: edge_logger lo_unsynced log_synced
  by unfold_locales (auto simp: log_synced_def)

interpretation logger_publish_log: edge_logger lo_publish_failed "log_published rc"
  by unfold_locales (auto simp: log_published_def)

subsection \<open>The schedule is aligned to the clock\<close>

text \<open>The deadline after a snapshot, as \<open>logger_task\<close> computes it.\<close>

definition logger_advance :: "int \<Rightarrow> int \<Rightarrow> int \<Rightarrow> int" where
  "logger_advance interval now next = due_slot interval now next + interval"

lemma due_slot_bounds:
  assumes "0 < interval" "0 \<le> next" "next \<le> now"
  shows "due_slot interval now next \<le> now" "now < due_slot interval now next + interval"
    "next \<le> due_slot interval now next" "interval dvd next \<Longrightarrow> interval dvd due_slot interval now next"
proof -
  have m: "now div interval * interval \<le> now" "now < now div interval * interval + interval"
    using div_mult_mod_eq [of now interval] pos_mod_bound [OF assms(1), of now] pos_mod_sign [OF assms(1), of now] by linarith+
  show "due_slot interval now next \<le> now" "now < due_slot interval now next + interval"
    "next \<le> due_slot interval now next" "interval dvd next \<Longrightarrow> interval dvd due_slot interval now next"
    using assms m by (auto simp: due_slot_def)
qed

interpretation logger_timer: aligned_timer logger_advance "\<lambda>base. base = 0"
proof unfold_locales
  fix period "next" now base :: int
  assume "base = 0" "0 < period" "0 \<le> next" "next \<le> now" "period dvd next - base"
  then show "period dvd logger_advance period now next - base"
    using due_slot_bounds(4) [of period "next" now] by (simp add: logger_advance_def)
qed (use due_slot_bounds in \<open>fastforce simp: logger_advance_def\<close>)+

lemma next_slot_bounds:
  assumes "0 < interval" "0 \<le> now"
  shows "now < next_slot interval now" "next_slot interval now \<le> now + interval" "interval dvd next_slot interval now"
proof -
  have "now div interval * interval \<le> now" "now < now div interval * interval + interval"
    using div_mult_mod_eq [of now interval] pos_mod_bound [OF assms(1), of now] pos_mod_sign [OF assms(1), of now] by linarith+
  then show "now < next_slot interval now" "next_slot interval now \<le> now + interval" "interval dvd next_slot interval now"
    using assms by (simp_all add: next_slot_def distrib_right)
qed

text \<open>What the schedule keeps: the next snapshot is a slot of the clock.\<close>

definition on_clock :: "logger \<Rightarrow> bool" where
  "on_clock l \<longleftrightarrow> 0 < lo_interval l \<and> 0 \<le> lo_next_time l \<and> lo_interval l dvd lo_next_time l"

lemma realign_on_clock:
  assumes "on_clock l" "0 \<le> now"
  shows "on_clock (realign now l)" "lo_interval (realign now l) = lo_interval l"
    "lo_next_time (realign now l) \<le> now + lo_interval l"
    "lo_next_time (realign now l) \<le> now \<Longrightarrow> realign now l = l"
  using assms next_slot_bounds [of "lo_interval l" now] by (auto simp: realign_def on_clock_def)

text \<open>One call of \<open>logger_task\<close>, in its cases.\<close>

lemma logger_task_cases:
  assumes "logger_task now synced l = (l', shot, msgs)" "on_clock l" "0 \<le> now"
  obtains (wait) "now < lo_next_time (realign now l)" "l' = realign now l" "shot = None"
  | (due) "lo_next_time l \<le> now" "lo_interval l' = lo_interval l" "lo_next_time l' = logger_advance (lo_interval l) now (lo_next_time l)"
      "shot = (if synced then Some (due_slot (lo_interval l) now (lo_next_time l)) else None)"
proof (cases "lo_next_time (realign now l) \<le> now")
  case True
  then have r: "realign now l = l" using realign_on_clock(4) [OF assms(2,3)] by simp
  let ?t = "due_slot (lo_interval l) now (lo_next_time l)"
  have "logger_task now synced l = (fst (log_synced synced (l\<lparr>lo_next_time := ?t + lo_interval l\<rparr>)),
      if synced then Some ?t else None, snd (log_synced synced (l\<lparr>lo_next_time := ?t + lo_interval l\<rparr>)))"
    using True unfolding logger_task_def r Let_def case_prod_beta by (simp only: if_True)
  then have e: "l' = fst (log_synced synced (l\<lparr>lo_next_time := ?t + lo_interval l\<rparr>))" "shot = (if synced then Some ?t else None)"
    unfolding assms(1) by blast+
  show thesis
  proof (rule due)
    show "lo_next_time l \<le> now" using True unfolding r .
    show "lo_interval l' = lo_interval l" "lo_next_time l' = logger_advance (lo_interval l) now (lo_next_time l)"
      unfolding e(1) by (simp_all add: log_synced_def logger_advance_def)
    show "shot = (if synced then Some ?t else None)" by (rule e(2))
  qed
next
  case False
  then have "logger_task now synced l = (realign now l, None, [])" unfolding logger_task_def Let_def by (simp only: if_False)
  then show thesis using assms(1) False by (intro wait) simp_all
qed

lemma logger_task_on_clock:
  assumes "logger_task now synced l = (l', shot, msgs)" "on_clock l" "0 \<le> now"
  shows "on_clock l'" "lo_interval l' = lo_interval l" "now < lo_next_time l'" "lo_next_time l' \<le> now + lo_interval l"
proof -
  have i: "0 < lo_interval l" "0 \<le> lo_next_time l" "lo_interval l dvd lo_next_time l" using assms(2) by (auto simp: on_clock_def)
  have "on_clock l' \<and> lo_interval l' = lo_interval l \<and> now < lo_next_time l' \<and> lo_next_time l' \<le> now + lo_interval l"
    using assms
  proof (cases rule: logger_task_cases)
    case wait
    then show ?thesis using realign_on_clock [OF assms(2,3)] by simp
  next
    case due
    note t = logger_timer.advance_future [OF i(1,2) due(1)] logger_timer.advance_soon [OF i(1,2) due(1)]
      logger_timer.advance_aligned [OF refl i(1,2) due(1)]
    show ?thesis using due(2,3) t i assms(3) by (simp add: on_clock_def)
  qed
  then show "on_clock l'" "lo_interval l' = lo_interval l" "now < lo_next_time l'" "lo_next_time l' \<le> now + lo_interval l" by blast+
qed

text \<open>A logger that is polled at the times \<open>nows\<close>; the snapshots taken.\<close>

fun logger_polls :: "(int \<times> bool) list \<Rightarrow> logger \<Rightarrow> logger \<times> int list" where
  "logger_polls [] l = (l, [])"
| "logger_polls ((now, synced) # polls) l =
     (let (l1, shot, msgs) = logger_task now synced l; (l2, shots) = logger_polls polls l1
      in (l2, (case shot of Some t \<Rightarrow> [t] | None \<Rightarrow> []) @ shots))"

lemma logger_polls_times:
  assumes "on_clock l" "sorted (map fst polls)" "\<forall>p \<in> set polls. lo_next_time l - lo_interval l \<le> fst p \<and> 0 \<le> fst p"
    "logger_polls polls l = (l', shots)"
  shows "(\<forall>t \<in> set shots. lo_next_time l \<le> t \<and> lo_interval l dvd t) \<and> sorted_wrt (<) shots"
  using assms
proof (induction polls arbitrary: l l' shots)
  case (Cons p polls)
  obtain now synced where p: "p = (now, synced)" by force
  obtain l1 shot msgs where t: "logger_task now synced l = (l1, shot, msgs)" by (metis prod_cases3)
  obtain l2 rest where r: "logger_polls polls l1 = (l2, rest)" by force
  have now: "0 \<le> now" "lo_next_time l - lo_interval l \<le> now" using Cons.prems(3) p by auto
  note k = logger_task_on_clock [OF t Cons.prems(1) now(1)]
  have "\<forall>p \<in> set polls. lo_next_time l1 - lo_interval l1 \<le> fst p \<and> 0 \<le> fst p"
    using Cons.prems(2,3) p k(2,4) by fastforce
  then have ih: "(\<forall>t \<in> set rest. lo_next_time l1 \<le> t \<and> lo_interval l1 dvd t) \<and> sorted_wrt (<) rest"
    using Cons.IH [OF k(1) _ _ r] Cons.prems(2) p by simp
  have shots: "shots = (case shot of Some t \<Rightarrow> [t] | None \<Rightarrow> []) @ rest" using Cons.prems(4) p t r by simp
  have i: "0 < lo_interval l" "0 \<le> lo_next_time l" "lo_interval l dvd lo_next_time l" using Cons.prems(1) by (auto simp: on_clock_def)
  from t Cons.prems(1) now(1) show ?case
  proof (cases rule: logger_task_cases)
    case wait
    have "realign now l = l" using now(2) by (simp add: realign_def)
    then show ?thesis using wait ih shots by simp
  next
    case due
    note s = due_slot_bounds [OF i(1,2) due(1)]
    have n: "lo_next_time l1 = due_slot (lo_interval l) now (lo_next_time l) + lo_interval l"
      using due(3) by (simp add: logger_advance_def)
    have "\<forall>t \<in> set rest. due_slot (lo_interval l) now (lo_next_time l) < t \<and> lo_next_time l \<le> t \<and> lo_interval l dvd t"
      using ih s(3) i(1) k(2) unfolding n by auto
    then show ?thesis using due(4) ih shots s i(3) by auto
  qed
qed simp

text \<open>
  C33. Snapshots are taken for slots of the wall clock: whatever the polling times, and wherever the
  clock jumps, a snapshot is stamped with a multiple of the interval that is not in the future
  and less than an interval old, the next one is due within an interval, and as long as the
  clock does not run backwards no slot is logged twice and the stamps only grow.
\<close>

theorem snapshots_on_the_clock:
  assumes "on_clock l"
  shows "(0 \<le> now \<longrightarrow> logger_task now synced l = (l', shot, msgs) \<longrightarrow>
      on_clock l' \<and> now < lo_next_time l' \<and> lo_next_time l' \<le> now + lo_interval l' \<and>
      (\<forall>t. shot = Some t \<longrightarrow> synced \<and> lo_interval l dvd t \<and> t \<le> now \<and> now < t + lo_interval l)) \<and>
    (sorted (map fst polls) \<longrightarrow> (\<forall>p \<in> set polls. lo_next_time l - lo_interval l \<le> fst p \<and> 0 \<le> fst p) \<longrightarrow>
      sorted_wrt (<) (snd (logger_polls polls l)))"
proof (intro conjI impI allI)
  assume a: "0 \<le> now" "logger_task now synced l = (l', shot, msgs)"
  note k = logger_task_on_clock [OF a(2) assms a(1)]
  show "on_clock l'" "now < lo_next_time l'" "lo_next_time l' \<le> now + lo_interval l'" using k by simp_all
  have i: "0 < lo_interval l" "0 \<le> lo_next_time l" "lo_interval l dvd lo_next_time l" using assms by (auto simp: on_clock_def)
  fix t assume "shot = Some t"
  with a(2) assms a(1) have "lo_next_time l \<le> now \<and> synced \<and> t = due_slot (lo_interval l) now (lo_next_time l)"
    by (cases rule: logger_task_cases) (auto split: if_splits)
  then show "synced" "lo_interval l dvd t" "t \<le> now" "now < t + lo_interval l"
    using due_slot_bounds [OF i(1,2)] i(3) by auto
next
  assume "sorted (map fst polls)" "\<forall>p \<in> set polls. lo_next_time l - lo_interval l \<le> fst p \<and> 0 \<le> fst p"
  then show "sorted_wrt (<) (snd (logger_polls polls l))"
    using logger_polls_times [OF assms] by (cases "logger_polls polls l") simp
qed

definition example_logger :: logger where
  "example_logger = \<lparr>lo_name = ''log'', lo_topic = ''log/all'', lo_interval = 300, lo_qos = 1,
     lo_values = [\<lparr>lv_name = ''pv'', lv_field = ''pv'', lv_scale = DFin 1, lv_disp = 0\<rparr>,
                  \<lparr>lv_name = ''temp'', lv_field = ''office_temp'', lv_scale = DFin 1, lv_disp = 1\<rparr>],
     lo_next_time = 600, lo_publish_failed = False, lo_unsynced = False\<rparr>"

theorem snapshots_on_the_clock_witness:
  "snd (logger_polls [(650, True), (899, True), (2150, False), (2400, True)] example_logger) = [600, 2400] \<and>
   sorted_wrt (<) (snd (logger_polls [(650, True), (899, True), (2150, False), (2400, True)] example_logger))"
proof -
  have "on_clock example_logger" by (simp add: on_clock_def example_logger_def)
  from snapshots_on_the_clock [OF this, THEN conjunct2, of "[(650, True), (899, True), (2150, False), (2400, True)]"]
  have "sorted_wrt (<) (snd (logger_polls [(650, True), (899, True), (2150, False), (2400, True)] example_logger))"
    by (simp add: example_logger_def)
  moreover have "snd (logger_polls [(650, True), (899, True), (2150, False), (2400, True)] example_logger) = [600, 2400]"
    by code_simp
  ultimately show ?thesis by blast
qed

subsection \<open>The snapshot is complete and valid\<close>

text \<open>The text of a number as it is meant.\<close>

definition num_text :: "bool \<times> dbl \<Rightarrow> logger_val \<Rightarrow> string" where
  "num_text g v =
     (let f = d_mul (snd g) (lv_scale v); s = fmt_g f in
      if fst g \<and> isfinite f then (if list_ex (\<lambda>c. c \<in> set ''.eE'') s then s else s @ ''.0'') else ''null'')"

lemma no_point:
  assumes "json_int i" "json_frac f" "json_exp x" "\<not> list_ex (\<lambda>c. c \<in> set ''.eE'') ((if neg then ''-'' else []) @ i @ f @ x)"
  shows "f = []" "x = []"
  using assms by (auto simp: json_frac_def json_exp_def split: list.splits)

lemma num_text_float:
  assumes "fst g" "isfinite (d_mul (snd g) (lv_scale v))"
  shows "json_float (num_text g v)" "length (num_text g v) \<le> 22"
proof -
  let ?s = "fmt_g (d_mul (snd g) (lv_scale v))"
  obtain neg i f x where s: "?s = (if neg then ''-'' else []) @ i @ f @ x" and ok: "json_int i" "json_frac f" "json_exp x"
    and len: "length ?s \<le> 22" "f = [] \<and> x = [] \<longrightarrow> length ?s \<le> 16"
    by (rule fmt_g_json [OF is_double_d_mul assms(2)])
  have num: "num_text g v = (if list_ex (\<lambda>c. c \<in> set ''.eE'') ?s then ?s else ?s @ ''.0'')"
    using assms by (simp add: num_text_def Let_def)
  have "json_float (num_text g v) \<and> length (num_text g v) \<le> 22"
  proof (cases "list_ex (\<lambda>c. c \<in> set ''.eE'') ?s")
    case True
    then show ?thesis unfolding num json_float_def using json_number_parts [OF ok, of neg] len(1) s by simp
  next
    case False
    then have fx: "f = []" "x = []" using no_point [OF ok] unfolding s by blast+
    have "json_frac ''.0''" using json_digit_zero by (simp add: json_frac_def)
    then have "json_number (?s @ ''.0'')" using json_number_parts [OF ok(1) _ ok(3), of "''.0''" neg] unfolding s fx by simp
    then show ?thesis using False len(2) fx unfolding num json_float_def by simp
  qed
  then show "json_float (num_text g v)" "length (num_text g v) \<le> 22" by blast+
qed

lemma json_num_text: "json_num g v = Some (num_text g v)" "length (num_text g v) \<le> 22"
proof -
  have "json_num g v = Some (num_text g v) \<and> length (num_text g v) \<le> 22"
  proof (cases "fst g \<and> isfinite (d_mul (snd g) (lv_scale v))")
    case True
    have "length (fmt_g (d_mul (snd g) (lv_scale v))) \<le> length (num_text g v)" using True by (simp add: num_text_def Let_def)
    then show ?thesis
      using True num_text_float [of g v] by (simp add: json_num_def num_text_def Let_def snprintf_at_def strcat_def LOGGER_NUM_LEN_def)
  qed (auto simp: json_num_def num_text_def Let_def)
  then show "json_num g v = Some (num_text g v)" "length (num_text g v) \<le> 22" by blast+
qed

definition field_text :: "logger_val \<times> bool \<times> dbl \<Rightarrow> string" where
  "field_text = (\<lambda>(v, g). '',\"'' @ lv_field v @ ''\":'' @ num_text g v)"

lemma json_fields_complete:
  "length buf = len \<Longrightarrow> len + sum_list (map (\<lambda>(v, g). length (lv_field v) + 44) vgs) < sz \<Longrightarrow>
    json_fields sz len vgs buf =
      Some (len + length (concat (map field_text vgs)), buf @ concat (map field_text vgs)) \<and>
    len + length (concat (map field_text vgs)) \<le> len + sum_list (map (\<lambda>(v, g). length (lv_field v) + 44) vgs)"
proof (induction sz len vgs buf rule: json_fields.induct)
  case (2 sz len v g vs buf)
  let ?txt = "'',\"'' @ lv_field v @ ''\":'' @ num_text g v"
  have l: "length ?txt \<le> length (lv_field v) + 44" using json_num_text(2) [of g v] by simp
  have s: "snprintf_at sz buf ?txt = buf @ ?txt" using l 2(2,3) by (simp add: snprintf_at_def)
  have "json_fields sz (len + length ?txt) vs (buf @ ?txt) =
      Some (len + length ?txt + length (concat (map field_text vs)), (buf @ ?txt) @ concat (map field_text vs)) \<and>
    len + length ?txt + length (concat (map field_text vs)) \<le> len + length ?txt + sum_list (map (\<lambda>(v, g). length (lv_field v) + 44) vs)"
    using 2(1) [OF json_num_text(1) _ refl] l s 2(2,3) by simp
  then show ?case using s l 2(3) json_num_text(1) [of g v] by (simp add: field_text_def Let_def)
qed simp

lemma time_text_length:
  assumes "\<bar>t\<bar> < 10 ^ 19"
  shows "length (time_text t) \<le> 20"
proof -
  have "length (dec_int \<bar>t\<bar>) \<le> 19" using dec_int_length [OF assms] by simp
  then show ?thesis by (cases "t < 0") (simp_all add: time_text_def)
qed

text \<open>
  C34. A snapshot is always complete and well-formed: for every configuration and all values, the two
  buffers are large enough (nothing is written past the number buffer and nothing is cut off), the
  text is the time followed by every field in order, and a field is a JSON number that a reader
  takes for a float exactly if the value is valid and finite after scaling, and \<open>null\<close> otherwise.
\<close>

theorem snapshot_complete:
  assumes "length got = length (lo_values l)" "\<bar>t\<bar> < 2 ^ 63"
  shows "build_json l t got = Some (''{\"time\":'' @ time_text t @
      concat (map (\<lambda>(v, g). '',\"'' @ lv_field v @ ''\":'' @ num_text g v) (zip (lo_values l) got)) @ ''}'') \<and>
    (\<forall>(v, g) \<in> set (zip (lo_values l) got).
      if fst g \<and> isfinite (d_mul (snd g) (lv_scale v)) then json_float (num_text g v) else num_text g v = ''null'')"
proof
  let ?vgs = "zip (lo_values l) got" and ?sz = "json_size (lo_values l)"
  let ?head = "''{\"time\":'' @ time_text t"
  have head: "length ?head \<le> 28" using time_text_length [of t] assms(2) by simp
  have "map (\<lambda>(v, g). length (lv_field v) + 44) ?vgs = map (\<lambda>v. length (lv_field v) + 44) (map fst ?vgs)"
    by (simp add: case_prod_beta)
  also have "map fst ?vgs = lo_values l" using assms(1) by simp
  finally have sz: "?sz = 32 + sum_list (map (\<lambda>(v, g). length (lv_field v) + 44) ?vgs)"
    by (simp add: json_size_def LOGGER_NUM_LEN_def add.assoc)
  have s: "snprintf_at ?sz [] ?head = ?head" using head snprintf_at_fits [of "[]" ?head ?sz] by (simp add: sz)
  have f: "json_fields ?sz (length ?head) ?vgs ?head =
      Some (length ?head + length (concat (map field_text ?vgs)), ?head @ concat (map field_text ?vgs)) \<and>
    length ?head + length (concat (map field_text ?vgs)) \<le> length ?head + sum_list (map (\<lambda>(v, g). length (lv_field v) + 44) ?vgs)"
    by (rule json_fields_complete) (use head sz in simp_all)
  have room: "length (?head @ concat (map field_text ?vgs)) + length ''}'' < ?sz"
    using f [THEN conjunct2] head unfolding sz by simp
  then show "build_json l t got = Some (''{\"time\":'' @ time_text t @
      concat (map (\<lambda>(v, g). '',\"'' @ lv_field v @ ''\":'' @ num_text g v) ?vgs) @ ''}'')"
    using f snprintf_at_fits [OF room] room unfolding build_json_def Let_def s field_text_def [symmetric] by simp
  show "\<forall>(v, g) \<in> set ?vgs. if fst g \<and> isfinite (d_mul (snd g) (lv_scale v)) then json_float (num_text g v) else num_text g v = ''null''"
    using num_text_float(1) by (auto simp: num_text_def Let_def)
qed

theorem snapshot_complete_witness:
  "build_json example_logger 1790762700 [(True, DFin (1/4)), (False, DFin 7)] =
     Some ''{\"time\":1790762700,\"pv\":0.25,\"office_temp\":null}''"
proof -
  have n: "num_text (True, DFin (1/4)) (lo_values example_logger ! 0) = ''0.25''" by code_simp
  have t: "time_text 1790762700 = ''1790762700''" by code_simp
  show ?thesis
    using snapshot_complete [of "[(True, DFin (1/4)), (False, DFin 7)]" example_logger 1790762700, THEN conjunct1] n t
    by (simp add: example_logger_def num_text_def [of "(False, _)"])
qed

end
