(* ===== verification/Printf.thy ===== *)
theory Printf
  imports Fmt_G
begin

text \<open>
  \<open>printf\<close> of double arguments, as far as mqtt.c uses it: the conversions \<open>f e g\<close> (and their capital
  forms) with flags, width and precision. The C standard leaves the leading digit of \<open>%a\<close> to the
  implementation; the digits of \<open>%a\<close> are the parameter \<open>hex\<close> (precision, number without sign).
\<close>

subsection \<open>Directives\<close>

record directive =
  pf_left :: bool
  pf_plus :: bool
  pf_space :: bool
  pf_alt :: bool
  pf_zero :: bool
  pf_width :: nat
  pf_prec :: "nat option"
  pf_conv :: char

definition is_flag :: "char \<Rightarrow> bool" where
  "is_flag c \<longleftrightarrow> c \<in> set ''-+ #0''"

definition is_dec :: "char \<Rightarrow> bool" where
  "is_dec c \<longleftrightarrow> digit_val c < 10"

definition dec_value :: "string \<Rightarrow> nat" where
  "dec_value ds = nat (fst (scan_digits 10 0 ds))"

definition double_conv :: string where
  "double_conv = ''fFeEgGaA''"

text \<open>A directive after its \<open>%\<close>, and the rest of the format.\<close>

definition parse_directive :: "string \<Rightarrow> (directive \<times> string) option" where
  "parse_directive s =
     (let fl = takeWhile is_flag s; p1 = dropWhile is_flag s;
          w = takeWhile is_dec p1; p2 = dropWhile is_dec p1;
          dot = (take 1 p2 = ''.'');
          pr = (if dot then Some (dec_value (takeWhile is_dec (drop 1 p2))) else None);
          p3 = (if dot then dropWhile is_dec (drop 1 p2) else p2);
          p4 = (if take 1 p3 = ''l'' then drop 1 p3 else p3)
      in case p4 of
           [] \<Rightarrow> None
         | k # rest \<Rightarrow>
             if k \<in> set double_conv
             then Some (\<lparr>pf_left = CHR ''-'' \<in> set fl, pf_plus = CHR ''+'' \<in> set fl, pf_space = CHR '' '' \<in> set fl,
                         pf_alt = CHR ''#'' \<in> set fl, pf_zero = CHR ''0'' \<in> set fl, pf_width = dec_value w,
                         pf_prec = pr, pf_conv = k\<rparr>, rest)
             else None)"

subsection \<open>Numbers\<close>

text \<open>\<open>p\<close> significant digits of a positive number as an integer, and the exponent of the first one.\<close>

definition sig_digits :: "nat \<Rightarrow> rat \<Rightarrow> int \<times> int" where
  "sig_digits p x =
     (if x = 0 then (0, 0)
      else let e = ilog10 x; m = rne (x / rpow 10 (e - int p + 1)) in
        if m = 10 ^ p then (10 ^ (p - 1), e + 1) else (m, e))"

definition to_upper :: "char \<Rightarrow> char" where
  "to_upper c = (if 97 \<le> ch c \<and> ch c \<le> 122 then char_of (nat (ch c - 32)) else c)"

definition text_f :: "bool \<Rightarrow> nat \<Rightarrow> rat \<Rightarrow> string" where
  "text_f alt p x = fmt_fixed p (nat (rne (x * 10 ^ p))) @ (if alt \<and> p = 0 then ''.'' else [])"

definition text_e :: "bool \<Rightarrow> nat \<Rightarrow> rat \<Rightarrow> string" where
  "text_e alt p x =
     (let (m, e) = sig_digits (p + 1) x; ds = pad_int (p + 1) m
      in take 1 ds @ (if 0 < p \<or> alt then ''.'' else []) @ drop 1 ds @ exp_part e)"

text \<open>\<open>%g\<close>: the style depends on the exponent; without \<open>#\<close> the trailing zeros of the fraction are removed.\<close>

definition text_g :: "bool \<Rightarrow> nat \<Rightarrow> rat \<Rightarrow> string" where
  "text_g alt p0 x =
     (let p = max 1 p0; (m, e) = sig_digits p x; ds = pad_int p m;
          frac = (\<lambda>ds. if alt then CHR ''.'' # ds else frac_part ds)
      in if e < - 4 \<or> int p \<le> e then take 1 ds @ frac (drop 1 ds) @ exp_part e
         else if 0 \<le> e then take (nat e + 1) ds @ frac (drop (nat e + 1) ds)
         else ''0'' @ frac (replicate (nat (- e) - 1) (CHR ''0'') @ ds))"

definition prefix_of :: "directive \<Rightarrow> dbl \<Rightarrow> string" where
  "prefix_of k x =
     (if signbit x then ''-'' else if pf_plus k then ''+'' else if pf_space k then '' '' else [])"

type_synonym hex_digits = "nat option \<Rightarrow> rat \<Rightarrow> string"

definition number_text :: "hex_digits \<Rightarrow> directive \<Rightarrow> rat \<Rightarrow> string" where
  "number_text hex k x =
     (let p = (case pf_prec k of None \<Rightarrow> 6 | Some p \<Rightarrow> p);
          low = (if pf_conv k \<in> set ''fF'' then text_f (pf_alt k) p x
                 else if pf_conv k \<in> set ''eE'' then text_e (pf_alt k) p x
                 else if pf_conv k \<in> set ''gG'' then text_g (pf_alt k) p x
                 else hex (pf_prec k) x)
      in if pf_conv k \<in> set ''FEGA'' then map to_upper low else low)"

text \<open>Sign and number, padded to the width: zeros go between them and are not used for inf and nan.\<close>

definition conv_text :: "hex_digits \<Rightarrow> directive \<Rightarrow> dbl \<Rightarrow> string" where
  "conv_text hex k x =
     (let sg = prefix_of k x;
          body = (if isfinite x then number_text hex k \<bar>rval x\<bar>
                  else let t = (if isnan x then ''nan'' else ''inf'') in
                    if pf_conv k \<in> set ''FEGA'' then map to_upper t else t);
          fill = pf_width k - length sg - length body
      in if pf_left k then sg @ body @ replicate fill (CHR '' '')
         else if pf_zero k \<and> isfinite x then sg @ replicate fill (CHR ''0'') @ body
         else replicate fill (CHR '' '') @ sg @ body)"

subsection \<open>Formats\<close>

lemma if_shorter: "length a \<le> length b \<Longrightarrow> length (if c then a else b) \<le> length b"
  by simp

lemma parse_directive_shorter:
  assumes "parse_directive s = Some (k, rest)"
  shows "length rest < length s"
proof -
  let ?p1 = "dropWhile is_flag s"
  let ?p2 = "dropWhile is_dec ?p1"
  define p3 where "p3 = (if take 1 ?p2 = ''.'' then dropWhile is_dec (drop 1 ?p2) else ?p2)"
  define p4 where "p4 = (if take 1 p3 = ''l'' then drop 1 p3 else p3)"
  obtain c where "p4 = c # rest"
    using assms by (auto simp: parse_directive_def Let_def p3_def p4_def split: list.splits if_splits)
  then have "length rest < length p4" by simp
  also have "length p4 \<le> length p3" by (simp add: p4_def)
  also have "length p3 \<le> length ?p2"
    unfolding p3_def by (rule if_shorter) (use length_dropWhile_le [of is_dec "drop 1 ?p2"] in \<open>simp add: le_diff_conv2\<close>)
  also have "length ?p2 \<le> length ?p1" by (rule length_dropWhile_le)
  also have "length ?p1 \<le> length s" by (rule length_dropWhile_le)
  finally show ?thesis .
qed

text \<open>\<open>None\<close>: undefined, because an argument is missing or a directive is not one for a double.\<close>

function (sequential) c_printf :: "hex_digits \<Rightarrow> string \<Rightarrow> dbl list \<Rightarrow> string option" where
  "c_printf hex [] xs = Some []"
| "c_printf hex (c # cs) xs =
     (if c \<noteq> CHR ''%'' then map_option ((#) c) (c_printf hex cs xs)
      else if take 1 cs = ''%'' then map_option ((#) c) (c_printf hex (drop 1 cs) xs)
      else case parse_directive cs of
        None \<Rightarrow> None
      | Some (k, rest) \<Rightarrow>
          (case xs of
             [] \<Rightarrow> None
           | x # ys \<Rightarrow> map_option ((@) (conv_text hex k x)) (c_printf hex rest ys)))"
  by pat_completeness auto

termination c_printf
  by (relation "measure (\<lambda>(_, s, _). length s)") (auto dest: parse_directive_shorter)

text \<open>The grammar of the formats for \<open>n\<close> doubles.\<close>

inductive double_format :: "string \<Rightarrow> nat \<Rightarrow> bool" where
  end_of_format: "double_format [] 0"
| literal: "c \<noteq> CHR ''%'' \<Longrightarrow> double_format s n \<Longrightarrow> double_format (c # s) n"
| percent: "double_format s n \<Longrightarrow> double_format (CHR ''%'' # CHR ''%'' # s) n"
| conversion: "list_all is_flag flags \<Longrightarrow> list_all is_dec width \<Longrightarrow>
    prec = [] \<or> (\<exists>ds. prec = CHR ''.'' # ds \<and> list_all is_dec ds) \<Longrightarrow> len \<in> {[], ''l''} \<Longrightarrow>
    k \<in> set double_conv \<Longrightarrow> double_format s n \<Longrightarrow>
    double_format (CHR ''%'' # flags @ width @ prec @ len @ k # s) (Suc n)"

text \<open>The characters of a directive are told apart by their first occurrence.\<close>

lemma directive_chars:
  "k \<in> set double_conv \<Longrightarrow> \<not> is_flag k \<and> \<not> is_dec k \<and> k \<noteq> CHR ''.'' \<and> k \<noteq> CHR ''l'' \<and> k \<noteq> CHR ''%''"
  "\<not> is_flag (CHR ''.'')" "\<not> is_dec (CHR ''.'')" "\<not> is_flag (CHR ''l'')" "\<not> is_dec (CHR ''l'')"
  "\<not> is_flag (CHR ''%'')" "\<not> is_dec (CHR ''%'')"
  by (auto simp: double_conv_def is_flag_def is_dec_def digit_val_def ch_def)

definition skip_directive :: "string \<Rightarrow> string" where
  "skip_directive s =
     (let p1 = dropWhile is_flag s; p2 = dropWhile is_dec p1;
          p3 = (if take 1 p2 = ''.'' then dropWhile is_dec (drop 1 p2) else p2)
      in if take 1 p3 = ''l'' then drop 1 p3 else p3)"

lemma dropWhile_not_hd: "x = [] \<or> \<not> P (hd x) \<Longrightarrow> dropWhile P x = x"
  by (cases x) auto

text \<open>Leading zeros of the width may be read as flags: what is left is the same.\<close>

lemma drop_flags_digits:
  assumes "list_all is_flag fl" "list_all is_dec w" "y \<noteq> []" "\<not> is_flag (hd y)" "\<not> is_dec (hd y)"
  shows "dropWhile is_dec (dropWhile is_flag (fl @ w @ y)) = y"
proof -
  have "dropWhile is_flag (fl @ w @ y) = dropWhile is_flag (w @ y)"
    using assms(1) by (induction fl) auto
  moreover have "dropWhile is_dec (dropWhile is_flag (w @ y)) = y"
    using assms(2)
  proof (induction w)
    case Nil
    then show ?case using assms(3-5) by (cases y) auto
  next
    case (Cons c w)
    have "dropWhile is_dec (w @ y) = y" using Cons.prems assms(3,5) by (auto simp: dropWhile_append list_all_iff intro: dropWhile_not_hd)
    then show ?case using Cons by simp
  qed
  ultimately show ?thesis by simp
qed

lemma skip_directive_written:
  assumes "list_all is_flag flags" "list_all is_dec width" "prec = [] \<or> (\<exists>ds. prec = CHR ''.'' # ds \<and> list_all is_dec ds)"
    "len \<in> {[], ''l''}" "k \<in> set double_conv"
  shows "skip_directive (flags @ width @ prec @ len @ k # s) = k # s"
proof -
  note k = directive_chars(1) [OF assms(5)]
  have hd: "len @ k # s \<noteq> []" "\<not> is_flag (hd (len @ k # s))" "\<not> is_dec (hd (len @ k # s))"
    "take 1 (len @ k # s) \<noteq> ''.''" using assms(4) k directive_chars by auto
  have l: "(if take 1 (len @ k # s) = ''l'' then drop 1 (len @ k # s) else len @ k # s) = k # s"
    using assms(4) k by auto
  show ?thesis
  proof (cases "prec = []")
    case True
    have "dropWhile is_dec (dropWhile is_flag (flags @ width @ len @ k # s)) = len @ k # s"
      by (rule drop_flags_digits [OF assms(1,2) hd(1-3)])
    then show ?thesis using True by (simp only: skip_directive_def Let_def hd(4) l append_Nil if_False)
  next
    case False
    then obtain ds where ds: "prec = CHR ''.'' # ds" "list_all is_dec ds" using assms(3) by blast
    have "dropWhile is_dec (dropWhile is_flag (flags @ width @ prec @ len @ k # s)) = prec @ len @ k # s"
      by (rule drop_flags_digits [OF assms(1,2)]) (simp_all add: ds(1) directive_chars)
    moreover have "dropWhile is_dec (ds @ len @ k # s) = len @ k # s"
      using ds(2) hd(1,3) by (subst dropWhile_append2) (auto simp: list_all_iff intro: dropWhile_not_hd)
    moreover have "take 1 (prec @ len @ k # s) = ''.''" "drop 1 (prec @ len @ k # s) = ds @ len @ k # s"
      by (simp_all add: ds(1))
    ultimately show ?thesis by (simp only: skip_directive_def Let_def if_True simp_thms l)
  qed
qed

lemma parse_directive_skip:
  assumes "skip_directive s = k # rest" "k \<in> set double_conv"
  shows "\<exists>d. parse_directive s = Some (d, rest)"
  unfolding parse_directive_def Let_def assms(1) [unfolded skip_directive_def Let_def] list.case if_P [OF assms(2)]
  by blast

lemma skip_directive_read:
  assumes "skip_directive s = k # rest"
  obtains flags width prec len where "s = flags @ width @ prec @ len @ k # rest" "list_all is_flag flags"
    "list_all is_dec width" "prec = [] \<or> (\<exists>ds. prec = CHR ''.'' # ds \<and> list_all is_dec ds)" "len \<in> {[], ''l''}"
proof -
  let ?p1 = "dropWhile is_flag s"
  let ?p2 = "dropWhile is_dec ?p1"
  define p3 where "p3 = (if take 1 ?p2 = ''.'' then dropWhile is_dec (drop 1 ?p2) else ?p2)"
  define prec where "prec = (if take 1 ?p2 = ''.'' then CHR ''.'' # takeWhile is_dec (drop 1 ?p2) else [])"
  define len where "len = (if take 1 p3 = ''l'' then ''l'' else [])"
  have all: "list_all P (takeWhile P x)" for P and x :: string by (auto simp: list_all_iff dest: set_takeWhileD)
  have p2: "?p2 = prec @ p3"
  proof (cases "take 1 ?p2 = ''.''")
    case True
    then obtain q where "?p2 = CHR ''.'' # q" by (cases ?p2) auto
    then show ?thesis by (simp add: prec_def p3_def)
  qed (simp add: prec_def p3_def)
  have "(if take 1 p3 = ''l'' then drop 1 p3 else p3) = k # rest"
    using assms unfolding skip_directive_def Let_def p3_def by this
  then have p3: "p3 = len @ k # rest" by (cases p3) (auto simp: len_def split: if_splits)
  have "s = takeWhile is_flag s @ takeWhile is_dec ?p1 @ prec @ len @ k # rest"
    using p2 p3 by (metis takeWhile_dropWhile_id)
  then show thesis
    by (rule that) (auto simp: all prec_def len_def)
qed

lemma directive_start:
  assumes "list_all is_flag flags" "list_all is_dec width" "prec = [] \<or> (\<exists>ds. prec = CHR ''.'' # ds \<and> list_all is_dec ds)"
    "len \<in> {[], ''l''}" "k \<in> set double_conv"
  shows "take 1 (flags @ width @ prec @ len @ k # s) \<noteq> ''%''"
  using assms directive_chars by (cases flags; cases width; cases prec) auto

text \<open>A format for at most as many doubles as there are arguments is defined.\<close>

lemma c_printf_defined:
  "double_format fmt n \<Longrightarrow> n \<le> length xs \<Longrightarrow> \<exists>txt. c_printf hex fmt xs = Some txt"
proof (induction fmt n arbitrary: xs rule: double_format.induct)
  case (conversion flags width prec len k s n)
  obtain x ys where xs: "xs = x # ys" using conversion.prems by (cases xs) auto
  have "skip_directive (flags @ width @ prec @ len @ k # s) = k # s"
    by (rule skip_directive_written [OF conversion.hyps(1-5)])
  then obtain d where d: "parse_directive (flags @ width @ prec @ len @ k # s) = Some (d, s)"
    using parse_directive_skip conversion.hyps(5) by blast
  have "take 1 (flags @ width @ prec @ len @ k # s) \<noteq> ''%''" by (rule directive_start [OF conversion.hyps(1-5)])
  then show ?case using d conversion.IH [of ys] conversion.prems xs by auto
qed auto

end
