(* ===== verification/Mqtt.thy ===== *)
theory Mqtt
  imports Logger Printf
begin

text \<open>
  The MQTT connections (\<open>mqtt.c\<close>): configuration with the check of the number formats, received
  messages and published values. Startup and shutdown are in the theory \<open>Mqtt_Life\<close>.
  libmosquitto is not part of the program: its calls are recorded in order, and their results are
  arguments (for startup a function that gives each call its outcome). A C string is a list of
  characters without NUL; a payload is a list of bytes. \<open>strcasecmp\<close> is that of the C locale. Messages
  that report a failed startup are not modelled.
\<close>

subsection \<open>Data\<close>

record mqtt_val =
  mqv_name :: string
  mqv_dir :: val_dir
  mqv_type :: mqtt_type
  mqv_topic :: string
  mqv_fmt :: "string option"
  mqv_qos :: int
  mqv_retain :: bool
  mqv_disp :: nat
  mqv_invalid :: bool
  mqv_send_failed :: bool

record mqtt_conn =
  mc_host :: string
  mc_port :: int
  mc_client_id :: "string option"
  mc_user :: "string option"
  mc_pwd :: "string option"
  mc_state_topic :: "string option"
  mc_keepalive_period :: int
  mc_qos :: int
  mc_retain :: bool
  mc_init_value :: dbl
  mc_stale_timeout :: int
  mc_values :: "mqtt_val list"
  mc_loggers :: "logger list"
  mc_mosq :: bool \<comment> \<open>\<open>mosq\<close> is not NULL\<close>
  mc_connected :: bool
  mc_refused :: bool

record mqtt_val_cfg =
  mqvc_title :: string
  mqvc_dir :: "val_dir option" \<comment> \<open>\<open>None\<close>: not given (-1)\<close>
  mqvc_type :: "mqtt_type option"
  mqvc_topic :: "string option"
  mqvc_fmt :: "string option"
  mqvc_qos :: "int option" \<comment> \<open>\<open>None\<close>: \<open>cfg_size\<close> is 0\<close>
  mqvc_retain :: "bool option"
  mqvc_init_value :: "dbl option"
  mqvc_stale_timeout :: "int option"

record mqtt_cfg =
  mcc_host :: "string option"
  mcc_port :: int
  mcc_client_id :: "string option"
  mcc_user :: "string option"
  mcc_pwd :: "string option"
  mcc_state_topic :: "string option"
  mcc_keepalive_period :: int
  mcc_qos :: int
  mcc_retain :: bool
  mcc_init_value :: dbl
  mcc_stale_timeout :: int
  mcc_values :: "mqtt_val_cfg list"
  mcc_loggers :: "logger_cfg list"

definition mqtt_val_opts :: "string \<Rightarrow> mqtt_val_cfg" where
  "mqtt_val_opts title =
     \<lparr>mqvc_title = title, mqvc_dir = None, mqvc_type = None, mqvc_topic = None, mqvc_fmt = None, mqvc_qos = None,
      mqvc_retain = None, mqvc_init_value = None, mqvc_stale_timeout = None\<rparr>"

definition mqtt_opts :: mqtt_cfg where
  "mqtt_opts =
     \<lparr>mcc_host = None, mcc_port = 1883, mcc_client_id = None, mcc_user = None, mcc_pwd = None,
      mcc_state_topic = None, mcc_keepalive_period = 300, mcc_qos = 0, mcc_retain = False,
      mcc_init_value = DFin 0, mcc_stale_timeout = 0, mcc_values = [], mcc_loggers = []\<rparr>"

datatype mqtt_error =
    HostNotGiven | MqttQosInvalid | MqttDirNotGiven | MqttTypeNotGiven | MqttTopicNotGiven | ValueQosInvalid
  | FmtNotGiven | FmtInvalid | MqttConf conf_error | MqttLogger logger_error

subsection \<open>Configuration\<close>

text \<open>\<open>check_fmt\<close>: the pointer is the rest of the format; \<open>skip_spec\<close> moves it to the conversion character.\<close>

definition skip_spec :: "string \<Rightarrow> string" where
  "skip_spec p =
     (let p1 = dropWhile (\<lambda>c. c \<in> set ''-+ #0'') p;
          p2 = dropWhile (\<lambda>c. c \<in> set ''0123456789'') p1;
          p3 = (if take 1 p2 = ''.'' then dropWhile (\<lambda>c. c \<in> set ''0123456789'') (drop 1 p2) else p2)
      in if take 1 p3 = ''l'' then drop 1 p3 else p3)"

lemma length_skip_spec: "length (skip_spec p) \<le> length p"
proof -
  have d: "length (dropWhile P (drop 1 x)) \<le> length x" for P and x :: string
    using length_dropWhile_le [of P "drop 1 x"] by simp
  let ?p1 = "dropWhile (\<lambda>c. c \<in> set ''-+ #0'') p"
  let ?p2 = "dropWhile (\<lambda>c. c \<in> set ''0123456789'') ?p1"
  define p3 where "p3 = (if take 1 ?p2 = ''.'' then dropWhile (\<lambda>c. c \<in> set ''0123456789'') (drop 1 ?p2) else ?p2)"
  have "skip_spec p = (if take 1 p3 = ''l'' then drop 1 p3 else p3)" unfolding skip_spec_def Let_def p3_def ..
  then have "length (skip_spec p) \<le> length p3" by simp
  also have "length p3 \<le> length ?p2" unfolding p3_def by (rule if_shorter [OF d])
  also have "length ?p2 \<le> length ?p1" by (rule length_dropWhile_le)
  also have "length ?p1 \<le> length p" by (rule length_dropWhile_le)
  finally show ?thesis .
qed

text \<open>The loop: the number of conversions, or nothing if one is not for a double.\<close>

function (sequential) check_fmt_loop :: "string \<Rightarrow> nat \<Rightarrow> nat option" where
  "check_fmt_loop [] conv_count = Some conv_count"
| "check_fmt_loop (c # p) conv_count =
     (if c \<noteq> CHR ''%'' then check_fmt_loop p conv_count
      else if take 1 p = ''%'' then check_fmt_loop (drop 1 p) conv_count
      else case skip_spec p of
        [] \<Rightarrow> None
      | k # rest \<Rightarrow> if k \<in> set ''fFeEgGaA'' then check_fmt_loop rest (conv_count + 1) else None)"
  by pat_completeness auto

lemma skip_spec_shorter: "skip_spec p = k # rest \<Longrightarrow> length rest < Suc (length p)"
  using length_skip_spec [of p] by simp

termination check_fmt_loop
  by (relation "measure (\<lambda>(p, _). length p)") (auto dest: skip_spec_shorter)

definition check_fmt :: "string \<Rightarrow> bool" where
  "check_fmt fmt \<longleftrightarrow> check_fmt_loop fmt 0 = Some 1"

text \<open>The value as the options give it, once direction, type and topic are known.\<close>

definition new_mqtt_val :: "mqtt_conn \<Rightarrow> mqtt_val_cfg \<Rightarrow> val_dir \<Rightarrow> mqtt_type \<Rightarrow> string \<Rightarrow> mqtt_val" where
  "new_mqtt_val conn cfg dir type topic =
     \<lparr>mqv_name = mqvc_title cfg, mqv_dir = dir, mqv_type = type, mqv_topic = topic, mqv_fmt = mqvc_fmt cfg,
      mqv_qos = given (mqvc_qos cfg) (mc_qos conn), mqv_retain = given (mqvc_retain cfg) (mc_retain conn),
      mqv_disp = 0, mqv_invalid = False, mqv_send_failed = False\<rparr>"

definition mqtt_value_check :: "mqtt_val \<Rightarrow> mqtt_error option" where
  "mqtt_value_check val =
     (if mqv_qos val < 0 \<or> 2 < mqv_qos val then Some ValueQosInvalid
      else if mqv_dir val = DIR_OUT \<and> mqv_type val = MQTT_NUMBER \<and> mqv_fmt val = None then Some FmtNotGiven
      else case mqv_fmt val of
        Some fmt \<Rightarrow> if check_fmt fmt then None else Some FmtInvalid
      | None \<Rightarrow> None)"

definition mqtt_value_configure ::
  "mqtt_conn \<Rightarrow> nat \<Rightarrow> mqtt_val_cfg \<Rightarrow> nat \<Rightarrow> dnode list \<Rightarrow> mqtt_error + mqtt_val \<times> dnode list" where
  "mqtt_value_configure conn i cfg vi ds =
     (case mqvc_dir cfg of None \<Rightarrow> Inl MqttDirNotGiven | Some dir \<Rightarrow>
      case mqvc_type cfg of None \<Rightarrow> Inl MqttTypeNotGiven | Some type \<Rightarrow>
      case mqvc_topic cfg of None \<Rightarrow> Inl MqttTopicNotGiven | Some topic \<Rightarrow>
        let val = new_mqtt_val conn cfg dir type topic in
        case mqtt_value_check val of
          Some e \<Rightarrow> Inl e
        | None \<Rightarrow>
            let (ds1, d) = uvrgw_conf_get_dispatcher (mqvc_title cfg) (dir = DIR_OUT) ds; val = val\<lparr>mqv_disp := d\<rparr> in
            if dir = DIR_IN
            then case uvrgw_conf_set_producer ''mqtt'' (mc_host conn) (Some (MqttVal i vi)) True
                   (given (mqvc_init_value cfg) (mc_init_value conn))
                   (given (mqvc_stale_timeout cfg) (mc_stale_timeout conn)) (ds1 ! d) of
                   Inl e \<Rightarrow> Inl (MqttConf e)
                 | Inr dp \<Rightarrow> Inr (val, ds1[d := dp])
            else Inr (val, ds1))"

definition mqtt_conn_configure :: "mqtt_cfg \<Rightarrow> nat \<Rightarrow> dnode list \<Rightarrow> mqtt_error + mqtt_conn \<times> dnode list" where
  "mqtt_conn_configure cfg i ds =
     (case mcc_host cfg of
        None \<Rightarrow> Inl HostNotGiven
      | Some host \<Rightarrow>
          if mcc_qos cfg < 0 \<or> 2 < mcc_qos cfg then Inl MqttQosInvalid
          else let conn = \<lparr>mc_host = host, mc_port = mcc_port cfg, mc_client_id = mcc_client_id cfg,
              mc_user = mcc_user cfg, mc_pwd = mcc_pwd cfg, mc_state_topic = mcc_state_topic cfg,
              mc_keepalive_period = mcc_keepalive_period cfg, mc_qos = mcc_qos cfg, mc_retain = mcc_retain cfg,
              mc_init_value = mcc_init_value cfg, mc_stale_timeout = mcc_stale_timeout cfg, mc_values = [],
              mc_loggers = [], mc_mosq = False, mc_connected = False, mc_refused = False\<rparr>
            in case config_childs (mqtt_value_configure conn i) 0 (mcc_values cfg) ds of
                 Inl e \<Rightarrow> Inl e
               | Inr (vals, ds1) \<Rightarrow>
                   (case mqtt_logger_configure (mcc_loggers cfg) ds1 of
                      Inl e \<Rightarrow> Inl (MqttLogger e)
                    | Inr (loggers, ds2) \<Rightarrow> Inr (conn\<lparr>mc_values := vals, mc_loggers := loggers\<rparr>, ds2)))"

definition mqtt_configure :: "mqtt_cfg list \<Rightarrow> dnode list \<Rightarrow> mqtt_error + mqtt_conn list \<times> dnode list" where
  "mqtt_configure cfgs ds = config_childs mqtt_conn_configure 0 cfgs ds"

definition mqtt_outputs :: "mqtt_conn list \<Rightarrow> (val_ref \<times> nat) list" where
  "mqtt_outputs conns =
     concat (map (\<lambda>(i, conn). concat (map (\<lambda>(vi, val).
       if mqv_dir val = DIR_OUT then [(MqttVal i vi, mqv_disp val)] else []) (enum 0 (mc_values conn)))) (enum 0 conns))"

definition mqtt_register_disp_cbs :: "mqtt_conn list \<Rightarrow> dnode list \<Rightarrow> conf_error + dnode list" where
  "mqtt_register_disp_cbs conns ds = register_vals (mqtt_outputs conns) Mqtt_send_value ds"

subsection \<open>Received messages\<close>

definition strcasecmp_eq :: "string \<Rightarrow> string \<Rightarrow> bool" where
  "strcasecmp_eq a b \<longleftrightarrow> map to_lower a = map to_lower b"

fun parse_payload :: "mqtt_type \<Rightarrow> string \<Rightarrow> dbl option" where
  "parse_payload MQTT_SWITCH buf =
     (if strcasecmp_eq ''ON'' buf then Some (DFin 1) else if strcasecmp_eq ''OFF'' buf then Some (DFin 0) else None)"
| "parse_payload MQTT_CONTACT buf =
     (if strcasecmp_eq ''CLOSED'' buf then Some (DFin 1) else if strcasecmp_eq ''OPEN'' buf then Some (DFin 0) else None)"
| "parse_payload MQTT_NUMBER buf =
     (let (f, rest) = strtod buf in
      if rest = buf \<or> \<not> isfinite f then None
      else if dropWhile c_isspace rest = [] then Some f else None)"

text \<open>The first input value with the topic.\<close>

fun find_topic :: "nat \<Rightarrow> mqtt_val list \<Rightarrow> string \<Rightarrow> nat option" where
  "find_topic vi [] topic = None"
| "find_topic vi (val # vals) topic =
     (if mqv_dir val = DIR_IN \<and> mqv_topic val = topic then Some vi else find_topic (Suc vi) vals topic)"

definition log_payload :: "bool \<Rightarrow> mqtt_val \<Rightarrow> mqtt_val \<times> logmsg list" where
  "log_payload ok val =
     (val\<lparr>mqv_invalid := \<not> ok\<rparr>,
      if ok = mqv_invalid val
      then [if ok then (LOG_INFO, ''valid payload again'') else (LOG_WARNING, ''invalid payload ignored'')] else [])"

definition MQTT_BUF :: nat where "MQTT_BUF = 32" \<comment> \<open>\<open>sizeof(buf)\<close>\<close>

definition message_callback ::
  "nat \<Rightarrow> string \<Rightarrow> char list \<Rightarrow> mqtt_conn \<Rightarrow> mqtt_conn \<times> disp_req list \<times> logmsg list" where
  "message_callback i topic payload conn =
     (if MQTT_BUF \<le> length payload then (conn, [], [])
      else case find_topic 0 (mc_values conn) topic of
        None \<Rightarrow> (conn, [], [])
      | Some vi \<Rightarrow>
          let val = mc_values conn ! vi; buf = takeWhile (\<lambda>c. c \<noteq> CHR 0x00) payload;
              f = parse_payload (mqv_type val) buf;
              (val1, msgs) = log_payload (f \<noteq> None) val
          in (conn\<lparr>mc_values := (mc_values conn)[vi := val1]\<rparr>,
              case f of None \<Rightarrow> [] | Some x \<Rightarrow> [Disp (mqv_disp val) (Some (MqttVal i vi)) x True], msgs))"

subsection \<open>Published values\<close>

text \<open>
  What is published: \<open>None\<close> is undefined behaviour of \<open>snprintf\<close>, \<open>Some None\<close> that the text does not fit
  into the buffer (or that \<open>snprintf\<close> fails because it is longer than \<open>INT_MAX\<close>).
\<close>

definition send_payload :: "hex_digits \<Rightarrow> mqtt_val \<Rightarrow> dbl \<Rightarrow> string option option" where
  "send_payload hex val f =
     (case mqv_type val of
        MQTT_SWITCH \<Rightarrow> Some (Some (if d_le (DFin (1 / 2)) f then ''ON'' else ''OFF''))
      | MQTT_CONTACT \<Rightarrow> Some (Some (if d_le (DFin (1 / 2)) f then ''CLOSED'' else ''OPEN''))
      | MQTT_NUMBER \<Rightarrow>
          (case mqv_fmt val of
             None \<Rightarrow> None
           | Some fmt \<Rightarrow> map_option (\<lambda>txt. if MQTT_BUF \<le> length txt then None else Some txt) (c_printf hex fmt [f])))"

definition log_sent :: "mosq_err \<Rightarrow> mqtt_val \<Rightarrow> mqtt_val \<times> logmsg list" where
  "log_sent err val =
     (if err \<noteq> MOSQ_ERR_SUCCESS then
        (if err \<noteq> MOSQ_ERR_NO_CONN \<and> \<not> mqv_send_failed val
         then (val\<lparr>mqv_send_failed := True\<rparr>, [(LOG_ERR, ''send failed'')]) else (val, []))
      else if mqv_send_failed val then (val\<lparr>mqv_send_failed := False\<rparr>, [(LOG_INFO, ''send ok again'')])
      else (val, []))"

text \<open>\<open>rc\<close> is the result of \<open>mosquitto_publish\<close>; the first component is the result 0 of the callback.\<close>

definition mqtt_send_value ::
  "hex_digits \<Rightarrow> mosq_err \<Rightarrow> mqtt_val \<Rightarrow> dbl \<Rightarrow> bool \<Rightarrow> (bool \<times> mqtt_val \<times> mosq_pub list \<times> logmsg list) option" where
  "mqtt_send_value hex rc val f valid =
     map_option (\<lambda>payload.
       let (err, pubs) =
         (case payload of
            None \<Rightarrow> (MOSQ_ERR_PAYLOAD_SIZE, [])
          | Some txt \<Rightarrow> (rc, [Publish (mqv_topic val) txt (mqv_qos val) (mqv_retain val)]));
         (val1, msgs) = log_sent err val
       in (err = MOSQ_ERR_SUCCESS, val1, pubs, msgs)) (send_payload hex val f)"

subsection \<open>The session\<close>

text \<open>Calls of libmosquitto and of the logger's thread; a number is the index of the connection.\<close>

datatype mosq_call =
    Lib_init | Lib_cleanup
  | Mosq_new nat "string option"
  | Username_pw_set nat string string
  | Callbacks_set nat
  | Will_set nat mosq_pub
  | Loop_start nat
  | Connect_async nat string int int
  | Mosq_publish nat mosq_pub
  | Mosq_subscribe nat string int
  | Mosq_disconnect nat
  | Loop_stop nat
  | Mosq_destroy nat
  | Logger_thread_create | Logger_thread_join

definition state_pub :: "mqtt_conn \<Rightarrow> string \<Rightarrow> mosq_pub list" where
  "state_pub conn txt =
     (case mc_state_topic conn of Some t \<Rightarrow> [Publish t txt (mc_qos conn) (mc_retain conn)] | None \<Rightarrow> [])"

definition connect_callback :: "nat \<Rightarrow> int \<Rightarrow> mqtt_conn \<Rightarrow> mqtt_conn \<times> mosq_call list \<times> logmsg list" where
  "connect_callback i result conn =
     (if result \<noteq> 0 then
        (if \<not> mc_refused conn then (conn\<lparr>mc_refused := True\<rparr>, [], [(LOG_WARNING, ''connection refused'')])
         else (conn, [], []))
      else (conn\<lparr>mc_connected := True, mc_refused := False\<rparr>,
        map (Mosq_publish i) (state_pub conn ''ON'') @
        map (\<lambda>val. Mosq_subscribe i (mqv_topic val) 0) (filter (\<lambda>val. mqv_dir val = DIR_IN) (mc_values conn)),
        [(LOG_INFO, ''connected'')]))"

definition disconnect_callback :: "int \<Rightarrow> mqtt_conn \<Rightarrow> mqtt_conn \<times> logmsg list" where
  "disconnect_callback result conn =
     (conn\<lparr>mc_connected := False\<rparr>,
      if mc_connected conn \<and> result \<noteq> 0 then [(LOG_WARNING, ''connection lost'')] else [])"

subsection \<open>The check of the formats\<close>

lemma skip_spec_is_directive: "skip_spec = skip_directive"
proof -
  have a: "(\<lambda>c. c \<in> set ''-+ #0'') = is_flag" by (simp add: is_flag_def fun_eq_iff)
  have b: "(\<lambda>c. c \<in> set ''0123456789'') = is_dec"
  proof
    fix c :: char
    show "(c \<in> set ''0123456789'') = is_dec c"
    proof
      show "c \<in> set ''0123456789'' \<Longrightarrow> is_dec c" by (auto simp: is_dec_def digit_val_def ch_def)
    next
      assume "is_dec c"
      then have "48 \<le> nat (ch c)" "nat (ch c) < 58" by (auto simp: is_dec_def digit_val_def split: if_splits)
      then have "nat (ch c) \<in> set [48..<58]" by (simp only: set_upt atLeastLessThan_iff simp_thms)
      moreover have "\<forall>n \<in> set [48..<58]. (char_of (n :: nat) :: char) \<in> set ''0123456789''" by code_simp
      moreover have "c = char_of (nat (ch c))" by (simp add: ch_def)
      ultimately show "c \<in> set ''0123456789''" by (metis (no_types))
    qed
  qed
  show ?thesis by (rule ext, unfold skip_spec_def skip_directive_def a b) (rule refl)
qed

lemma check_fmt_loop_percent:
  "take 1 p \<noteq> ''%'' \<Longrightarrow> check_fmt_loop (CHR ''%'' # p) n =
    (case skip_directive p of [] \<Rightarrow> None
     | k # rest \<Rightarrow> if k \<in> set double_conv then check_fmt_loop rest (n + 1) else None)"
  by (simp only: check_fmt_loop.simps skip_spec_is_directive double_conv_def) simp

lemma case_list_Some:
  "(case s of [] \<Rightarrow> None | k # rest \<Rightarrow> if P k then f rest else None) = Some m \<Longrightarrow>
    \<exists>k rest. s = k # rest \<and> P k \<and> f rest = Some m"
  by (auto split: list.splits if_splits)

lemma check_fmt_loop_sound: "check_fmt_loop s n = Some m \<Longrightarrow> \<exists>k. double_format s k \<and> m = n + k"
proof (induction s n rule: check_fmt_loop.induct)
  case (1 n)
  then show ?case using end_of_format by auto
next
  case (2 c p n)
  show ?case
  proof (cases "c = CHR ''%''")
    case False
    then show ?thesis using 2(1) 2(4) literal by fastforce
  next
    case pc: True
    show ?thesis
    proof (cases "take 1 p = ''%''")
      case True
      then obtain q where "p = CHR ''%'' # q" by (cases p) auto
      then show ?thesis using 2(2) 2(4) pc percent by fastforce
    next
      case False
      obtain k rest where k: "skip_directive p = k # rest" "k \<in> set double_conv" "check_fmt_loop rest (n + 1) = Some m"
        using case_list_Some [OF 2(4) [unfolded pc check_fmt_loop_percent [OF False]]] by (elim exE conjE)
      have "\<not> c \<noteq> CHR ''%''" using pc by blast
      from 2(3) [OF this False k(1) [folded skip_spec_is_directive] k(2) [unfolded double_conv_def] k(3)]
      obtain j where j: "double_format rest j" "m = n + 1 + j" by (elim exE conjE)
      obtain flags width prec len where "p = flags @ width @ prec @ len @ k # rest" "list_all is_flag flags"
        "list_all is_dec width" "prec = [] \<or> (\<exists>ds. prec = CHR ''.'' # ds \<and> list_all is_dec ds)" "len \<in> {[], ''l''}"
        using skip_directive_read [OF k(1)] by blast
      then have "double_format (c # p) (Suc j)" using conversion [OF _ _ _ _ k(2) j(1)] pc by simp
      then show ?thesis using j(2) by auto
    qed
  qed
qed

lemma check_fmt_loop_complete: "double_format s k \<Longrightarrow> check_fmt_loop s n = Some (n + k)"
proof (induction s k arbitrary: n rule: double_format.induct)
  case (conversion flags width prec len k s m)
  let ?p = "flags @ width @ prec @ len @ k # s"
  have "skip_directive ?p = k # s" by (rule skip_directive_written [OF conversion.hyps(1-5)])
  then have "check_fmt_loop (CHR ''%'' # ?p) n = check_fmt_loop s (n + 1)"
    using conversion.hyps(5)
    by (simp only: check_fmt_loop_percent [OF directive_start [OF conversion.hyps(1-5)]] list.case if_True)
  then show ?case using conversion.IH by simp
qed simp_all

text \<open>
  C28. A number format is accepted exactly if it is built of literal text, \<open>%%\<close> and one conversion of a
  double.
\<close>

theorem check_fmt_exact: "check_fmt fmt \<longleftrightarrow> double_format fmt 1"
  using check_fmt_loop_sound [of fmt 0 1] check_fmt_loop_complete [of fmt 1 0] by (auto simp: check_fmt_def)

subsection \<open>Configured values\<close>

text \<open>What configuration ensures of a value.\<close>

definition mqtt_val_ok :: "mqtt_val \<Rightarrow> bool" where
  "mqtt_val_ok val \<longleftrightarrow> 0 \<le> mqv_qos val \<and> mqv_qos val \<le> 2 \<and> \<not> mqv_invalid val \<and> \<not> mqv_send_failed val \<and>
     (mqv_dir val = DIR_OUT \<and> mqv_type val = MQTT_NUMBER \<longrightarrow> (\<exists>fmt. mqv_fmt val = Some fmt \<and> double_format fmt 1))"

lemma mqtt_value_check_ok:
  assumes "mqtt_value_check val = None" "\<not> mqv_invalid val" "\<not> mqv_send_failed val"
  shows "mqtt_val_ok (val\<lparr>mqv_disp := d\<rparr>)"
  using assms check_fmt_loop_sound by (fastforce simp: mqtt_value_check_def mqtt_val_ok_def check_fmt_def split: if_splits option.splits)

lemma mqtt_value_configure_ok:
  assumes "mqtt_value_configure conn i cfg vi ds = Inr (val, ds')"
  shows "mqtt_val_ok val"
proof -
  obtain dir type topic d where v: "mqtt_value_check (new_mqtt_val conn cfg dir type topic) = None"
    "val = (new_mqtt_val conn cfg dir type topic)\<lparr>mqv_disp := d\<rparr>"
    using assms by (auto simp: mqtt_value_configure_def Let_def split: option.splits prod.splits if_splits sum.splits)
  show ?thesis unfolding v(2) by (rule mqtt_value_check_ok [OF v(1)]) (simp_all add: new_mqtt_val_def)
qed

lemma mqtt_conn_configure_ok:
  assumes "mqtt_conn_configure cfg i ds = Inr (conn, ds')"
  shows "(\<forall>val \<in> set (mc_values conn). mqtt_val_ok val) \<and> \<not> mc_mosq conn \<and> \<not> mc_connected conn"
proof -
  obtain conn0 ds1 vals where c: "config_childs (mqtt_value_configure conn0 i) 0 (mcc_values cfg) ds = Inr (vals, ds1)"
    "mc_values conn = vals" "\<not> mc_mosq conn" "\<not> mc_connected conn"
    using assms by (auto simp: mqtt_conn_configure_def Let_def split: option.splits sum.splits if_splits prod.splits)
  have "\<forall>val \<in> set vals. mqtt_val_ok val" by (rule config_childs_all [OF c(1) mqtt_value_configure_ok])
  then show ?thesis using c(2-) by simp
qed

lemma mqtt_configure_ok:
  assumes "mqtt_configure cfgs ds = Inr (conns, ds')" "conn \<in> set conns"
  shows "\<forall>val \<in> set (mc_values conn). mqtt_val_ok val" "\<not> mc_mosq conn" "\<not> mc_connected conn"
proof -
  have "\<forall>conn \<in> set conns. (\<forall>val \<in> set (mc_values conn). mqtt_val_ok val) \<and> \<not> mc_mosq conn \<and> \<not> mc_connected conn"
    by (rule config_childs_all [OF assms(1) [unfolded mqtt_configure_def] mqtt_conn_configure_ok])
  then show "\<forall>val \<in> set (mc_values conn). mqtt_val_ok val" "\<not> mc_mosq conn" "\<not> mc_connected conn" using assms(2) by blast+
qed

lemma send_payload_ok:
  assumes "mqtt_val_ok val" "mqv_dir val = DIR_OUT"
  shows "\<exists>payload. send_payload hex val f = Some payload \<and> (\<forall>txt. payload = Some txt \<longrightarrow> length txt < MQTT_BUF)"
proof (cases "mqv_type val")
  case MQTT_NUMBER
  then obtain fmt where fmt: "mqv_fmt val = Some fmt" "double_format fmt 1" using assms by (auto simp: mqtt_val_ok_def)
  obtain s where "c_printf hex fmt [f] = Some s" using c_printf_defined [OF fmt(2), of "[f]"] by auto
  then show ?thesis using MQTT_NUMBER fmt(1) by (simp add: send_payload_def)
qed (simp_all add: send_payload_def MQTT_BUF_def)

text \<open>
  C29. No output of an accepted configuration is undefined: whatever number is published, the format
  consumes exactly the one argument, what is published fits into the buffer of 32 bytes and goes to
  the value's topic with a valid QoS, and the callback reports success only if something was published.
\<close>

theorem mqtt_output_defined:
  assumes "mqtt_configure cfgs ds = Inr (conns, ds')" "conn \<in> set conns" "val \<in> set (mc_values conn)" "mqv_dir val = DIR_OUT"
  shows "\<exists>ok val' pubs msgs. mqtt_send_value hex rc val f valid = Some (ok, val', pubs, msgs) \<and>
    (\<forall>pub \<in> set pubs. \<exists>txt. pub = Publish (mqv_topic val) txt (mqv_qos val) (mqv_retain val) \<and> length txt < 32) \<and>
    0 \<le> mqv_qos val \<and> mqv_qos val \<le> 2 \<and> (ok \<longleftrightarrow> pubs \<noteq> [] \<and> rc = MOSQ_ERR_SUCCESS)"
proof -
  have ok: "mqtt_val_ok val" using mqtt_configure_ok(1) [OF assms(1,2)] assms(3) by blast
  obtain payload where p: "send_payload hex val f = Some payload" "\<forall>txt. payload = Some txt \<longrightarrow> length txt < MQTT_BUF"
    using send_payload_ok [OF ok assms(4)] by blast
  then show ?thesis using ok by (cases payload) (auto simp: mqtt_send_value_def mqtt_val_ok_def MQTT_BUF_def split: prod.splits)
qed

definition example_mqtt_cfg :: "mqtt_cfg list" where
  "example_mqtt_cfg = [mqtt_opts\<lparr>mcc_host := Some ''broker'', mcc_values :=
     [(mqtt_val_opts ''power'')\<lparr>mqvc_dir := Some DIR_OUT, mqvc_type := Some MQTT_NUMBER, mqvc_topic := Some ''p'', mqvc_fmt := Some ''%.2f W''\<rparr>,
      (mqtt_val_opts ''setpoint'')\<lparr>mqvc_dir := Some DIR_IN, mqvc_type := Some MQTT_NUMBER, mqvc_topic := Some ''s''\<rparr>]\<rparr>]"

lemma example_mqtt_configured:
  "\<exists>conns ds. mqtt_configure example_mqtt_cfg [] = Inr (conns, ds) \<and> length conns = 1 \<and> length (mc_values (hd conns)) = 2 \<and>
    mqv_dir (hd (mc_values (hd conns))) = DIR_OUT"
proof -
  have "case mqtt_configure example_mqtt_cfg [] of Inr (conns, ds) \<Rightarrow> length conns = 1 \<and> length (mc_values (hd conns)) = 2 \<and>
    mqv_dir (hd (mc_values (hd conns))) = DIR_OUT | Inl _ \<Rightarrow> False" by code_simp
  then show ?thesis by (auto split: sum.splits)
qed

theorem mqtt_output_defined_witness:
  "\<exists>ok val' pubs msgs. mqtt_send_value (\<lambda>_ _. []) MOSQ_ERR_SUCCESS
    (hd (mc_values (hd (fst (projr (mqtt_configure example_mqtt_cfg [])))))) (DFin 5) True = Some (ok, val', pubs, msgs)"
proof -
  obtain conns ds where c: "mqtt_configure example_mqtt_cfg [] = Inr (conns, ds)" "length conns = 1"
    "length (mc_values (hd conns)) = 2" "mqv_dir (hd (mc_values (hd conns))) = DIR_OUT"
    using example_mqtt_configured by blast
  have "hd conns \<in> set conns" "hd (mc_values (hd conns)) \<in> set (mc_values (hd conns))"
    by (rule hd_in_set, use c in auto)+
  then show ?thesis using mqtt_output_defined [OF c(1) _ _ c(4)] c(1) by fastforce
qed

subsection \<open>What is published is received\<close>

lemma c_printf_fixed: "c_printf hex (''%.'' @ dec p @ ''f'') [f] = Some (fmt_f p f)"
proof -
  have all: "\<forall>c \<in> set (dec p). is_dec c" using dec_digit_val by (auto simp: is_dec_def)
  have f: "\<not> is_dec (CHR ''f'')" "\<not> is_flag (CHR ''.'')" "\<not> is_dec (CHR ''.'')" by code_simp+
  have tw: "takeWhile is_dec (dec p @ ''f'') = dec p" "dropWhile is_dec (dec p @ ''f'') = ''f''"
    using all f by (simp_all add: takeWhile_append2 dropWhile_append2)
  have v: "dec_value (dec p) = p" "dec_value [] = 0" by (simp_all add: dec_value_def fst_scan_dec)
  have "parse_directive (''.'' @ dec p @ ''f'') =
      Some (\<lparr>pf_left = False, pf_plus = False, pf_space = False, pf_alt = False, pf_zero = False, pf_width = 0,
        pf_prec = Some p, pf_conv = CHR ''f''\<rparr>, [])"
    using f by (simp add: parse_directive_def Let_def tw v double_conv_def)
  moreover have "conv_text hex \<lparr>pf_left = False, pf_plus = False, pf_space = False, pf_alt = False, pf_zero = False,
      pf_width = 0, pf_prec = Some p, pf_conv = CHR ''f''\<rparr> f = fmt_f p f"
    by (cases f) (simp_all add: conv_text_def prefix_of_def fmt_f_def number_text_def text_f_def isnan_def)
  ultimately show ?thesis by simp
qed

text \<open>The number that is received when \<open>f\<close> is published, for numbers with \<open>p\<close> decimals.\<close>

definition received :: "mqtt_type \<Rightarrow> nat \<Rightarrow> dbl \<Rightarrow> dbl" where
  "received type p f =
     (case type of MQTT_NUMBER \<Rightarrow> mk_dbl (signbit f) (printed p f) | _ \<Rightarrow> d_of_bool (d_le (DFin (1 / 2)) f))"

lemma strcasecmp_facts:
  "strcasecmp_eq ''ON'' ''ON''" "\<not> strcasecmp_eq ''ON'' ''OFF''" "strcasecmp_eq ''OFF'' ''OFF''"
  "strcasecmp_eq ''CLOSED'' ''CLOSED''" "\<not> strcasecmp_eq ''CLOSED'' ''OPEN''" "strcasecmp_eq ''OPEN'' ''OPEN''"
  by code_simp+

lemma fmt_f_not_Nil: "fmt_f p f \<noteq> []"
  using fmt_fixed_head [of p "nat (rne (\<bar>rval f\<bar> * 10 ^ p))"] by (auto simp: fmt_f_def)

lemma parse_sent:
  assumes "send_payload hex val f = Some (Some txt)" "isfinite f" "isfinite (received (mqv_type val) p f)"
    and "mqv_type val = MQTT_NUMBER \<longrightarrow> mqv_fmt val = Some (''%.'' @ dec p @ ''f'')"
  shows "parse_payload (mqv_type val) txt = Some (received (mqv_type val) p f)"
proof (cases "mqv_type val")
  case MQTT_NUMBER
  have "c_printf hex (''%.'' @ dec p @ ''f'') [f] = Some txt"
    using assms(1,4) MQTT_NUMBER by (auto simp: send_payload_def split: if_splits)
  then have t: "txt = fmt_f p f" by (simp only: c_printf_fixed option.inject)
  have "strtod (fmt_f p f @ []) = (mk_dbl (signbit f) (printed p f), [])"
    by (rule strtod_fmt_f [OF assms(2)]) (simp_all add: starts_digit_def ci_prefix_def)
  then show ?thesis using MQTT_NUMBER assms(3) fmt_f_not_Nil [of p f] by (simp add: t received_def)
qed (use assms in \<open>auto simp: send_payload_def received_def d_of_bool_def strcasecmp_facts split: if_splits\<close>)

lemma parse_payload_finite: "parse_payload type buf = Some f \<Longrightarrow> isfinite f"
  by (cases type) (auto split: if_splits prod.splits)

lemma find_topic_Some:
  "find_topic k vals topic = Some vi \<Longrightarrow>
    \<exists>m. vi = k + m \<and> m < length vals \<and> mqv_dir (vals ! m) = DIR_IN \<and> mqv_topic (vals ! m) = topic \<and>
      \<not> list_ex (\<lambda>v. mqv_dir v = DIR_IN \<and> mqv_topic v = topic) (take m vals)"
proof (induction vals arbitrary: k)
  case (Cons val vals)
  show ?case
  proof (cases "mqv_dir val = DIR_IN \<and> mqv_topic val = topic")
    case True
    then show ?thesis using Cons.prems by (intro exI [of _ 0]) simp
  next
    case False
    then have "find_topic (Suc k) vals topic = Some vi" using Cons.prems by (simp split: if_splits)
    then obtain m where "vi = Suc k + m" "m < length vals" "mqv_dir (vals ! m) = DIR_IN" "mqv_topic (vals ! m) = topic"
      "\<not> list_ex (\<lambda>v. mqv_dir v = DIR_IN \<and> mqv_topic v = topic) (take m vals)"
      using Cons.IH by blast
    then show ?thesis using False by (intro exI [of _ "Suc m"]) simp
  qed
qed simp

interpretation mqtt_payload_log: edge_logger mqv_invalid log_payload
  by unfold_locales (auto simp: log_payload_def)

text \<open>Publishing while the broker is not connected is neither logged nor remembered; all other failures are.\<close>

interpretation mqtt_send_log: edge_logger mqv_send_failed "\<lambda>ok. log_sent (if ok then MOSQ_ERR_SUCCESS else MOSQ_ERR_OTHER n)"
  by unfold_locales (auto simp: log_sent_def)

text \<open>
  C30. A received message makes at most one value known, and only a finite number: it is dispatched as
  valid to the name of the first input with the message's topic, and it is what the payload says. A
  payload that is too long, that belongs to no input or that is not of the input's type is dropped;
  nothing but the flag of the log changes.
\<close>

theorem message_dispatches_payload:
  assumes "message_callback i topic payload conn = (conn', reqs, msgs)"
  shows "(reqs = [] \<or> (\<exists>vi f. let val = mc_values conn ! vi in
      reqs = [Disp (mqv_disp val) (Some (MqttVal i vi)) f True] \<and> isfinite f \<and> length payload \<le> 31 \<and>
      parse_payload (mqv_type val) (takeWhile (\<lambda>c. c \<noteq> CHR 0x00) payload) = Some f \<and>
      vi < length (mc_values conn) \<and> mqv_dir val = DIR_IN \<and> mqv_topic val = topic \<and>
      \<not> list_ex (\<lambda>v. mqv_dir v = DIR_IN \<and> mqv_topic v = topic) (take vi (mc_values conn)))) \<and>
    map (mqv_invalid_update (\<lambda>_. False)) (mc_values conn') = map (mqv_invalid_update (\<lambda>_. False)) (mc_values conn) \<and>
    mc_values_update (\<lambda>_. []) conn' = mc_values_update (\<lambda>_. []) conn \<and> length msgs \<le> 1"
proof (cases "MQTT_BUF \<le> length payload \<or> find_topic 0 (mc_values conn) topic = None")
  case True
  then have "message_callback i topic payload conn = (conn, [], [])" by (auto simp: message_callback_def)
  then show ?thesis using assms by simp
next
  case False
  then obtain vi where l: "length payload \<le> 31" and vi: "find_topic 0 (mc_values conn) topic = Some vi"
    by (auto simp: MQTT_BUF_def)
  let ?val = "mc_values conn ! vi"
  let ?f = "parse_payload (mqv_type ?val) (takeWhile (\<lambda>c. c \<noteq> CHR 0x00) payload)"
  have t: "vi < length (mc_values conn)" "mqv_dir ?val = DIR_IN" "mqv_topic ?val = topic"
    and first: "\<not> list_ex (\<lambda>v. mqv_dir v = DIR_IN \<and> mqv_topic v = topic) (take vi (mc_values conn))"
    using find_topic_Some [OF vi] by auto
  have out: "conn' = conn\<lparr>mc_values := (mc_values conn)[vi := fst (log_payload (?f \<noteq> None) ?val)]\<rparr>"
    "reqs = (case ?f of None \<Rightarrow> [] | Some x \<Rightarrow> [Disp (mqv_disp ?val) (Some (MqttVal i vi)) x True])"
    "msgs = snd (log_payload (?f \<noteq> None) ?val)"
    using assms vi l by (simp_all add: message_callback_def MQTT_BUF_def Let_def case_prod_beta)
  have frame: "map (mqv_invalid_update (\<lambda>_. False)) (mc_values conn') = map (mqv_invalid_update (\<lambda>_. False)) (mc_values conn) \<and>
      mc_values_update (\<lambda>_. []) conn' = mc_values_update (\<lambda>_. []) conn \<and> length msgs \<le> 1"
    using t by (simp add: out log_payload_def map_update list_update_same_conv)
  show ?thesis
  proof (cases ?f)
    case (Some f)
    have "isfinite f" using Some by (rule parse_payload_finite)
    then show ?thesis using Some out(2) frame l t first by (auto simp: Let_def)
  qed (use out(2) frame in simp)
qed

definition example_conn :: mqtt_conn where
  "example_conn =
     \<lparr>mc_host = ''broker'', mc_port = 1883, mc_client_id = None, mc_user = None, mc_pwd = None, mc_state_topic = None,
      mc_keepalive_period = 300, mc_qos = 0, mc_retain = False, mc_init_value = DFin 0, mc_stale_timeout = 0,
      mc_values = [\<lparr>mqv_name = ''setpoint'', mqv_dir = DIR_IN, mqv_type = MQTT_NUMBER, mqv_topic = ''s'', mqv_fmt = None,
        mqv_qos = 0, mqv_retain = False, mqv_disp = 1, mqv_invalid = False, mqv_send_failed = False\<rparr>],
      mc_loggers = [], mc_mosq = False, mc_connected = False, mc_refused = False\<rparr>"

theorem message_dispatches_payload_witness:
  "message_callback 0 ''s'' ''1.5 '' example_conn = (example_conn, [Disp 1 (Some (MqttVal 0 0)) (DFin (3 / 2)) True], []) \<and>
   map (mqv_invalid_update (\<lambda>_. False)) (mc_values example_conn) = map (mqv_invalid_update (\<lambda>_. False)) (mc_values example_conn)"
proof -
  have m: "message_callback 0 ''s'' ''1.5 '' example_conn = (example_conn, [Disp 1 (Some (MqttVal 0 0)) (DFin (3 / 2)) True], [])"
    by code_simp
  then show ?thesis using message_dispatches_payload [OF m] by blast
qed

text \<open>A published text has no NUL.\<close>

lemma digit_no_NUL: "digit_val c < 10 \<Longrightarrow> c \<noteq> CHR 0x00"
  by (auto simp: digit_val_def ch_def)

lemma fmt_f_no_NUL: "\<forall>c \<in> set (fmt_f p f). c \<noteq> CHR 0x00"
proof -
  have "CHR 0x00 \<notin> set (dec n)" "CHR 0x00 \<notin> set (pad p n)" for n
    using dec_digit_val pad_digit_val digit_no_NUL by blast+
  then have "CHR 0x00 \<notin> set (fmt_fixed p n)" for n by (simp add: fmt_fixed_def)
  then show ?thesis by (auto simp: fmt_f_def)
qed

lemma no_NUL_words:
  "\<forall>w \<in> {''ON'', ''OFF'', ''CLOSED'', ''OPEN''}. takeWhile (\<lambda>c. c \<noteq> CHR 0x00) w = w"
  by code_simp

lemma sent_no_NUL:
  assumes "send_payload hex val f = Some (Some txt)"
    and "mqv_type val = MQTT_NUMBER \<longrightarrow> mqv_fmt val = Some (''%.'' @ dec p @ ''f'')"
  shows "takeWhile (\<lambda>c. c \<noteq> CHR 0x00) txt = txt"
proof (cases "mqv_type val")
  case MQTT_NUMBER
  have "c_printf hex (''%.'' @ dec p @ ''f'') [f] = Some txt"
    using assms MQTT_NUMBER by (auto simp: send_payload_def split: if_splits)
  then have "txt = fmt_f p f" by (simp only: c_printf_fixed option.inject)
  then show ?thesis using fmt_f_no_NUL by (simp add: takeWhile_eq_all_conv)
qed (use assms no_NUL_words in \<open>auto simp: send_payload_def split: if_splits\<close>)

lemma sent_fits: "send_payload hex val f = Some (Some txt) \<Longrightarrow> length txt < MQTT_BUF"
  by (cases "mqv_type val") (auto simp: send_payload_def MQTT_BUF_def split: option.splits if_splits)

text \<open>
  C31. What one connection publishes, another that subscribes to the topic with the same type receives:
  a switch or contact as 1 or 0, a number with \<open>p\<close> decimals as the printed decimal fraction, which is
  at most half a unit of the last decimal from the number.
\<close>

theorem mqtt_send_receive:
  assumes "mqtt_send_value hex rc sender f valid = Some (ok, sender', [Publish topic payload qos retain], msgs)"
    and "find_topic 0 (mc_values conn) topic = Some vi" "mqv_type (mc_values conn ! vi) = mqv_type sender"
    and "isfinite f" "isfinite (received (mqv_type sender) p f)"
    and "mqv_type sender = MQTT_NUMBER \<longrightarrow> mqv_fmt sender = Some (''%.'' @ dec p @ ''f'')"
  shows "fst (snd (message_callback i topic payload conn)) =
      [Disp (mqv_disp (mc_values conn ! vi)) (Some (MqttVal i vi)) (received (mqv_type sender) p f) True] \<and>
    \<bar>printed p f - rval f\<bar> \<le> 1 / (2 * 10 ^ p)"
proof -
  have sent: "send_payload hex sender f = Some (Some payload)"
    using assms(1) by (auto simp: mqtt_send_value_def case_prod_beta split: option.splits)
  have "parse_payload (mqv_type (mc_values conn ! vi)) payload = Some (received (mqv_type sender) p f)"
    using parse_sent [OF sent assms(4,5,6)] assms(3) by simp
  then show ?thesis
    using assms(2) sent_fits [OF sent] sent_no_NUL [OF sent assms(6)] printed_near [OF assms(4)]
    by (simp add: message_callback_def Let_def case_prod_beta del: takeWhile_eq_all_conv)
qed

definition example_sender :: mqtt_val where
  "example_sender = \<lparr>mqv_name = ''power'', mqv_dir = DIR_OUT, mqv_type = MQTT_NUMBER, mqv_topic = ''s'', mqv_fmt = Some ''%.2f'',
     mqv_qos = 0, mqv_retain = False, mqv_disp = 0, mqv_invalid = False, mqv_send_failed = False\<rparr>"

theorem mqtt_send_receive_witness:
  "fst (snd (message_callback 0 ''s'' ''2.12'' example_conn)) =
    [Disp 1 (Some (MqttVal 0 0)) (received MQTT_NUMBER 2 (DFin (17 / 8))) True]"
proof -
  let ?val = example_sender
  have s: "mqtt_send_value (\<lambda>_ _. []) MOSQ_ERR_SUCCESS ?val (DFin (17 / 8)) True =
    Some (True, ?val, [Publish ''s'' ''2.12'' 0 False], [])" by code_simp
  have f: "find_topic 0 (mc_values example_conn) ''s'' = Some 0" by code_simp
  have t: "mqv_type (mc_values example_conn ! 0) = mqv_type ?val" "mqv_type ?val = MQTT_NUMBER" "mqv_disp (mc_values example_conn ! 0) = 1"
    by code_simp+
  have i: "isfinite (DFin (17 / 8))" "isfinite (received (mqv_type ?val) 2 (DFin (17 / 8)))" by code_simp+
  have "mqv_fmt ?val = Some (''%.'' @ dec 2 @ ''f'')" by code_simp
  then show ?thesis using mqtt_send_receive [OF s f t(1) i, of 0] t(2,3) by simp
qed

end
