(* ===== verification/Mqtt_Life.thy ===== *)
theory Mqtt_Life
  imports Mqtt
begin

text \<open>
  Startup and shutdown of the MQTT connections (\<open>mqtt_startup\<close>, \<open>conn_startup\<close>, \<open>mqtt_shutdown\<close>), as the
  sequence of their calls, and the life cycle of libmosquitto's instances that these calls follow.
\<close>

subsection \<open>Startup and shutdown\<close>

record mqtt =
  mq_conns :: "mqtt_conn list"
  mq_thread_running :: bool \<comment> \<open>of mqtt_logger.c\<close>

text \<open>\<open>ok\<close> gives the outcome of the calls. The result: whether it succeeded, the connection, the calls made.\<close>

definition conn_startup :: "(mosq_call \<Rightarrow> bool) \<Rightarrow> nat \<Rightarrow> mqtt_conn \<Rightarrow> bool \<times> mqtt_conn \<times> mosq_call list" where
  "conn_startup ok i conn =
     (let new = Mosq_new i (mc_client_id conn);
          creds = (case (mc_user conn, mc_pwd conn) of (Some u, Some p) \<Rightarrow> [Username_pw_set i u p] | _ \<Rightarrow> []);
          will = map (Will_set i) (state_pub conn ''OFF'');
          fail2 = (\<lambda>calls. (False, conn\<lparr>mc_mosq := False\<rparr>, calls @ [Mosq_destroy i]))
      in if \<not> ok new then (False, conn\<lparr>mc_mosq := False\<rparr>, [new])
         else if \<not> list_all ok creds then fail2 (new # creds)
         else if \<not> list_all ok will then fail2 (new # creds @ Callbacks_set i # will)
         else if \<not> ok (Loop_start i) then fail2 (new # creds @ Callbacks_set i # will @ [Loop_start i])
         else (True, conn\<lparr>mc_mosq := True\<rparr>, new # creds @ Callbacks_set i # will @
                 [Loop_start i, Connect_async i (mc_host conn) (mc_port conn) (mc_keepalive_period conn)]))"

fun start_conns :: "(mosq_call \<Rightarrow> bool) \<Rightarrow> nat \<Rightarrow> mqtt_conn list \<Rightarrow> bool \<times> mqtt_conn list \<times> mosq_call list" where
  "start_conns ok i [] = (True, [], [])"
| "start_conns ok i (conn # conns) =
     (let (started, conn1, calls1) = conn_startup ok i conn in
      if \<not> started then (False, conn1 # conns, calls1)
      else let (all, conns1, calls2) = start_conns ok (Suc i) conns in (all, conn1 # conns1, calls1 @ calls2))"

definition conn_stop :: "nat \<Rightarrow> mqtt_conn \<Rightarrow> mosq_call list" where
  "conn_stop i conn =
     (if mc_mosq conn
      then (if mc_connected conn then map (Mosq_publish i) (state_pub conn ''OFF'') else []) @ [Mosq_disconnect i, Loop_stop i]
      else [])"

definition conn_destroy :: "nat \<Rightarrow> mqtt_conn \<Rightarrow> mosq_call list" where
  "conn_destroy i conn = (if mc_mosq conn then [Mosq_destroy i] else [])"

text \<open>The thread of the loggers: it runs if there are any. The result: success, whether it runs, the call.\<close>

definition mqtt_logger_startup :: "(mosq_call \<Rightarrow> bool) \<Rightarrow> int \<Rightarrow> mqtt_conn list \<Rightarrow> bool \<times> bool \<times> mqtt_conn list \<times> mosq_call list" where
  "mqtt_logger_startup ok now conns =
     (let conns1 = map (\<lambda>conn. conn\<lparr>mc_loggers := schedule_loggers now (mc_loggers conn)\<rparr>) conns in
      if list_all (\<lambda>conn. mc_loggers conn = []) conns1 then (True, False, conns1, [])
      else (ok Logger_thread_create, ok Logger_thread_create, conns1, [Logger_thread_create]))"

definition mqtt_logger_shutdown :: "bool \<Rightarrow> mosq_call list" where
  "mqtt_logger_shutdown running = (if running then [Logger_thread_join] else [])"

definition mqtt_shutdown :: "mqtt \<Rightarrow> mqtt \<times> mosq_call list" where
  "mqtt_shutdown st =
     (\<lparr>mq_conns = map (\<lambda>conn. conn\<lparr>mc_mosq := False\<rparr>) (mq_conns st), mq_thread_running = False\<rparr>,
      mqtt_logger_shutdown (mq_thread_running st) @
      concat (map (\<lambda>(i, conn). conn_stop i conn) (enum 0 (mq_conns st))) @
      concat (map (\<lambda>(i, conn). conn_destroy i conn) (enum 0 (mq_conns st))) @ [Lib_cleanup])"

definition mqtt_startup :: "(mosq_call \<Rightarrow> bool) \<Rightarrow> int \<Rightarrow> mqtt_conn list \<Rightarrow> bool \<times> mqtt \<times> mosq_call list" where
  "mqtt_startup ok now conns =
     (let fail1 = (\<lambda>conns calls. let (st, more) = mqtt_shutdown \<lparr>mq_conns = conns, mq_thread_running = False\<rparr>
                                 in (False, st, calls @ more))
      in if \<not> ok Lib_init then (False, \<lparr>mq_conns = conns, mq_thread_running = False\<rparr>, [Lib_init])
         else let (started, conns1, calls) = start_conns ok 0 conns in
           if \<not> started then fail1 conns1 (Lib_init # calls)
           else let (logged, running, conns2, more) = mqtt_logger_startup ok now conns1 in
             if logged then (True, \<lparr>mq_conns = conns2, mq_thread_running = running\<rparr>, Lib_init # calls @ more)
             else fail1 conns2 (Lib_init # calls @ more))"

subsection \<open>The life of an instance\<close>

text \<open>
  What libmosquitto requires of its caller, as a transition system: which instances exist, which of
  them have a running network thread, and whether the logger's thread (which publishes as well) runs.
  An instance is configured before its thread runs and destroyed only after it has stopped; in a \<open>quiet\<close>
  run no instance is destroyed while any thread is left that could publish on it. \<open>ok\<close> gives the outcome of the calls.
\<close>

record life =
  lf_init :: bool
  lf_insts :: "nat set"
  lf_threads :: "nat set"
  lf_logger :: bool

inductive life_step :: "bool \<Rightarrow> (mosq_call \<Rightarrow> bool) \<Rightarrow> life \<Rightarrow> mosq_call \<Rightarrow> life \<Rightarrow> bool" for quiet ok where
  init: "\<not> lf_init s \<Longrightarrow> life_step quiet ok s Lib_init (s\<lparr>lf_init := ok Lib_init\<rparr>)"
| cleanup: "lf_init s \<Longrightarrow> lf_insts s = {} \<Longrightarrow> \<not> lf_logger s \<Longrightarrow> life_step quiet ok s Lib_cleanup (s\<lparr>lf_init := False\<rparr>)"
| new: "lf_init s \<Longrightarrow> i \<notin> lf_insts s \<Longrightarrow>
    life_step quiet ok s (Mosq_new i name) (if ok (Mosq_new i name) then s\<lparr>lf_insts := insert i (lf_insts s)\<rparr> else s)"
| credentials: "i \<in> lf_insts s \<Longrightarrow> i \<notin> lf_threads s \<Longrightarrow> life_step quiet ok s (Username_pw_set i user pwd) s"
| callbacks: "i \<in> lf_insts s \<Longrightarrow> i \<notin> lf_threads s \<Longrightarrow> life_step quiet ok s (Callbacks_set i) s"
| will: "i \<in> lf_insts s \<Longrightarrow> i \<notin> lf_threads s \<Longrightarrow> life_step quiet ok s (Will_set i pub) s"
| loop_start: "i \<in> lf_insts s \<Longrightarrow> i \<notin> lf_threads s \<Longrightarrow>
    life_step quiet ok s (Loop_start i) (if ok (Loop_start i) then s\<lparr>lf_threads := insert i (lf_threads s)\<rparr> else s)"
| connect: "i \<in> lf_threads s \<Longrightarrow> life_step quiet ok s (Connect_async i host port keepalive) s"
| publish: "i \<in> lf_insts s \<Longrightarrow> life_step quiet ok s (Mosq_publish i pub) s"
| subscribe: "i \<in> lf_insts s \<Longrightarrow> life_step quiet ok s (Mosq_subscribe i topic qos) s"
| disconnect: "i \<in> lf_insts s \<Longrightarrow> life_step quiet ok s (Mosq_disconnect i) s"
| loop_stop: "i \<in> lf_threads s \<Longrightarrow> life_step quiet ok s (Loop_stop i) (s\<lparr>lf_threads := lf_threads s - {i}\<rparr>)"
| destroy: "i \<in> lf_insts s \<Longrightarrow> i \<notin> lf_threads s \<Longrightarrow> quiet \<longrightarrow> lf_threads s = {} \<and> \<not> lf_logger s \<Longrightarrow>
    life_step quiet ok s (Mosq_destroy i) (s\<lparr>lf_insts := lf_insts s - {i}\<rparr>)"
| logger_start: "\<not> lf_logger s \<Longrightarrow> life_step quiet ok s Logger_thread_create (s\<lparr>lf_logger := ok Logger_thread_create\<rparr>)"
| logger_stop: "lf_logger s \<Longrightarrow> life_step quiet ok s Logger_thread_join (s\<lparr>lf_logger := False\<rparr>)"

inductive life_run :: "bool \<Rightarrow> (mosq_call \<Rightarrow> bool) \<Rightarrow> life \<Rightarrow> mosq_call list \<Rightarrow> life \<Rightarrow> bool" for quiet ok where
  run_nil: "life_run quiet ok s [] s"
| run_cons: "life_step quiet ok s c s1 \<Longrightarrow> life_run quiet ok s1 cs s2 \<Longrightarrow> life_run quiet ok s (c # cs) s2"

inductive_cases life_destroyE: "life_step quiet ok s (Mosq_destroy i) s'"
inductive_simps life_run_simps [simp]: "life_run quiet ok s [] s'" "life_run quiet ok s (c # cs) s'"

definition idle :: life where
  "idle = \<lparr>lf_init = False, lf_insts = {}, lf_threads = {}, lf_logger = False\<rparr>"

lemma life_run_append: "life_run q ok s cs s1 \<Longrightarrow> life_run q ok s1 ds s2 \<Longrightarrow> life_run q ok s (cs @ ds) s2"
  by (induction rule: life_run.induct) (auto intro: run_cons)

lemma life_run_one: "life_step q ok s c s' \<Longrightarrow> life_run q ok s [c] s'"
  by (auto intro: life_run.intros)

lemma life_run_same: "\<forall>c \<in> set cs. life_step q ok s c s \<Longrightarrow> life_run q ok s cs s"
  by (induction cs) (auto intro: life_run.intros)

lemma life_step_loud: "life_step True ok s c s' \<Longrightarrow> life_step False ok s c s'"
  by (induction rule: life_step.induct) (rule life_step.intros; simp)+

lemma life_run_loud: "life_run True ok s cs s' \<Longrightarrow> life_run False ok s cs s'"
  by (induction rule: life_run.induct) (auto intro: life_run.intros life_step_loud)

text \<open>The abstract state: the instances that a list of connections holds, from index \<open>k\<close> on.\<close>

fun handles :: "nat \<Rightarrow> mqtt_conn list \<Rightarrow> nat set" where
  "handles k [] = {}"
| "handles k (conn # conns) = (if mc_mosq conn then {k} else {}) \<union> handles (Suc k) conns"

definition life_of :: "mqtt \<Rightarrow> life" where
  "life_of st = \<lparr>lf_init = True, lf_insts = handles 0 (mq_conns st), lf_threads = handles 0 (mq_conns st),
     lf_logger = mq_thread_running st\<rparr>"

lemma handles_ge: "i \<in> handles k conns \<Longrightarrow> k \<le> i"
  by (induction k conns rule: handles.induct) (auto split: if_splits)

lemma handles_none: "\<forall>conn \<in> set conns. \<not> mc_mosq conn \<Longrightarrow> handles k conns = {}"
  by (induction k conns rule: handles.induct) auto

lemma handles_map: "(\<And>conn. mc_mosq (f conn) = mc_mosq conn) \<Longrightarrow> handles k (map f conns) = handles k conns"
  by (induction k conns rule: handles.induct) auto

text \<open>Starting one connection: it ends with a running instance, or with none.\<close>

lemma conn_startup_run:
  assumes "conn_startup ok i conn = (started, conn', calls)" "lf_init s" "i \<notin> lf_insts s" "i \<notin> lf_threads s"
  shows "life_run False ok s calls (if started then s\<lparr>lf_insts := insert i (lf_insts s), lf_threads := insert i (lf_threads s)\<rparr> else s)"
    and "mc_mosq conn' = started"
proof -
  define creds where "creds = (case (mc_user conn, mc_pwd conn) of (Some u, Some p) \<Rightarrow> [Username_pw_set i u p] | _ \<Rightarrow> [])"
  define wills where "wills = map (Will_set i) (state_pub conn ''OFF'')"
  define s1 where "s1 = s\<lparr>lf_insts := insert i (lf_insts s)\<rparr>"
  define new where "new = Mosq_new i (mc_client_id conn)"
  have i: "i \<in> lf_insts s1" "i \<notin> lf_threads s1" using assms(4) by (simp_all add: s1_def)
  have n: "life_step False ok s new (if ok new then s1 else s)"
    unfolding new_def s1_def by (rule life_step.new [OF assms(2,3)])
  have "\<forall>c \<in> set (creds @ Callbacks_set i # wills). life_step False ok s1 c s1"
    using i by (auto intro: life_step.intros simp: creds_def wills_def split: option.splits)
  then have r: "life_run False ok s1 creds s1" "life_run False ok s1 (creds @ Callbacks_set i # wills) s1"
    by (simp add: life_run_same, intro life_run_same)
  have "s1\<lparr>lf_insts := lf_insts s1 - {i}\<rparr> = s" using assms(3) by (simp add: s1_def)
  then have d: "life_run False ok s1 [Mosq_destroy i] s"
    using life_step.destroy [OF i, of False ok] by (intro life_run_one) simp
  have l: "life_step False ok s1 (Loop_start i) (if ok (Loop_start i) then s1\<lparr>lf_threads := insert i (lf_threads s1)\<rparr> else s1)"
    by (rule life_step.loop_start [OF i])
  have split: "(started, conn', calls) =
    (if \<not> ok new then (False, conn\<lparr>mc_mosq := False\<rparr>, [new])
     else if \<not> list_all ok creds then (False, conn\<lparr>mc_mosq := False\<rparr>, new # creds @ [Mosq_destroy i])
     else if \<not> list_all ok wills then (False, conn\<lparr>mc_mosq := False\<rparr>, new # (creds @ Callbacks_set i # wills) @ [Mosq_destroy i])
     else if \<not> ok (Loop_start i)
       then (False, conn\<lparr>mc_mosq := False\<rparr>, new # (creds @ Callbacks_set i # wills) @ Loop_start i # [Mosq_destroy i])
     else (True, conn\<lparr>mc_mosq := True\<rparr>, new # (creds @ Callbacks_set i # wills) @ Loop_start i #
             [Connect_async i (mc_host conn) (mc_port conn) (mc_keepalive_period conn)]))"
    unfolding assms(1) [symmetric] conn_startup_def Let_def creds_def [symmetric] wills_def [symmetric] new_def [symmetric]
    by simp
  consider (no_new) "\<not> ok new" | (no_creds) "ok new" "\<not> list_all ok creds"
    | (no_will) "ok new" "list_all ok creds" "\<not> list_all ok wills"
    | (no_thread) "ok new" "list_all ok creds" "list_all ok wills" "\<not> ok (Loop_start i)"
    | (ok) "ok new" "list_all ok creds" "list_all ok wills" "ok (Loop_start i)" by blast
  then have "life_run False ok s calls (if started then s\<lparr>lf_insts := insert i (lf_insts s), lf_threads := insert i (lf_threads s)\<rparr> else s) \<and>
    mc_mosq conn' = started"
  proof cases
    case no_new
    then show ?thesis using split n by (auto intro: life_run_one)
  next
    case no_creds
    then show ?thesis using split n run_cons [OF _ life_run_append [OF r(1) d]] by auto
  next
    case no_will
    then show ?thesis using split n run_cons [OF _ life_run_append [OF r(2) d]] by auto
  next
    case no_thread
    then have "life_run False ok s1 (Loop_start i # [Mosq_destroy i]) s" using l run_cons [OF _ d] by simp
    then show ?thesis using no_thread split n run_cons [OF _ life_run_append [OF r(2)]] by auto
  next
    case ok
    define s2 where "s2 = s1\<lparr>lf_threads := insert i (lf_threads s1)\<rparr>"
    have "life_run False ok s2 [Connect_async i (mc_host conn) (mc_port conn) (mc_keepalive_period conn)] s2"
      by (intro life_run_one life_step.connect) (simp add: s2_def)
    then have "life_run False ok s1 (Loop_start i # [Connect_async i (mc_host conn) (mc_port conn) (mc_keepalive_period conn)]) s2"
      using l ok(4) by (auto simp: s2_def intro: run_cons)
    then have "life_run False ok s (new # (creds @ Callbacks_set i # wills) @ Loop_start i #
             [Connect_async i (mc_host conn) (mc_port conn) (mc_keepalive_period conn)]) s2"
      using n ok(1) by (intro run_cons [OF _ life_run_append [OF r(2)]]) simp_all
    moreover have "s2 = s\<lparr>lf_insts := insert i (lf_insts s), lf_threads := insert i (lf_threads s)\<rparr>" by (simp add: s2_def s1_def)
    ultimately show ?thesis using ok split by simp
  qed
  then show "life_run False ok s calls (if started then s\<lparr>lf_insts := insert i (lf_insts s), lf_threads := insert i (lf_threads s)\<rparr> else s)"
    and "mc_mosq conn' = started" by blast+
qed

lemma start_conns_run:
  assumes "start_conns ok k conns = (started, conns', calls)" "lf_init s" "\<forall>i \<ge> k. i \<notin> lf_insts s \<and> i \<notin> lf_threads s"
    and "\<forall>conn \<in> set conns. \<not> mc_mosq conn"
  shows "life_run False ok s calls (s\<lparr>lf_insts := lf_insts s \<union> handles k conns', lf_threads := lf_threads s \<union> handles k conns'\<rparr>) \<and>
    length conns' = length conns \<and> (started \<longrightarrow> (\<forall>conn \<in> set conns'. mc_mosq conn))"
  using assms
proof (induction conns arbitrary: k s started conns' calls)
  case (Cons conn conns)
  obtain st1 conn1 calls1 where c: "conn_startup ok k conn = (st1, conn1, calls1)" by (metis prod_cases3)
  note r = conn_startup_run [OF c Cons.prems(2)]
  show ?case
  proof (cases st1)
    case False
    then have "started = False" "conns' = conn1 # conns" "calls = calls1" using Cons.prems(1) c by simp_all
    moreover have "handles k (conn1 # conns) = {}" using r(2) False Cons.prems(3,4) handles_none [of conns] by simp
    ultimately show ?thesis using r(1) False Cons.prems(3) by simp
  next
    case True
    obtain st2 conns2 calls2 where d: "start_conns ok (Suc k) conns = (st2, conns2, calls2)" by (metis prod_cases3)
    let ?s1 = "s\<lparr>lf_insts := insert k (lf_insts s), lf_threads := insert k (lf_threads s)\<rparr>"
    have o: "started = st2" "conns' = conn1 # conns2" "calls = calls1 @ calls2" using Cons.prems(1) c d True by simp_all
    have "life_run False ok s calls1 ?s1" using r(1) True Cons.prems(3) by simp
    moreover have ih: "life_run False ok ?s1 calls2 (?s1\<lparr>lf_insts := lf_insts ?s1 \<union> handles (Suc k) conns2,
        lf_threads := lf_threads ?s1 \<union> handles (Suc k) conns2\<rparr>) \<and> length conns2 = length conns \<and>
        (st2 \<longrightarrow> (\<forall>conn \<in> set conns2. mc_mosq conn))"
      using Cons.prems by (intro Cons.IH [OF d]) auto
    moreover have "handles k conns' = insert k (handles (Suc k) conns2)" using o(2) r(2) True Cons.prems(3) by simp
    ultimately show ?thesis using o r(2) True Cons.prems(3) by (auto intro: life_run_append)
  qed
qed simp

text \<open>Stopping and destroying.\<close>

lemma conn_stop_run:
  assumes "mc_mosq conn \<longrightarrow> i \<in> lf_insts s \<and> i \<in> lf_threads s"
  shows "life_run q ok s (conn_stop i conn) (if mc_mosq conn then s\<lparr>lf_threads := lf_threads s - {i}\<rparr> else s)"
proof (cases "mc_mosq conn")
  case True
  then have i: "i \<in> lf_insts s" "i \<in> lf_threads s" using assms by blast+
  have "life_run q ok s ((if mc_connected conn then map (Mosq_publish i) (state_pub conn ''OFF'') else []) @ [Mosq_disconnect i]) s"
    using i by (intro life_run_same) (auto intro: life_step.intros)
  from life_run_append [OF this life_run_one [OF life_step.loop_stop [OF i(2)]]] show ?thesis
    using True by (simp add: conn_stop_def)
qed (simp add: conn_stop_def)

lemma stops_run:
  "handles k conns \<subseteq> lf_insts s \<Longrightarrow> handles k conns \<subseteq> lf_threads s \<Longrightarrow>
    life_run q ok s (concat (map (\<lambda>(i, conn). conn_stop i conn) (enum k conns))) (s\<lparr>lf_threads := lf_threads s - handles k conns\<rparr>)"
proof (induction conns arbitrary: k s)
  case (Cons conn conns)
  let ?s1 = "if mc_mosq conn then s\<lparr>lf_threads := lf_threads s - {k}\<rparr> else s"
  have "handles (Suc k) conns \<subseteq> lf_threads ?s1" using Cons.prems handles_ge [of k "Suc k" conns] by auto
  moreover have "handles (Suc k) conns \<subseteq> lf_insts ?s1" using Cons.prems by auto
  ultimately have b: "life_run q ok ?s1 (concat (map (\<lambda>(i, conn). conn_stop i conn) (enum (Suc k) conns)))
      (?s1\<lparr>lf_threads := lf_threads ?s1 - handles (Suc k) conns\<rparr>)" by (intro Cons.IH)
  have a: "life_run q ok s (conn_stop k conn) ?s1" by (rule conn_stop_run) (use Cons.prems in auto)
  have e: "?s1\<lparr>lf_threads := lf_threads ?s1 - handles (Suc k) conns\<rparr> = s\<lparr>lf_threads := lf_threads s - handles k (conn # conns)\<rparr>"
    by (cases "mc_mosq conn") (simp_all add: Diff_insert2 [symmetric])
  have "concat (map (\<lambda>(i, conn). conn_stop i conn) (enum k (conn # conns))) =
      conn_stop k conn @ concat (map (\<lambda>(i, conn). conn_stop i conn) (enum (Suc k) conns))" by simp
  then show ?case using life_run_append [OF a b] by (simp only: e)
qed simp

lemma destroys_run:
  "handles k conns \<subseteq> lf_insts s \<Longrightarrow> lf_threads s = {} \<Longrightarrow> \<not> lf_logger s \<Longrightarrow>
    life_run q ok s (concat (map (\<lambda>(i, conn). conn_destroy i conn) (enum k conns))) (s\<lparr>lf_insts := lf_insts s - handles k conns\<rparr>)"
proof (induction conns arbitrary: k s)
  case (Cons conn conns)
  let ?s1 = "if mc_mosq conn then s\<lparr>lf_insts := lf_insts s - {k}\<rparr> else s"
  have "handles (Suc k) conns \<subseteq> lf_insts ?s1" using Cons.prems handles_ge [of k "Suc k" conns] by auto
  then have b: "life_run q ok ?s1 (concat (map (\<lambda>(i, conn). conn_destroy i conn) (enum (Suc k) conns)))
      (?s1\<lparr>lf_insts := lf_insts ?s1 - handles (Suc k) conns\<rparr>)" using Cons.prems by (intro Cons.IH) auto
  have a: "life_run q ok s (conn_destroy k conn) ?s1"
    using Cons.prems by (auto simp: conn_destroy_def intro!: life_run_one life_step.destroy)
  have e: "?s1\<lparr>lf_insts := lf_insts ?s1 - handles (Suc k) conns\<rparr> = s\<lparr>lf_insts := lf_insts s - handles k (conn # conns)\<rparr>"
    by (cases "mc_mosq conn") (simp_all add: Diff_insert2 [symmetric])
  have "concat (map (\<lambda>(i, conn). conn_destroy i conn) (enum k (conn # conns))) =
      conn_destroy k conn @ concat (map (\<lambda>(i, conn). conn_destroy i conn) (enum (Suc k) conns))" by simp
  then show ?case using life_run_append [OF a b] by (simp only: e)
qed simp

lemma shutdown_run: "life_run True ok (life_of st) (snd (mqtt_shutdown st)) idle"
proof -
  let ?h = "handles 0 (mq_conns st)"
  let ?s1 = "\<lparr>lf_init = True, lf_insts = ?h, lf_threads = ?h, lf_logger = False\<rparr>"
  have "life_run True ok (life_of st) (if mq_thread_running st then [Logger_thread_join] else []) ?s1"
  proof (cases "mq_thread_running st")
    case True
    then show ?thesis using life_step.logger_stop [of "life_of st" True ok] by (auto simp: life_of_def intro!: life_run_one)
  qed (simp add: life_of_def)
  moreover have "life_run True ok ?s1 (concat (map (\<lambda>(i, conn). conn_stop i conn) (enum 0 (mq_conns st)))) (?s1\<lparr>lf_threads := {}\<rparr>)"
    using stops_run [of 0 "mq_conns st" ?s1] by simp
  moreover have "life_run True ok (?s1\<lparr>lf_threads := {}\<rparr>) (concat (map (\<lambda>(i, conn). conn_destroy i conn) (enum 0 (mq_conns st))))
      (?s1\<lparr>lf_threads := {}, lf_insts := {}\<rparr>)"
    using destroys_run [of 0 "mq_conns st" "?s1\<lparr>lf_threads := {}\<rparr>"] by simp
  moreover have "life_run True ok (?s1\<lparr>lf_threads := {}, lf_insts := {}\<rparr>) [Lib_cleanup] idle"
    using life_step.cleanup [of "?s1\<lparr>lf_threads := {}, lf_insts := {}\<rparr>" True ok] by (auto simp: idle_def intro: life_run_one)
  ultimately show ?thesis unfolding mqtt_shutdown_def mqtt_logger_shutdown_def snd_conv by (intro life_run_append)
qed

text \<open>Starting all connections, in the state after \<open>mosquitto_lib_init\<close>, and taking them down again.\<close>

lemma starts_from_init:
  assumes "start_conns ok 0 conns = (started, conns', calls)" "\<forall>conn \<in> set conns. \<not> mc_mosq conn" "ok Lib_init"
  shows "life_run False ok idle (Lib_init # calls) (life_of \<lparr>mq_conns = conns', mq_thread_running = False\<rparr>)"
    "length conns' = length conns" "started \<Longrightarrow> conn \<in> set conns' \<Longrightarrow> mc_mosq conn"
proof -
  let ?s = "idle\<lparr>lf_init := True\<rparr>"
  have i: "life_step False ok idle Lib_init ?s" using life_step.init [of idle False ok] assms(3) by (simp add: idle_def)
  have a: "life_run False ok ?s calls (?s\<lparr>lf_insts := lf_insts ?s \<union> handles 0 conns', lf_threads := lf_threads ?s \<union> handles 0 conns'\<rparr>) \<and>
      length conns' = length conns \<and> (started \<longrightarrow> (\<forall>conn \<in> set conns'. mc_mosq conn))"
    by (rule start_conns_run [OF assms(1) _ _ assms(2)]) (simp_all add: idle_def)
  have e: "?s\<lparr>lf_insts := lf_insts ?s \<union> handles 0 conns', lf_threads := lf_threads ?s \<union> handles 0 conns'\<rparr> =
      life_of \<lparr>mq_conns = conns', mq_thread_running = False\<rparr>" by (simp add: idle_def life_of_def)
  have r: "life_run False ok ?s calls (life_of \<lparr>mq_conns = conns', mq_thread_running = False\<rparr>) \<and>
      length conns' = length conns \<and> (started \<longrightarrow> (\<forall>conn \<in> set conns'. mc_mosq conn))"
    using a unfolding e .
  show "life_run False ok idle (Lib_init # calls) (life_of \<lparr>mq_conns = conns', mq_thread_running = False\<rparr>)"
    by (rule run_cons [OF i]) (use r in blast)
  show "length conns' = length conns" "started \<Longrightarrow> conn \<in> set conns' \<Longrightarrow> mc_mosq conn" using r by blast+
qed

lemma startup_run:
  assumes "mqtt_startup ok now conns = (started, st, calls)" "\<forall>conn \<in> set conns. \<not> mc_mosq conn"
  shows "life_run False ok idle calls (if started then life_of st else idle)"
    "started \<Longrightarrow> length (mq_conns st) = length conns \<and> (\<forall>conn \<in> set (mq_conns st). mc_mosq conn)"
proof -
  obtain started1 conns1 calls1 where c: "start_conns ok 0 conns = (started1, conns1, calls1)" by (metis prod_cases3)
  define conns2 where "conns2 = map (\<lambda>conn. conn\<lparr>mc_loggers := schedule_loggers now (mc_loggers conn)\<rparr>) conns1"
  let ?st = "\<lambda>conns. \<lparr>mq_conns = conns, mq_thread_running = False\<rparr>"
  have h: "handles 0 conns2 = handles 0 conns1" unfolding conns2_def by (rule handles_map) simp
  then have same: "life_of (?st conns2) = life_of (?st conns1)" by (simp add: life_of_def)
  have down: "life_run False ok (life_of (?st cs)) (snd (mqtt_shutdown (?st cs))) idle" for cs
    by (rule life_run_loud [OF shutdown_run])
  have out: "(started, st, calls) =
    (if \<not> ok Lib_init then (False, ?st conns, [Lib_init])
     else if \<not> started1 then (False, fst (mqtt_shutdown (?st conns1)), (Lib_init # calls1) @ snd (mqtt_shutdown (?st conns1)))
     else if list_all (\<lambda>conn. mc_loggers conn = []) conns2 then (True, ?st conns2, Lib_init # calls1)
     else if ok Logger_thread_create then (True, (?st conns2)\<lparr>mq_thread_running := True\<rparr>, (Lib_init # calls1) @ [Logger_thread_create])
     else (False, fst (mqtt_shutdown (?st conns2)),
           ((Lib_init # calls1) @ [Logger_thread_create]) @ snd (mqtt_shutdown (?st conns2))))"
    unfolding assms(1) [symmetric] mqtt_startup_def Let_def c prod.case case_prod_beta mqtt_logger_startup_def
      by (simp add: conns2_def [symmetric])
  have "life_run False ok idle calls (if started then life_of st else idle) \<and>
    (started \<longrightarrow> length (mq_conns st) = length conns \<and> (\<forall>conn \<in> set (mq_conns st). mc_mosq conn))"
  proof (cases "ok Lib_init")
    case False
    then have "life_run False ok idle [Lib_init] idle"
      using life_step.init [of idle False ok] by (intro life_run_one) (simp add: idle_def)
    then show ?thesis using out False by simp
  next
    case True
    note r = starts_from_init [OF c assms(2) True]
    have l: "life_run False ok idle ((Lib_init # calls1) @ [Logger_thread_create])
        (life_of (?st conns1\<lparr>mq_thread_running := ok Logger_thread_create\<rparr>))"
      using life_run_append [OF r(1) life_run_one [OF life_step.logger_start]] by (simp add: life_of_def)
    have e: "life_of (?st conns2\<lparr>mq_thread_running := True\<rparr>) = life_of (?st conns1\<lparr>mq_thread_running := True\<rparr>)"
      using h by (simp add: life_of_def)
    have all: "started1 \<Longrightarrow> length conns2 = length conns \<and> (\<forall>conn \<in> set conns2. mc_mosq conn)"
      using r(2,3) by (auto simp: conns2_def)
    consider (not_started) "\<not> started1" | (no_loggers) "started1" "list_all (\<lambda>conn. mc_loggers conn = []) conns2"
      | (loggers) "started1" "\<not> list_all (\<lambda>conn. mc_loggers conn = []) conns2" by blast
    then show ?thesis
    proof cases
      case not_started
      then show ?thesis using out True life_run_append [OF r(1) down] by simp
    next
      case no_loggers
      then show ?thesis using out True r(1) all same by simp
    next
      case loggers
      show ?thesis
      proof (cases "ok Logger_thread_create")
        case ok: True
        then show ?thesis using out True loggers l e all by (simp del: life_run_simps)
      next
        case False
        then have "life_run False ok idle ((Lib_init # calls1) @ [Logger_thread_create]) (life_of (?st conns2))"
          using l same by (simp del: life_run_simps)
        from life_run_append [OF this down] show ?thesis using out True loggers False by (simp del: life_run_simps)
      qed
    qed
  qed
  then show "life_run False ok idle calls (if started then life_of st else idle)"
    "started \<Longrightarrow> length (mq_conns st) = length conns \<and> (\<forall>conn \<in> set (mq_conns st). mc_mosq conn)" by blast+
qed

text \<open>
  C32. Startup and shutdown refine the life cycle of the instances, whatever calls fail: instances are
  created once, configured before their thread runs and destroyed after it; a failed startup leaves
  nothing behind, a successful one leaves every connection with a running instance; and shutdown, from
  any state the callbacks lead to, ends all threads before it destroys the first instance, and leaves
  nothing behind.
\<close>

theorem mqtt_lifecycle:
  assumes "mqtt_startup ok now conns = (started, st, calls)" "\<forall>conn \<in> set conns. \<not> mc_mosq conn"
  shows "life_run False ok idle calls (if started then life_of st else idle) \<and>
    (started \<longrightarrow> length (mq_conns st) = length conns \<and> (\<forall>conn \<in> set (mq_conns st). mc_mosq conn)) \<and>
    life_run True ok' (life_of st') (snd (mqtt_shutdown st')) idle \<and> \<not> list_ex mc_mosq (mq_conns (fst (mqtt_shutdown st')))"
  using startup_run [OF assms] shutdown_run [of ok' st'] by (auto simp: mqtt_shutdown_def list_ex_iff)

theorem mqtt_lifecycle_witness:
  "life_run False (\<lambda>_. True) idle (snd (snd (mqtt_startup (\<lambda>_. True) 0 [example_conn])))
    (life_of (fst (snd (mqtt_startup (\<lambda>_. True) 0 [example_conn]))))"
proof -
  obtain started st calls where s: "mqtt_startup (\<lambda>_. True) 0 [example_conn] = (started, st, calls)" by (metis prod_cases3)
  have f: "fst (mqtt_startup (\<lambda>_. True) 0 [example_conn])" "\<not> mc_mosq example_conn" by code_simp+
  have "\<forall>conn \<in> set [example_conn]. \<not> mc_mosq conn" using f(2) by simp
  from mqtt_lifecycle [OF s this] have "life_run False (\<lambda>_. True) idle calls (if started then life_of st else idle)" by blast
  moreover have started using f(1) s by simp
  ultimately show ?thesis unfolding s by (simp only: fst_conv snd_conv if_True)
qed

text \<open>
  Startup itself is not quiet: when a second connection cannot start its network thread, its instance
  is destroyed while the thread of the first one runs. A message that arrives there can be
  dispatched to an output of the second connection, whose callback then publishes on the instance.
\<close>

definition thread_fails :: "nat \<Rightarrow> mosq_call \<Rightarrow> bool" where
  "thread_fails i c \<longleftrightarrow> c \<noteq> Loop_start i"

lemma startup_destroys_while_threads_run:
  "\<exists>pre post s. snd (snd (mqtt_startup (thread_fails 1) 0 [example_conn, example_conn])) = pre @ Mosq_destroy 1 # post \<and>
    life_run False (thread_fails 1) idle pre s \<and> 0 \<in> lf_threads s"
proof -
  let ?ok = "thread_fails 1"
  let ?one = "[Lib_init, Mosq_new 0 None, Callbacks_set 0, Loop_start 0, Connect_async 0 ''broker'' 1883 300]"
  let ?pre = "?one @ [Mosq_new 1 None, Callbacks_set 1, Loop_start 1]"
  have calls: "snd (snd (mqtt_startup ?ok 0 [example_conn, example_conn])) =
      ?pre @ Mosq_destroy 1 # [Mosq_disconnect 0, Loop_stop 0, Mosq_destroy 0, Lib_cleanup]" by code_simp
  let ?s0 = "idle\<lparr>lf_init := True\<rparr>" let ?s1 = "?s0\<lparr>lf_insts := {0}\<rparr>" let ?s2 = "?s1\<lparr>lf_threads := {0}\<rparr>"
  let ?s3 = "?s2\<lparr>lf_insts := {0, 1}\<rparr>"
  have "life_step False ?ok idle Lib_init ?s0" "life_step False ?ok ?s0 (Mosq_new 0 None) ?s1"
    "life_step False ?ok ?s1 (Loop_start 0) ?s2" "life_step False ?ok ?s2 (Mosq_new 1 None) ?s3"
    "life_step False ?ok ?s3 (Loop_start 1) ?s3"
    using life_step.init [of idle False ?ok] life_step.new [of ?s0 0 False ?ok None] life_step.loop_start [of 0 ?s1 False ?ok]
      life_step.new [of ?s2 1 False ?ok None] life_step.loop_start [of 1 ?s3 False ?ok]
    by (simp_all add: idle_def thread_fails_def insert_commute)
  moreover have "life_step False ?ok ?s1 (Callbacks_set 0) ?s1" "life_step False ?ok ?s2 (Connect_async 0 ''broker'' 1883 300) ?s2"
    "life_step False ?ok ?s3 (Callbacks_set 1) ?s3" by (rule life_step.intros; simp add: idle_def)+
  ultimately have "life_run False ?ok idle ?pre ?s3" by (auto intro!: run_cons run_nil simp del: life_run_simps)
  then show ?thesis using calls by fastforce
qed

end
