(* ===== verification/Utils.thy ===== *)
theory Utils
  imports CDouble
begin

text \<open>
  The helpers of utils.c: the clock in milliseconds, the check whether it is synchronised, and the
  descriptor sets for \<open>select\<close>. (\<open>utl_val_limit\<close> is part of the arithmetic of \<open>double\<close>, in CDouble.)
\<close>

subsection \<open>The clock\<close>

text \<open>
  What \<open>clock_gettime\<close> gives. The seconds are multiplied as \<open>unsigned long long\<close>, and the sum is converted
  back to \<open>int64_t\<close>.
\<close>

record timespec =
  tp_sec :: int
  tp_nsec :: int

definition utl_get_ticks :: "timespec \<Rightarrow> int" where
  "utl_get_ticks tp =
     sint ((word_of_int (tp_sec tp) :: 64 word) * 1000 + (word_of_int (tp_nsec tp) :: 64 word) div 1000000)"

text \<open>The result of \<open>adjtimex\<close> and the status it fills in.\<close>

definition TIME_ERROR :: int where "TIME_ERROR = 5"
definition STA_UNSYNC :: "32 word" where "STA_UNSYNC = 0x40"

definition utl_clock_synced :: "int \<times> 32 word \<Rightarrow> bool" where
  "utl_clock_synced = (\<lambda>(ret, status). ret \<noteq> TIME_ERROR \<and> status AND STA_UNSYNC = 0)"

subsection \<open>Descriptor sets\<close>

definition utl_update_fds :: "int \<Rightarrow> int set \<times> int \<Rightarrow> int set \<times> int" where
  "utl_update_fds fd = (\<lambda>(fds, max_fd). (insert fd fds, if max_fd < fd then fd else max_fd))"

end
