(* ===== verification/Sunspec.thy ===== *)
theory Sunspec
  imports Modbus Utils
begin

text \<open>
  The emulated SunSpec meters (\<open>sunspec.c\<close>): configuration, the register image that is built from the
  current values, the answers to requests, and the client slots of a server.

  libmodbus receives and encodes: a received request and the outcome of sending a reply are arguments, a
  reply is its kind with the registers handed to \<open>modbus_reply\<close>, which checks the address range. The
  sockets are numbers that \<open>accept\<close> gives. \<open>sqrt\<close>, \<open>cos\<close> and \<open>sin\<close> are the parameter \<open>libm\<close>; the values of one
  request are read at one moment (\<open>get\<close>, by dispatcher). Allocation failure is not modelled.
\<close>

subsection \<open>Data\<close>

record src =
  sr_name :: "string option"
  sr_disp :: "nat option"

record meter =
  me_name :: string
  me_unit_id :: int
  me_manufacturer :: "string option"
  me_model :: "string option"
  me_options :: "string option"
  me_version :: "string option"
  me_serial :: "string option"
  me_phase :: "src list list" \<comment> \<open>by phase and quantity\<close>
  me_power :: src
  me_energy_imp :: src
  me_energy_exp :: src
  me_frequency :: src
  me_mapping :: "u16 list" \<comment> \<open>\<open>mapping->tab_registers\<close>\<close>
  me_unavailable :: bool

record server =
  se_bind :: string
  se_port :: int
  se_meters :: "meter list"
  se_ctx :: bool \<comment> \<open>\<open>ctx\<close> is not NULL\<close>
  se_listen_fd :: int
  se_client_fds :: "int list"
  se_clients_full :: bool
  se_accept_failed :: bool
  se_thread_running :: bool

text \<open>The options of a meter: \<open>mec_getstr\<close> is \<open>cfg_getstr\<close>.\<close>

record meter_cfg =
  mec_title :: string
  mec_unit_id :: int
  mec_getstr :: "string \<Rightarrow> string option"

record server_cfg =
  sec_bind :: string
  sec_port :: int
  sec_meters :: "meter_cfg list"

definition sunspec_meter_opts :: "string \<Rightarrow> meter_cfg" where
  "sunspec_meter_opts title = \<lparr>mec_title = title, mec_unit_id = - 1, mec_getstr = (\<lambda>_. None)\<rparr>"

definition sunspec_server_opts :: server_cfg where
  "sunspec_server_opts = \<lparr>sec_bind = ''0.0.0.0'', sec_port = 502, sec_meters = []\<rparr>"

datatype sunspec_error = PortInvalid | UnitIdTwice int | UnitIdInvalid | StringTooLong string

definition SUNSPEC_PHASES :: nat where "SUNSPEC_PHASES = 3"
definition SUNSPEC_MAX_CLIENTS :: nat where "SUNSPEC_MAX_CLIENTS = 8"
definition MAP_REGS :: nat where "MAP_REGS = 197"

text \<open>Indices of the quantities of a phase.\<close>

definition PH_CURRENT :: nat where "PH_CURRENT = 0"
definition PH_VOLTAGE :: nat where "PH_VOLTAGE = 1"
definition PH_POWER :: nat where "PH_POWER = 2"
definition PH_PF :: nat where "PH_PF = 3"
definition PH_ENERGY_IMP :: nat where "PH_ENERGY_IMP = 4"
definition PH_ENERGY_EXP :: nat where "PH_ENERGY_EXP = 5"

lemmas ph_defs = PH_CURRENT_def PH_VOLTAGE_def PH_POWER_def PH_PF_def PH_ENERGY_IMP_def PH_ENERGY_EXP_def

definition phase_keys :: "string list" where
  "phase_keys = [''current'', ''voltage'', ''power'', ''pf'', ''energy_import'', ''energy_export'']"

subsection \<open>Configuration\<close>

definition src_configure :: "meter_cfg \<Rightarrow> string \<times> bool \<Rightarrow> dnode list \<Rightarrow> src \<times> dnode list" where
  "src_configure cfg key ds =
     (case mec_getstr cfg (fst key) of
        None \<Rightarrow> (\<lparr>sr_name = None, sr_disp = None\<rparr>, ds)
      | Some name \<Rightarrow>
          let (ds1, d) = uvrgw_conf_get_dispatcher name False ds in
          (\<lparr>sr_name = Some name, sr_disp = Some d\<rparr>,
           if snd key then ds1[d := uvrgw_conf_need_timeout ''sunspec meter'' (mec_title cfg) (ds1 ! d)] else ds1))"

fun src_configures :: "meter_cfg \<Rightarrow> (string \<times> bool) list \<Rightarrow> dnode list \<Rightarrow> src list \<times> dnode list" where
  "src_configures cfg [] ds = ([], ds)"
| "src_configures cfg (key # keys) ds =
     (let (s, ds1) = src_configure cfg key ds; (ss, ds2) = src_configures cfg keys ds1 in (s # ss, ds2))"

text \<open>The keys of the sources with whether they need a timeout, in the order in which they are configured.\<close>

definition source_keys :: "(string \<times> bool) list" where
  "source_keys =
     concat (map (\<lambda>ph. map (\<lambda>q. (phase_keys ! q @ ''_l'' @ dec (ph + 1), q = PH_POWER)) [0..<6]) [0..<SUNSPEC_PHASES]) @
     [(''power'', True), (''energy_import'', False), (''energy_export'', False), (''frequency'', False)]"

definition str_fits :: "meter_cfg \<Rightarrow> string \<Rightarrow> nat \<Rightarrow> bool" where
  "str_fits cfg key max_len = (case mec_getstr cfg key of Some s \<Rightarrow> length s \<le> max_len | None \<Rightarrow> True)"

definition string_keys :: "(string \<times> nat) list" where
  "string_keys = [(''manufacturer'', 32), (''model'', 32), (''options'', 16), (''version'', 16), (''serial'', 32)]"

fun str_configures :: "meter_cfg \<Rightarrow> (string \<times> nat) list \<Rightarrow> sunspec_error option" where
  "str_configures cfg [] = None"
| "str_configures cfg ((key, max_len) # keys) =
     (if str_fits cfg key max_len then str_configures cfg keys else Some (StringTooLong key))"

definition meter_configure :: "meter_cfg \<Rightarrow> nat \<Rightarrow> dnode list \<Rightarrow> sunspec_error + meter \<times> dnode list" where
  "meter_configure cfg mi ds =
     (if mec_unit_id cfg < 1 \<or> 247 < mec_unit_id cfg then Inl UnitIdInvalid
      else case str_configures cfg string_keys of
        Some e \<Rightarrow> Inl e
      | None \<Rightarrow>
          let (srcs, ds1) = src_configures cfg source_keys ds in
          Inr (\<lparr>me_name = mec_title cfg, me_unit_id = mec_unit_id cfg,
                me_manufacturer = mec_getstr cfg ''manufacturer'', me_model = mec_getstr cfg ''model'',
                me_options = mec_getstr cfg ''options'', me_version = mec_getstr cfg ''version'',
                me_serial = mec_getstr cfg ''serial'',
                me_phase = map (\<lambda>ph. take 6 (drop (6 * ph) srcs)) [0..<SUNSPEC_PHASES],
                me_power = srcs ! 18, me_energy_imp = srcs ! 19, me_energy_exp = srcs ! 20, me_frequency = srcs ! 21,
                me_mapping = replicate MAP_REGS 0, me_unavailable = False\<rparr>, ds1))"

fun unit_id_twice :: "int list \<Rightarrow> int list \<Rightarrow> int option" where
  "unit_id_twice seen [] = None"
| "unit_id_twice seen (u # us) = (if u \<in> set seen then Some u else unit_id_twice (seen @ [u]) us)"

definition server_configure :: "server_cfg \<Rightarrow> nat \<Rightarrow> dnode list \<Rightarrow> sunspec_error + server \<times> dnode list" where
  "server_configure cfg si ds =
     (if sec_port cfg \<le> 0 \<or> 65535 < sec_port cfg then Inl PortInvalid
      else case config_childs meter_configure 0 (sec_meters cfg) ds of
        Inl e \<Rightarrow> Inl e
      | Inr (meters, ds1) \<Rightarrow>
          (case unit_id_twice [] (map me_unit_id meters) of
             Some u \<Rightarrow> Inl (UnitIdTwice u)
           | None \<Rightarrow>
               Inr (\<lparr>se_bind = sec_bind cfg, se_port = sec_port cfg, se_meters = meters, se_ctx = False, se_listen_fd = - 1,
                     se_client_fds = replicate SUNSPEC_MAX_CLIENTS (- 1), se_clients_full = False,
                     se_accept_failed = False, se_thread_running = False\<rparr>, ds1)))"

definition sunspec_configure :: "server_cfg list \<Rightarrow> dnode list \<Rightarrow> sunspec_error + server list \<times> dnode list" where
  "sunspec_configure cfgs ds = config_childs server_configure 0 cfgs ds"

subsection \<open>Registers\<close>

definition char_at :: "string \<Rightarrow> nat \<Rightarrow> u8" where
  "char_at s i = (if i < length s then of_char (s ! i) else 0)"

text \<open>The loop over \<open>i = 0, 2, ...\<close>, by register.\<close>

definition put_str :: "string option \<Rightarrow> nat \<Rightarrow> u16 list" where
  "put_str str len =
     (let s = (case str of Some s \<Rightarrow> s | None \<Rightarrow> []) in
      map (\<lambda>k. push_bit 8 (ucast (char_at s (2 * k))) OR ucast (char_at s (2 * k + 1))) [0..<len div 2])"

definition put_f32 :: "dbl \<Rightarrow> u16 list" where
  "put_f32 f =
     (let w = f32_to_bits (d_to_float f) in [ucast (drop_bit 16 w), ucast (w AND 0xffff)])"

subsection \<open>The values of a meter\<close>

type_synonym getter = "nat \<Rightarrow> bool \<times> dbl" \<comment> \<open>\<open>uvrgw_conf_get_val\<close> of a dispatcher\<close>
type_synonym libm = "string \<Rightarrow> dbl list \<Rightarrow> dbl"

text \<open>Whether there is a value, the value (unchanged if not), and the first invalid source.\<close>

definition src_get :: "getter \<Rightarrow> src \<Rightarrow> dbl \<Rightarrow> string option \<Rightarrow> bool \<times> dbl \<times> string option" where
  "src_get get s f invalid =
     (case sr_disp s of
        None \<Rightarrow> (False, f, invalid)
      | Some d \<Rightarrow>
          if \<not> fst (get d) then (False, f, if invalid = None then sr_name s else invalid)
          else (True, snd (get d), invalid))"

fun src_gets :: "getter \<Rightarrow> src list \<Rightarrow> string option \<Rightarrow> (bool \<times> dbl) list \<times> string option" where
  "src_gets get [] invalid = ([], invalid)"
| "src_gets get (s # ss) invalid =
     (let (has, f, invalid1) = src_get get s (DFin 0) invalid; (rest, invalid2) = src_gets get ss invalid1
      in ((has, f) # rest, invalid2))"

record phase_vals =
  pv_current :: dbl
  pv_voltage :: dbl
  pv_voltage_pp :: dbl
  pv_power :: dbl
  pv_apparent_power :: dbl
  pv_reactive_power :: dbl
  pv_pf :: dbl
  pv_energy_imp :: dbl
  pv_energy_exp :: dbl

definition M_PI :: dbl where "M_PI = DFin (884279719003555 / 281474976710656)"

definition PHASE_SHIFT_RAD :: dbl where
  "PHASE_SHIFT_RAD = d_div (d_mul (DFin 120) M_PI) (DFin 180)"

definition phase_to_phase :: "libm \<Rightarrow> dbl \<Rightarrow> dbl \<Rightarrow> dbl" where
  "phase_to_phase libm v1 v2 =
     (let parallel = d_sub v1 (d_mul v2 (libm ''cos'' [PHASE_SHIFT_RAD]));
          perpendicular = d_mul v2 (libm ''sin'' [PHASE_SHIFT_RAD])
      in libm ''sqrt'' [d_add (d_mul parallel parallel) (d_mul perpendicular perpendicular)])"

text \<open>A phase from its values with whether they are there; the voltage to the next phase comes later.\<close>

definition phase_values :: "libm \<Rightarrow> (bool \<times> dbl) list \<Rightarrow> phase_vals" where
  "phase_values libm got =
     (let has = (\<lambda>q. fst (got ! q)); val = (\<lambda>q. snd (got ! q));
          both = (has PH_VOLTAGE \<and> has PH_CURRENT);
          apparent = (if both then d_mul (val PH_VOLTAGE) (val PH_CURRENT) else DFin 0);
          power = val PH_POWER
      in \<lparr>pv_current = val PH_CURRENT, pv_voltage = val PH_VOLTAGE, pv_voltage_pp = DFin 0, pv_power = power,
          pv_apparent_power = apparent,
          pv_reactive_power =
            (if both \<and> has PH_POWER
             then libm ''sqrt'' [d_abs (d_sub (d_mul apparent apparent) (d_mul power power))] else DFin 0),
          pv_pf =
            (if has PH_PF then val PH_PF
             else if d_lt (DFin 0) apparent then d_div power apparent else DFin 0),
          pv_energy_imp = val PH_ENERGY_IMP, pv_energy_exp = val PH_ENERGY_EXP\<rparr>)"

definition next_phase :: "nat \<Rightarrow> nat" where
  "next_phase i = (i + 1) mod SUNSPEC_PHASES"

definition has_voltage :: "(bool \<times> dbl) list list \<Rightarrow> nat \<Rightarrow> bool" where
  "has_voltage got i = fst (got ! i ! PH_VOLTAGE)"

definition phases_of :: "libm \<Rightarrow> (bool \<times> dbl) list list \<Rightarrow> phase_vals list" where
  "phases_of libm got =
     (let ph = map (phase_values libm) got in
      map (\<lambda>i. if has_voltage got i \<and> has_voltage got (next_phase i)
               then (ph ! i)\<lparr>pv_voltage_pp := phase_to_phase libm (pv_voltage (ph ! i)) (pv_voltage (ph ! next_phase i))\<rparr>
               else ph ! i) [0..<SUNSPEC_PHASES])"

text \<open>Sum of a field over the phases with a property, starting at zero.\<close>

definition sum_phases :: "(nat \<Rightarrow> bool) \<Rightarrow> (phase_vals \<Rightarrow> dbl) \<Rightarrow> phase_vals list \<Rightarrow> dbl" where
  "sum_phases P field ph = fold (\<lambda>i acc. if P i then d_add acc (field (ph ! i)) else acc) [0..<SUNSPEC_PHASES] (DFin 0)"

definition average :: "(nat \<Rightarrow> bool) \<Rightarrow> (phase_vals \<Rightarrow> dbl) \<Rightarrow> phase_vals list \<Rightarrow> dbl" where
  "average P field ph =
     (let n = length (filter P [0..<SUNSPEC_PHASES]); s = sum_phases P field ph
      in if 0 < n then d_div s (d_of_int (int n)) else s)"

text \<open>The totals before the configured ones replace the sums.\<close>

definition totals_of :: "(bool \<times> dbl) list list \<Rightarrow> phase_vals list \<Rightarrow> phase_vals" where
  "totals_of got ph =
     (let all = (\<lambda>_. True) in
      \<lparr>pv_current = sum_phases all pv_current ph, pv_voltage = average (has_voltage got) pv_voltage ph,
       pv_voltage_pp = average (\<lambda>i. has_voltage got i \<and> has_voltage got (next_phase i)) pv_voltage_pp ph,
       pv_power = sum_phases all pv_power ph, pv_apparent_power = sum_phases all pv_apparent_power ph,
       pv_reactive_power = sum_phases all pv_reactive_power ph, pv_pf = DFin 0,
       pv_energy_imp = sum_phases all pv_energy_imp ph, pv_energy_exp = sum_phases all pv_energy_exp ph\<rparr>)"

text \<open>All values of the image: phases, totals, frequency, and the first invalid source.\<close>

definition meter_values :: "libm \<Rightarrow> getter \<Rightarrow> meter \<Rightarrow> phase_vals list \<times> phase_vals \<times> dbl \<times> string option" where
  "meter_values libm get m =
     (let (flat, inv1) = src_gets get (concat (me_phase m)) None;
          got = map (\<lambda>ph. take 6 (drop (6 * ph) flat)) [0..<SUNSPEC_PHASES];
          ph = phases_of libm got; tot = totals_of got ph;
          (_, power, inv2) = src_get get (me_power m) (pv_power tot) inv1;
          (_, energy_imp, inv3) = src_get get (me_energy_imp m) (pv_energy_imp tot) inv2;
          (_, energy_exp, inv4) = src_get get (me_energy_exp m) (pv_energy_exp tot) inv3;
          (_, frequency, inv5) = src_get get (me_frequency m) (DFin 0) inv4;
          pf = (if d_lt (DFin 0) (pv_apparent_power tot) then d_div power (pv_apparent_power tot) else DFin 0)
      in (ph, tot\<lparr>pv_power := power, pv_energy_imp := energy_imp, pv_energy_exp := energy_exp, pv_pf := pf\<rparr>,
          frequency, inv5))"

subsection \<open>The register image\<close>

definition put_all :: "(phase_vals \<Rightarrow> dbl) \<Rightarrow> phase_vals \<Rightarrow> phase_vals list \<Rightarrow> u16 list" where
  "put_all field tot ph = put_f32 (field tot) @ concat (map (\<lambda>v. put_f32 (field v)) ph)"

definition common_model :: "meter \<Rightarrow> u16 list" where
  "common_model m =
     [1, 65] @ put_str (me_manufacturer m) 32 @ put_str (me_model m) 32 @ put_str (me_options m) 16 @
     put_str (me_version m) 16 @ put_str (me_serial m) 32 @ [word_of_int (me_unit_id m)]"

text \<open>The registers are zero before they are written; those that are skipped stay so.\<close>

definition meter_model :: "phase_vals list \<Rightarrow> phase_vals \<Rightarrow> dbl \<Rightarrow> u16 list" where
  "meter_model ph tot frequency =
     [213, 124] @ put_all pv_current tot ph @ put_all pv_voltage tot ph @ put_all pv_voltage_pp tot ph @
     put_f32 frequency @ put_all pv_power tot ph @ put_all pv_apparent_power tot ph @
     put_all pv_reactive_power tot ph @ put_all pv_pf tot ph @ put_all pv_energy_exp tot ph @
     put_all pv_energy_imp tot ph @ replicate (6 * 4 * 2) 0 @ replicate 2 0"

definition build_image :: "meter \<Rightarrow> phase_vals list \<Rightarrow> phase_vals \<Rightarrow> dbl \<Rightarrow> u16 list" where
  "build_image m ph tot frequency =
     put_str (Some ''SunS'') 4 @ common_model m @ meter_model ph tot frequency @ [0xffff, 0]"

definition log_available :: "bool \<Rightarrow> meter \<Rightarrow> meter \<times> logmsg list" where
  "log_available ok m =
     (m\<lparr>me_unavailable := \<not> ok\<rparr>,
      if ok = me_unavailable m then [if ok then (LOG_INFO, ''meter available'') else (LOG_WARNING, ''meter unavailable'')] else [])"

definition update_image :: "libm \<Rightarrow> getter \<Rightarrow> meter \<Rightarrow> bool \<times> meter \<times> logmsg list" where
  "update_image libm get m =
     (let (ph, tot, frequency, invalid) = meter_values libm get m;
          (m1, msgs) = log_available (invalid = None) m
      in if invalid \<noteq> None then (False, m1, msgs)
         else (True, m1\<lparr>me_mapping := build_image m ph tot frequency\<rparr>, msgs))"

interpretation meter_log: edge_logger me_unavailable log_available
  by unfold_locales (auto simp: log_available_def)

subsection \<open>Clients\<close>

text \<open>The second component: the sockets that are closed.\<close>

definition close_client :: "nat \<Rightarrow> server \<Rightarrow> server \<times> int list" where
  "close_client idx server =
     (if 0 \<le> se_client_fds server ! idx
      then (server\<lparr>se_client_fds := (se_client_fds server)[idx := - 1]\<rparr>, [se_client_fds server ! idx])
      else (server, []))"

fun free_slot :: "nat \<Rightarrow> int list \<Rightarrow> nat option" where
  "free_slot i [] = None"
| "free_slot i (fd # fds) = (if fd < 0 then Some i else free_slot (Suc i) fds)"

text \<open>\<open>fd\<close> is the result of \<open>accept\<close>.\<close>

definition accept_client :: "int \<Rightarrow> server \<Rightarrow> server \<times> int list \<times> logmsg list" where
  "accept_client fd server =
     (if fd < 0 then
        (server\<lparr>se_accept_failed := True\<rparr>, [], if se_accept_failed server then [] else [(LOG_WARNING, ''accept failed'')])
      else let server = server\<lparr>se_accept_failed := False\<rparr> in
        case free_slot 0 (se_client_fds server) of
          Some i \<Rightarrow> (server\<lparr>se_client_fds := (se_client_fds server)[i := fd], se_clients_full := False\<rparr>, [],
                     if se_clients_full server then [(LOG_INFO, ''accepting connections again'')] else [])
        | None \<Rightarrow> (server\<lparr>se_clients_full := True\<rparr>, [fd],
                   if se_clients_full server then [] else [(LOG_WARNING, ''too many clients'')]))"

fun find_meter :: "meter list \<Rightarrow> int \<Rightarrow> nat option" where
  "find_meter [] unit_id = None"
| "find_meter (m # ms) unit_id = (if me_unit_id m = unit_id then Some 0 else map_option Suc (find_meter ms unit_id))"

text \<open>What \<open>modbus_receive\<close> gives: an error, nothing for this server, or a request with the length of its header.\<close>

datatype receive = Recv_failed | Recv_nothing | Recv_request nat "u8 list"

datatype sun_reply = Exception_reply nat | Registers_reply "u16 list"

definition MODBUS_FC_READ_HOLDING_REGISTERS :: u8 where "MODBUS_FC_READ_HOLDING_REGISTERS = 3"
definition MODBUS_EXCEPTION_ILLEGAL_FUNCTION :: nat where "MODBUS_EXCEPTION_ILLEGAL_FUNCTION = 1"
definition MODBUS_EXCEPTION_SLAVE_OR_SERVER_FAILURE :: nat where "MODBUS_EXCEPTION_SLAVE_OR_SERVER_FAILURE = 4"

text \<open>\<open>sent\<close>: whether sending the reply succeeds. The result: the server, the reply, the sockets closed, the messages.\<close>

definition handle_client ::
  "libm \<Rightarrow> getter \<Rightarrow> bool \<Rightarrow> nat \<Rightarrow> receive \<Rightarrow> server \<Rightarrow> server \<times> sun_reply option \<times> int list \<times> logmsg list" where
  "handle_client libm get sent idx rcv server =
     (case rcv of
        Recv_failed \<Rightarrow> let (server1, closed) = close_client idx server in (server1, None, closed, [])
      | Recv_nothing \<Rightarrow> (server, None, [], [])
      | Recv_request hdr_len req \<Rightarrow>
          (case find_meter (se_meters server) (uint (req ! (hdr_len - 1))) of
             None \<Rightarrow> (server, None, [], [])
           | Some mi \<Rightarrow>
               let (reply, server1, msgs) =
                 (if req ! hdr_len \<noteq> MODBUS_FC_READ_HOLDING_REGISTERS
                  then (Exception_reply MODBUS_EXCEPTION_ILLEGAL_FUNCTION, server, [])
                  else let (ok, m, msgs) = update_image libm get (se_meters server ! mi) in
                    (if ok then Registers_reply (me_mapping m) else Exception_reply MODBUS_EXCEPTION_SLAVE_OR_SERVER_FAILURE,
                     server\<lparr>se_meters := (se_meters server)[mi := m]\<rparr>, msgs));
                 (server2, closed) = (if sent then (server1, []) else close_client idx server1)
               in (server2, Some reply, closed, msgs)))"

text \<open>The descriptors the thread watches, and the highest.\<close>

definition server_fds :: "server \<Rightarrow> int set \<times> int" where
  "server_fds server =
     fold (\<lambda>fd. if 0 \<le> fd then utl_update_fds fd else id) (se_client_fds server) (utl_update_fds (se_listen_fd server) ({}, 0))"

text \<open>
  One pass of the server's thread after \<open>select\<close>: \<open>readable\<close> is the set of descriptors that it left in the
  read set (a subset of the descriptors at the start of the pass), \<open>fd\<close> the result of \<open>accept\<close>, and \<open>rcv\<close> what
  each slot receives with whether its reply is sent.
\<close>

fun handle_clients ::
  "libm \<Rightarrow> getter \<Rightarrow> (int \<Rightarrow> bool) \<Rightarrow> (nat \<Rightarrow> receive \<times> bool) \<Rightarrow> nat list \<Rightarrow> server \<Rightarrow>
    server \<times> (nat \<times> sun_reply) list \<times> int list \<times> logmsg list" where
  "handle_clients libm get readable rcv [] server = (server, [], [], [])"
| "handle_clients libm get readable rcv (i # is) server =
     (let (server1, reply, shut1, msgs1) =
        (if 0 \<le> se_client_fds server ! i \<and> readable (se_client_fds server ! i)
         then handle_client libm get (snd (rcv i)) i (fst (rcv i)) server else (server, None, [], []));
        (server2, replies, shut2, msgs2) = handle_clients libm get readable rcv is server1
      in (server2, (case reply of None \<Rightarrow> [] | Some r \<Rightarrow> [(i, r)]) @ replies, shut1 @ shut2, msgs1 @ msgs2))"

definition server_pass ::
  "libm \<Rightarrow> getter \<Rightarrow> (int \<Rightarrow> bool) \<Rightarrow> int \<Rightarrow> (nat \<Rightarrow> receive \<times> bool) \<Rightarrow> server \<Rightarrow>
    server \<times> (nat \<times> sun_reply) list \<times> int list \<times> logmsg list" where
  "server_pass libm get readable fd rcv server =
     (let (server1, shut1, msgs1) =
        (if readable (se_listen_fd server) then accept_client fd server else (server, [], []));
        (server2, replies, shut2, msgs2) = handle_clients libm get readable rcv [0..<SUNSPEC_MAX_CLIENTS] server1
      in (server2, replies, shut1 @ shut2, msgs1 @ msgs2))"

subsection \<open>Startup and shutdown\<close>

text \<open>The outcomes: \<open>modbus_new_tcp\<close>, the descriptor from \<open>modbus_tcp_listen\<close>, \<open>pthread_create\<close>.\<close>

record sun_start =
  ss_new_ok :: bool
  ss_listen :: int
  ss_created :: bool

datatype sun_res = Sun_ctx | Sun_listen | Sun_thread | Sun_client int

definition server_startup :: "sun_start \<Rightarrow> server \<Rightarrow> bool \<times> server \<times> sun_res event list" where
  "server_startup env server =
     (if \<not> ss_new_ok env then (False, server\<lparr>se_ctx := False\<rparr>, [])
      else if ss_listen env < 0
        then (False, server\<lparr>se_ctx := False, se_listen_fd := ss_listen env\<rparr>, [Acquire Sun_ctx, Release Sun_ctx])
      else if \<not> ss_created env
        then (False, server\<lparr>se_ctx := False, se_listen_fd := - 1, se_thread_running := False\<rparr>,
          [Acquire Sun_ctx, Acquire Sun_listen, Release Sun_listen, Release Sun_ctx])
      else (True, server\<lparr>se_ctx := True, se_listen_fd := ss_listen env, se_thread_running := True\<rparr>,
        [Acquire Sun_ctx, Acquire Sun_listen, Acquire Sun_thread]))"

fun close_clients :: "nat list \<Rightarrow> server \<Rightarrow> server \<times> int list" where
  "close_clients [] server = (server, [])"
| "close_clients (i # is) server =
     (let (server1, shut1) = close_client i server; (server2, shut2) = close_clients is server1 in (server2, shut1 @ shut2))"

definition server_shutdown :: "server \<Rightarrow> server \<times> sun_res event list" where
  "server_shutdown server =
     (let (server1, shut) = close_clients [0..<SUNSPEC_MAX_CLIENTS] (server\<lparr>se_thread_running := False\<rparr>)
      in (server1\<lparr>se_listen_fd := (if 0 \<le> se_listen_fd server then - 1 else se_listen_fd server), se_ctx := False\<rparr>,
          (if se_thread_running server then [Release Sun_thread] else []) @ map (Release \<circ> Sun_client) shut @
          (if 0 \<le> se_listen_fd server then [Release Sun_listen] else []) @ (if se_ctx server then [Release Sun_ctx] else [])))"

definition sunspec_shutdown :: "server list \<Rightarrow> server list \<times> (nat \<times> sun_res) event list" where
  "sunspec_shutdown servers = stop_units server_shutdown 0 servers"

definition sunspec_startup ::
  "(nat \<Rightarrow> sun_start) \<Rightarrow> server list \<Rightarrow> bool \<times> server list \<times> (nat \<times> sun_res) event list" where
  "sunspec_startup env servers = startup_all server_startup server_shutdown env servers"

end
