(* ===== verification/Sunspec_Image.thy ===== *)
theory Sunspec_Image
  imports Sunspec
begin

text \<open>
  What a SunSpec client reads from an emulated meter: the image is a chain of models with the common
  model and the float meter model, its strings and floats are read back, and it is served only if all
  configured sources are valid.
\<close>

subsection \<open>Fields of a list of registers\<close>

lemma slice_middle: "slice (length a) (length b) (a @ b @ c) = b"
  by (simp add: slice_def)

lemma slice_at: "pos = length a \<Longrightarrow> len = length b \<Longrightarrow> slice pos len (a @ b @ c) = b"
  by (simp add: slice_def)

lemma slice_inner: "pos + len \<le> length b \<Longrightarrow> slice (length a + pos) len (a @ b @ c) = slice pos len b"
  by (simp add: slice_def)

lemma put_str_length [simp]: "length (put_str s len) = len div 2"
  by (simp add: put_str_def Let_def)

lemma put_f32_set_u32: "put_f32 f = set_u32 False (f32_to_bits (d_to_float f))"
  by (simp add: put_f32_def set_u32_def Let_def)

lemma put_f32_length [simp]: "length (put_f32 f) = 2"
  by (simp add: put_f32_def Let_def)

text \<open>A client's view of a float: high word first.\<close>

definition get_f32 :: "u16 list \<Rightarrow> dbl" where
  "get_f32 regs = f32_of_bits (get_u32 False regs)"

lemma get_put_f32 [simp]: "get_f32 (put_f32 f) = d_to_float f"
  by (simp add: get_f32_def put_f32_set_u32 get_set_u32 f32_roundtrip)

lemma d_to_float_single: "is_single d \<Longrightarrow> d_to_float d = d \<or> d = DFin 0 \<or> \<not> is_double d"
  by (cases d) (auto simp: is_single_def Let_def mk_zero_def)

interpretation sunspec_f32: byte_codec 2 put_f32 get_f32 "\<lambda>f. d_to_float f = f"
  by unfold_locales simp_all

lemma concat_f32_length [simp]: "length (concat (map put_f32 fs)) = 2 * length fs"
  by (induction fs) simp_all

lemma slice_f32: "k < length fs \<Longrightarrow> slice (2 * k) 2 (concat (map put_f32 fs)) = put_f32 (fs ! k)"
proof (induction fs arbitrary: k)
  case (Cons f fs)
  show ?case
  proof (cases k)
    case 0
    then show ?thesis using slice_at [of 0 "[]" 2 "put_f32 f" "concat (map put_f32 fs)"] by simp
  next
    case (Suc j)
    then have "slice (2 * j) 2 (concat (map put_f32 fs)) = put_f32 (fs ! j)" using Cons by simp
    then show ?thesis using Suc by (simp add: slice_def)
  qed
qed simp

subsection \<open>Strings\<close>

definition reg_chars :: "u16 \<Rightarrow> char list" where
  "reg_chars w = [char_of (unat (drop_bit 8 w)), char_of (unat (take_bit 8 w))]"

text \<open>A client's view of a string: two characters per register, up to the first NUL.\<close>

definition get_str :: "u16 list \<Rightarrow> string" where
  "get_str regs = takeWhile (\<lambda>c. c \<noteq> CHR 0x00) (concat (map reg_chars regs))"

lemma reg_chars_put:
  "reg_chars (push_bit 8 (ucast a) OR ucast b) = [char_of (unat (a :: u8)), char_of (unat (b :: u8))]"
proof -
  have "drop_bit 8 (push_bit 8 (ucast a) OR ucast b :: u16) = ucast a" "take_bit 8 (push_bit 8 (ucast a) OR ucast b :: u16) = ucast b"
    by (rule bit_word_eqI, auto simp: bit_simps dest: bit_imp_le_length; fail)+
  moreover have "unat (ucast c :: u16) = unat c" for c :: u8
  proof -
    have "unat c < 2 ^ LENGTH(8)" by (rule unsigned_less)
    then show ?thesis by (simp add: unsigned_ucast_eq take_bit_nat_eq_self)
  qed
  ultimately show ?thesis by (simp add: reg_chars_def)
qed

lemma char_of_u8: "char_of (unat (of_char c :: u8)) = c"
proof -
  have "(of_char c :: u8) = of_nat (of_char c)" by (simp only: of_nat_of_char)
  then have "unat (of_char c :: u8) = of_char c mod 2 ^ 8" using unat_of_nat [of "of_char c", where 'a = 8] by simp
  then show ?thesis by simp
qed

lemma char_of_0: "char_of (0 :: nat) = CHR 0x00"
  by code_simp

lemma chars_put_str:
  assumes "even len" "length s \<le> len"
  shows "concat (map reg_chars (put_str (Some s) len)) = s @ replicate (len - length s) (CHR 0x00)"
proof -
  obtain n where n: "len = 2 * n" using assms(1) by (elim evenE)
  let ?f = "\<lambda>i. char_of (unat (char_at s i)) :: char"
  have "concat (map reg_chars (put_str (Some s) (2 * n))) = map ?f [0..<2 * n]"
  proof -
    have "concat (map (\<lambda>k. [?f (2 * k), ?f (2 * k + 1)]) [0..<n]) = map ?f [0..<2 * n]" by (induction n) simp_all
    then show ?thesis by (simp add: put_str_def reg_chars_put o_def)
  qed
  also have "map ?f [0..<2 * n] = s @ replicate (2 * n - length s) (CHR 0x00)"
  proof (rule nth_equalityI)
    fix i assume "i < length (map ?f [0..<2 * n])"
    then show "map ?f [0..<2 * n] ! i = (s @ replicate (2 * n - length s) (CHR 0x00)) ! i"
      by (auto simp: char_at_def nth_append char_of_u8 char_of_0)
  qed (use assms(2) n in simp)
  finally show ?thesis using n by simp
qed

lemma get_put_str: "even len \<Longrightarrow> length s \<le> len \<Longrightarrow> CHR 0x00 \<notin> set s \<Longrightarrow> get_str (put_str (Some s) len) = s"
  by (simp add: get_str_def chars_put_str takeWhile_append takeWhile_eq_all_conv takeWhile_replicate)

lemma put_str_None: "put_str None len = put_str (Some []) len"
  by (simp add: put_str_def)

definition text_of :: "string option \<Rightarrow> string" where
  "text_of s = (case s of Some t \<Rightarrow> t | None \<Rightarrow> [])"

lemma get_put_text: "even len \<Longrightarrow> length (text_of s) \<le> len \<Longrightarrow> CHR 0x00 \<notin> set (text_of s) \<Longrightarrow> get_str (put_str s len) = text_of s"
  by (cases s) (simp_all add: text_of_def get_put_str put_str_None)

subsection \<open>What configuration ensures\<close>

definition src_ok :: "src \<Rightarrow> bool" where
  "src_ok s \<longleftrightarrow> (sr_disp s \<noteq> None \<longrightarrow> sr_name s \<noteq> None)"

definition sources :: "meter \<Rightarrow> src list" where
  "sources m = concat (me_phase m) @ [me_power m, me_energy_imp m, me_energy_exp m, me_frequency m]"

definition meter_ok :: "meter \<Rightarrow> bool" where
  "meter_ok m \<longleftrightarrow> 1 \<le> me_unit_id m \<and> me_unit_id m \<le> 247 \<and> (\<forall>s \<in> set (sources m). src_ok s) \<and>
     length (text_of (me_manufacturer m)) \<le> 32 \<and> length (text_of (me_model m)) \<le> 32 \<and>
     length (text_of (me_options m)) \<le> 16 \<and> length (text_of (me_version m)) \<le> 16 \<and>
     length (text_of (me_serial m)) \<le> 32 \<and> length (me_mapping m) = MAP_REGS"

lemma src_configures_ok: "src_configures cfg keys ds = (ss, ds') \<Longrightarrow> length ss = length keys \<and> (\<forall>s \<in> set ss. src_ok s)"
  by (induction keys arbitrary: ds ss) (auto simp: src_configure_def src_ok_def split: prod.splits option.splits)

lemma str_configures_ok: "str_configures cfg keys = None \<Longrightarrow> (key, n) \<in> set keys \<Longrightarrow> length (text_of (mec_getstr cfg key)) \<le> n"
  by (induction keys) (auto simp: str_fits_def text_of_def split: if_splits option.splits)

lemma source_keys_length: "length source_keys = 22"
  by (simp add: source_keys_def SUNSPEC_PHASES_def upt_rec)

lemma set_take_drop: "set (take n (drop k xs)) \<subseteq> set xs"
  by (meson order_trans set_drop_subset set_take_subset)

lemma meter_configure_ok:
  assumes "meter_configure cfg mi ds = Inr (m, ds')"
  shows "meter_ok m"
proof -
  obtain srcs where c: "src_configures cfg source_keys ds = (srcs, ds')" "str_configures cfg string_keys = None"
    "1 \<le> mec_unit_id cfg" "mec_unit_id cfg \<le> 247"
    "m = \<lparr>me_name = mec_title cfg, me_unit_id = mec_unit_id cfg,
          me_manufacturer = mec_getstr cfg ''manufacturer'', me_model = mec_getstr cfg ''model'',
          me_options = mec_getstr cfg ''options'', me_version = mec_getstr cfg ''version'',
          me_serial = mec_getstr cfg ''serial'',
          me_phase = map (\<lambda>ph. take 6 (drop (6 * ph) srcs)) [0..<SUNSPEC_PHASES],
          me_power = srcs ! 18, me_energy_imp = srcs ! 19, me_energy_exp = srcs ! 20, me_frequency = srcs ! 21,
          me_mapping = replicate MAP_REGS 0, me_unavailable = False\<rparr>"
    using assms by (auto simp: meter_configure_def Let_def split: if_splits option.splits prod.splits)
  have s: "length srcs = 22" "\<forall>s \<in> set srcs. src_ok s"
    using src_configures_ok [OF c(1)] by (simp_all add: source_keys_length)
  have "set (sources m) \<subseteq> set srcs"
    using s(1) set_take_drop [of 6 _ srcs] by (fastforce simp: c(5) sources_def)
  then have "\<forall>s \<in> set (sources m). src_ok s" using s(2) by blast
  moreover have "length (text_of (me_manufacturer m)) \<le> 32" "length (text_of (me_model m)) \<le> 32"
    "length (text_of (me_options m)) \<le> 16" "length (text_of (me_version m)) \<le> 16" "length (text_of (me_serial m)) \<le> 32"
    using str_configures_ok [OF c(2)] by (simp_all add: c(5) string_keys_def)
  ultimately show ?thesis using c(3,4) by (simp add: meter_ok_def c(5))
qed

subsection \<open>Validity of the sources\<close>

definition src_valid :: "getter \<Rightarrow> src \<Rightarrow> bool" where
  "src_valid get s \<longleftrightarrow> (case sr_disp s of None \<Rightarrow> True | Some d \<Rightarrow> fst (get d))"

lemma src_get_invalid:
  "src_ok s \<Longrightarrow> snd (snd (src_get get s f invalid)) = None \<longleftrightarrow> invalid = None \<and> src_valid get s"
  by (auto simp: src_get_def src_valid_def src_ok_def split: option.splits)

lemma src_gets_invalid:
  "\<forall>s \<in> set ss. src_ok s \<Longrightarrow> snd (src_gets get ss invalid) = None \<longleftrightarrow> invalid = None \<and> (\<forall>s \<in> set ss. src_valid get s)"
proof (induction ss arbitrary: invalid)
  case (Cons s ss)
  then show ?case
    using src_get_invalid [of s get "DFin 0" invalid] by (auto simp: case_prod_beta)
qed simp

lemma meter_values_invalid:
  assumes "meter_ok m"
  shows "snd (snd (snd (meter_values libm get m))) = None \<longleftrightarrow> (\<forall>s \<in> set (sources m). src_valid get s)"
proof -
  have ok: "\<forall>s \<in> set (concat (me_phase m)). src_ok s" "src_ok (me_power m)" "src_ok (me_energy_imp m)" "src_ok (me_energy_exp m)"
    "src_ok (me_frequency m)" using assms by (auto simp: meter_ok_def sources_def)
  show ?thesis
    unfolding meter_values_def Let_def case_prod_beta snd_conv
    by (simp add: src_get_invalid ok src_gets_invalid [OF ok(1)] sources_def ball_Un conj_ac)
qed

lemma phases_length: "length (fst (meter_values libm get m)) = 3"
  by (simp add: meter_values_def phases_of_def Let_def case_prod_beta SUNSPEC_PHASES_def)

subsection \<open>The layout of the image\<close>

text \<open>A client's walk along the chain of models: ID, position and length of each, up to the end model.\<close>

fun models :: "nat \<Rightarrow> nat \<Rightarrow> u16 list \<Rightarrow> (nat \<times> nat \<times> nat) list" where
  "models 0 pos regs = []"
| "models (Suc n) pos regs =
     (if regs ! pos = 0xffff then []
      else (unat (regs ! pos), pos + 2, unat (regs ! (pos + 1))) # models n (pos + 2 + unat (regs ! (pos + 1))) regs)"

text \<open>The floats of the meter model in the order of the model's definition.\<close>

definition meter_floats :: "phase_vals list \<Rightarrow> phase_vals \<Rightarrow> dbl \<Rightarrow> dbl list" where
  "meter_floats ph tot frequency =
     (let all = (\<lambda>field. field tot # map field ph) in
      all pv_current @ all pv_voltage @ all pv_voltage_pp @ [frequency] @ all pv_power @ all pv_apparent_power @
      all pv_reactive_power @ all pv_pf @ all pv_energy_exp @ all pv_energy_imp)"

lemma put_all_floats: "put_all field tot ph = concat (map put_f32 (field tot # map field ph))"
  by (simp add: put_all_def o_def)

lemma meter_model_floats:
  "meter_model ph tot frequency = [213, 124] @ concat (map put_f32 (meter_floats ph tot frequency)) @ replicate 50 0"
  by (simp add: meter_model_def meter_floats_def put_all_floats Let_def replicate_add [symmetric] numeral_eq_Suc)

lemma meter_floats_length: "length ph = 3 \<Longrightarrow> length (meter_floats ph tot frequency) = 37"
  by (simp add: meter_floats_def Let_def)

lemma slice_skip: "length a \<le> pos \<Longrightarrow> slice pos len (a @ b) = slice (pos - length a) len b"
  by (simp add: slice_def)

lemma slice_first: "len = length a \<Longrightarrow> slice 0 len (a @ b) = a"
  by (simp add: slice_def)

lemma slice_in_first: "pos + len \<le> length a \<Longrightarrow> slice pos len (a @ b) = slice pos len a"
  by (simp add: slice_def)

text \<open>The image in its parts.\<close>

lemma build_image_parts:
  "build_image m ph tot frequency = put_str (Some ''SunS'') 4 @ [1, 65] @ put_str (me_manufacturer m) 32 @ put_str (me_model m) 32 @
     put_str (me_options m) 16 @ put_str (me_version m) 16 @ put_str (me_serial m) 32 @ [word_of_int (me_unit_id m), 213, 124] @
     concat (map put_f32 (meter_floats ph tot frequency)) @ replicate 50 0 @ [0xffff, 0]"
  by (simp add: build_image_def common_model_def meter_model_floats)

lemma build_image_length: "length ph = 3 \<Longrightarrow> length (build_image m ph tot frequency) = 197"
  by (simp add: build_image_parts meter_floats_length)

lemma build_image_models:
  assumes "length ph = 3"
  shows "models 3 2 (build_image m ph tot frequency) = [(1, 4, 65), (213, 71, 124)]"
proof -
  let ?r = "build_image m ph tot frequency"
  have n: "?r ! 2 = 1" "?r ! 3 = 65" "?r ! 69 = 213" "?r ! 70 = 124" "?r ! 195 = 0xffff"
    by (simp_all add: build_image_parts nth_append meter_floats_length [OF assms] del: concat_map_singleton)
  then show ?thesis by (simp add: numeral_3_eq_3)
qed

lemma build_image_strings:
  "slice 4 16 (build_image m ph tot frequency) = put_str (me_manufacturer m) 32"
  "slice 20 16 (build_image m ph tot frequency) = put_str (me_model m) 32"
  "slice 36 8 (build_image m ph tot frequency) = put_str (me_options m) 16"
  "slice 44 8 (build_image m ph tot frequency) = put_str (me_version m) 16"
  "slice 52 16 (build_image m ph tot frequency) = put_str (me_serial m) 32"
  "slice 0 2 (build_image m ph tot frequency) = put_str (Some ''SunS'') 4"
  "build_image m ph tot frequency ! 68 = word_of_int (me_unit_id m)"
  by (simp_all add: build_image_parts slice_skip slice_first nth_append del: append_Cons)

lemma build_image_floats:
  assumes "length ph = 3" "k < 37"
  shows "slice (71 + 2 * k) 2 (build_image m ph tot frequency) = put_f32 (meter_floats ph tot frequency ! k)"
proof -
  let ?F = "concat (map put_f32 (meter_floats ph tot frequency))"
  let ?p = "put_str (Some ''SunS'') 4 @ [1, 65] @ put_str (me_manufacturer m) 32 @ put_str (me_model m) 32 @
     put_str (me_options m) 16 @ put_str (me_version m) 16 @ put_str (me_serial m) 32 @ [word_of_int (me_unit_id m), 213, 124]"
  have "build_image m ph tot frequency = ?p @ ?F @ replicate 50 0 @ [0xffff, 0]" by (simp add: build_image_parts)
  moreover have "slice (length ?p + 2 * k) 2 (?p @ ?F @ replicate 50 0 @ [0xffff, 0]) = slice (2 * k) 2 ?F"
    using assms by (intro slice_inner) (simp add: meter_floats_length)
  moreover have "length ?p = 71" by simp
  moreover have "slice (2 * k) 2 ?F = put_f32 (meter_floats ph tot frequency ! k)"
    using assms by (intro slice_f32) (simp add: meter_floats_length)
  ultimately show ?thesis by (simp only:)
qed

lemma update_image_ok:
  assumes "update_image libm get m = (True, m', msgs)" "meter_values libm get m = (ph, tot, frequency, invalid)"
  shows "me_mapping m' = build_image m ph tot frequency" "invalid = None"
  using assms by (auto simp: update_image_def case_prod_beta split: if_splits)

definition no_nul :: "string option \<Rightarrow> bool" where
  "no_nul s \<longleftrightarrow> CHR 0x00 \<notin> set (text_of s)"

text \<open>
  C36. A SunSpec client that walks the image finds what the standard asks for: the marker, the common
  model with the configured identification and the unit ID, the float meter model with the 37 current
  values as single precision numbers in the order of model 213, and the end model, in exactly 197
  registers; strings and numbers are read back as they were given.
\<close>

theorem image_read_back:
  assumes "meter_ok m" "update_image libm get m = (True, m', msgs)" "meter_values libm get m = (ph, tot, frequency, invalid)"
    and "list_all no_nul [me_manufacturer m, me_model m, me_options m, me_version m, me_serial m]"
  shows "length (me_mapping m') = 197 \<and> get_str (slice 0 2 (me_mapping m')) = ''SunS'' \<and>
    models 3 2 (me_mapping m') = [(1, 4, 65), (213, 71, 124)] \<and>
    map (\<lambda>(pos, len). get_str (slice pos len (me_mapping m'))) [(4, 16), (20, 16), (36, 8), (44, 8), (52, 16)] =
      map text_of [me_manufacturer m, me_model m, me_options m, me_version m, me_serial m] \<and>
    uint (me_mapping m' ! 68) = me_unit_id m \<and>
    map (\<lambda>k. get_f32 (slice (71 + 2 * k) 2 (me_mapping m'))) [0..<37] = map d_to_float (meter_floats ph tot frequency)"
proof -
  note r = update_image_ok(1) [OF assms(2,3)]
  have ph: "length ph = 3" using phases_length [of libm get m] assms(3) by simp
  have suns: "get_str (put_str (Some ''SunS'') 4) = ''SunS''" by (rule get_put_str) simp_all
  have strs: "get_str (put_str (me_manufacturer m) 32) = text_of (me_manufacturer m)" "get_str (put_str (me_model m) 32) = text_of (me_model m)"
    "get_str (put_str (me_options m) 16) = text_of (me_options m)" "get_str (put_str (me_version m) 16) = text_of (me_version m)"
    "get_str (put_str (me_serial m) 32) = text_of (me_serial m)"
    using assms(1,4) by (simp_all add: get_put_text meter_ok_def no_nul_def)
  have "me_unit_id m mod 65536 = me_unit_id m" using assms(1) by (simp add: meter_ok_def)
  then have uid: "uint (word_of_int (me_unit_id m) :: u16) = me_unit_id m" by (simp add: uint_word_of_int)
  have floats: "map (\<lambda>k. get_f32 (slice (71 + 2 * k) 2 (me_mapping m'))) [0..<37] = map d_to_float (meter_floats ph tot frequency)"
    by (rule nth_equalityI) (simp_all add: r build_image_floats ph meter_floats_length)
  show ?thesis
    using suns strs uid floats build_image_length [OF ph] build_image_models [OF ph] by (simp add: r build_image_strings)
qed

definition example_meter_cfg :: meter_cfg where
  "example_meter_cfg = (sunspec_meter_opts ''house'')\<lparr>mec_unit_id := 5, mec_getstr :=
     (\<lambda>key. if key = ''manufacturer'' then Some ''Fronius'' else if key = ''power_l1'' then Some ''p1'' else None)\<rparr>"

definition example_meter :: meter where
  "example_meter = fst (projr (meter_configure example_meter_cfg 0 []))"

lemma example_meter_ok: "meter_ok example_meter"
proof -
  have "case meter_configure example_meter_cfg 0 [] of Inr p \<Rightarrow> True | Inl e \<Rightarrow> False" by code_simp
  then obtain m ds where "meter_configure example_meter_cfg 0 [] = Inr (m, ds)" by (auto split: sum.splits)
  then show ?thesis using meter_configure_ok [of example_meter_cfg 0 "[]"] by (simp add: example_meter_def)
qed

definition example_libm :: libm where
  "example_libm name args = hd args"

lemma example_meter_served: "fst (update_image example_libm (\<lambda>_. (True, DFin 230)) example_meter)"
proof -
  have "snd (snd (snd (meter_values example_libm (\<lambda>_. (True, DFin 230)) example_meter))) = None"
    by (subst meter_values_invalid [OF example_meter_ok]) (simp add: src_valid_def split: option.split)
  then show ?thesis by (simp add: update_image_def case_prod_beta)
qed

theorem image_read_back_witness:
  "length (me_mapping (fst (snd (update_image example_libm (\<lambda>_. (True, DFin 230)) example_meter)))) = 197 \<and>
   models 3 2 (me_mapping (fst (snd (update_image example_libm (\<lambda>_. (True, DFin 230)) example_meter)))) = [(1, 4, 65), (213, 71, 124)]"
proof -
  obtain ok m' msgs where u: "update_image example_libm (\<lambda>_. (True, DFin 230)) example_meter = (ok, m', msgs)" by (metis prod_cases3)
  then have t: "update_image example_libm (\<lambda>_. (True, DFin 230)) example_meter = (True, m', msgs)" using example_meter_served by simp
  obtain ph tot frequency invalid where v: "meter_values example_libm (\<lambda>_. (True, DFin 230)) example_meter = (ph, tot, frequency, invalid)"
    by (metis prod_cases4)
  have "list_all no_nul [me_manufacturer example_meter, me_model example_meter, me_options example_meter,
      me_version example_meter, me_serial example_meter]" by code_simp
  from image_read_back [OF example_meter_ok t v this] show ?thesis by (simp only: t fst_conv snd_conv)
qed

subsection \<open>The answer to a request\<close>

lemma update_image_result:
  assumes "meter_ok m" "update_image libm get m = (ok, m', msgs)"
  shows "ok \<longleftrightarrow> list_all (src_valid get) (sources m)" "\<not> ok \<Longrightarrow> me_mapping m' = me_mapping m" "me_unavailable m' = (\<not> ok)"
    "me_unit_id m' = me_unit_id m"
  using assms(2) meter_values_invalid [OF assms(1), of libm get]
  by (auto simp: update_image_def log_available_def case_prod_beta list_all_iff split: if_splits)

text \<open>
  C37. A request to read is answered with the values of this moment exactly if every configured source
  of the meter is valid at this moment; otherwise the answer is the exception "server device
  failure" and the registers are not touched, so no stale number is ever served.
\<close>

theorem invalid_source_not_served:
  assumes "handle_client libm get sent idx (Recv_request hdr_len req) server = (server', Some reply, shut, msgs)"
    and "find_meter (se_meters server) (uint (req ! (hdr_len - 1))) = Some mi" "meter_ok (se_meters server ! mi)"
    and "req ! hdr_len = 3" "meter_values libm get (se_meters server ! mi) = (ph, tot, frequency, invalid)" "mi < length (se_meters server)"
  shows "(reply = Registers_reply (build_image (se_meters server ! mi) ph tot frequency) \<longleftrightarrow>
      list_all (src_valid get) (sources (se_meters server ! mi))) \<and>
    (reply = Exception_reply 4 \<longleftrightarrow> \<not> list_all (src_valid get) (sources (se_meters server ! mi))) \<and>
    (reply = Exception_reply 4 \<longrightarrow> me_mapping (se_meters server' ! mi) = me_mapping (se_meters server ! mi))"
proof -
  let ?m = "se_meters server ! mi"
  obtain ok m' ms where u: "update_image libm get ?m = (ok, m', ms)" by (metis prod_cases3)
  note r = update_image_result [OF assms(3) u]
  have out: "reply = (if ok then Registers_reply (me_mapping m') else Exception_reply 4)"
    "se_meters server' = (se_meters server)[mi := m']"
    using assms(1,2,4) u
    by (auto simp: handle_client_def MODBUS_FC_READ_HOLDING_REGISTERS_def MODBUS_EXCEPTION_SLAVE_OR_SERVER_FAILURE_def
        close_client_def Let_def split: if_splits prod.splits)
  show ?thesis
  proof (cases ok)
    case True
    then have "me_mapping m' = build_image ?m ph tot frequency" using update_image_ok(1) [OF _ assms(5)] u by simp
    then show ?thesis using out True r(1) by simp
  next
    case False
    then show ?thesis using out r(1,2) assms(6) by simp
  qed
qed

definition example_server :: server where
  "example_server = \<lparr>se_bind = ''0.0.0.0'', se_port = 502, se_meters = [example_meter], se_ctx = True, se_listen_fd = 3,
     se_client_fds = 7 # replicate 7 (- 1), se_clients_full = False, se_accept_failed = False, se_thread_running = True\<rparr>"

theorem invalid_source_not_served_witness:
  "fst (snd (handle_client example_libm (\<lambda>_. (False, DFin 0)) True 0 (Recv_request 1 [5, 3]) example_server)) = Some (Exception_reply 4) \<and>
    \<not> list_all (src_valid (\<lambda>_. (False, DFin 0))) (sources example_meter)"
proof -
  have src: "list_ex (\<lambda>s. sr_disp s \<noteq> None) (sources example_meter)" by code_simp
  have "\<not> src_valid (\<lambda>_. (False, DFin 0)) s \<longleftrightarrow> sr_disp s \<noteq> None" for s by (auto simp: src_valid_def split: option.split)
  then have inv: "\<not> list_all (src_valid (\<lambda>_. (False, DFin 0))) (sources example_meter)" using src by (auto simp: list_ex_iff list_all_iff)
  have uid: "me_unit_id example_meter = 5" by code_simp
  have f: "find_meter (se_meters example_server) (uint (([5, 3] :: u8 list) ! (1 - 1))) = Some 0" by (simp add: example_server_def uid)
  obtain ph tot frequency invalid where v: "meter_values example_libm (\<lambda>_. (False, DFin 0)) (se_meters example_server ! 0) = (ph, tot, frequency, invalid)"
    by (metis prod_cases4)
  have m0: "se_meters example_server ! 0 = example_meter" by (simp add: example_server_def)
  obtain server' reply shut msgs where h: "handle_client example_libm (\<lambda>_. (False, DFin 0)) True 0 (Recv_request 1 [5, 3]) example_server =
      (server', Some reply, shut, msgs)" using f by (auto simp: handle_client_def case_prod_beta Let_def)
  have "reply = Exception_reply 4"
    using invalid_source_not_served [OF h f _ _ v] example_meter_ok inv m0 by (simp add: example_server_def)
  then show ?thesis using h inv by simp
qed

end
