(* ===== verification/Can.thy ===== *)
theory Can
  imports Dispatch Config_Parse Utils
begin

text \<open>
  The CAN interfaces of can.c: configuration, reception of frames, the coalescing of output values
  in a frame's send buffer, the pass of the TX thread, the little endian values, and the
  timestamp frame.

  The data field of a frame is a list of 8 bytes. The socket is a parameter: \<open>wr frame e\<close> is the
  outcome of a write in the environment state \<open>e\<close>. The end of a value that the configuration checks is
  an \<open>int\<close> that wraps (\<open>can_val_len\<close>). \<open>localtime_r\<close> and \<open>mktime\<close> depend on the time
  zone and are parameters of the timestamp.
\<close>

subsection \<open>State\<close>

record can_val =
  cv_name :: string
  cv_type :: can_type
  cv_pos :: nat
  cv_scale :: dbl
  cv_offset :: dbl
  cv_disp :: nat

record can_frame =
  cf_can_id :: int
  cf_dir :: val_dir
  cf_values :: "can_val list"
  cf_send_data :: "u8 list" \<comment> \<open>\<open>send_buf.data\<close>; its id and dlc are \<open>can_id\<close> and 8\<close>
  cf_send_time :: ticks
  cf_min_dlc :: nat
  cf_too_short :: bool

record can_iface =
  ci_interface :: string
  ci_timestamp_period :: int
  ci_send_timeout :: int
  ci_init_value :: dbl
  ci_stale_timeout :: int
  ci_frames :: "can_frame list"
  ci_next_timestamp :: ticks
  ci_write_failed :: bool
  ci_unsynced :: bool
  ci_fd :: int \<comment> \<open>\<open>can_fd\<close>; negative: closed\<close>
  ci_thread_running :: bool

text \<open>A frame on the bus: identifier with its flags, number of data bytes, data.\<close>

record bus_frame =
  bf_can_id :: u32
  bf_dlc :: nat
  bf_data :: "u8 list"

subsection \<open>Configuration\<close>

record can_val_cfg =
  cvc_title :: string
  cvc_type :: "can_type option" \<comment> \<open>\<open>None\<close>: not given (-1)\<close>
  cvc_pos :: int
  cvc_scale :: dbl
  cvc_offset :: dbl
  cvc_init_value :: "dbl option" \<comment> \<open>\<open>None\<close>: \<open>cfg_size\<close> is 0\<close>
  cvc_stale_timeout :: "int option"

record can_frame_cfg =
  cfc_can_id :: int
  cfc_dir :: "val_dir option"
  cfc_values :: "can_val_cfg list"

record can_iface_cfg =
  cic_interface :: "string option"
  cic_timestamp_period :: int
  cic_send_timeout :: int
  cic_init_value :: dbl
  cic_stale_timeout :: int
  cic_frames :: "can_frame_cfg list"

definition can_frame_val_opts :: "string \<Rightarrow> can_val_cfg" where
  "can_frame_val_opts title =
     \<lparr>cvc_title = title, cvc_type = None, cvc_pos = - 1, cvc_scale = DFin 1, cvc_offset = DFin 0,
      cvc_init_value = None, cvc_stale_timeout = None\<rparr>"

definition can_frame_opts :: can_frame_cfg where
  "can_frame_opts = \<lparr>cfc_can_id = - 1, cfc_dir = None, cfc_values = []\<rparr>"

definition can_opts :: can_iface_cfg where
  "can_opts =
     \<lparr>cic_interface = None, cic_timestamp_period = 0, cic_send_timeout = 1000, cic_init_value = DFin 0,
      cic_stale_timeout = 0, cic_frames = []\<rparr>"

datatype can_error =
    InterfaceNotGiven | CanIdInvalid | DirNotGiven | PosInvalid | ExceedsFrame | TypeInvalid
  | OutputScaleZero | CanConf conf_error

text \<open>The number of data bytes up to the end of a value.\<close>

fun can_val_end :: "can_type \<Rightarrow> int \<Rightarrow> int" where
  "can_val_end CAN_BIT pos = drop_bit 3 pos + 1"
| "can_val_end CAN_U8 pos = pos + 1"
| "can_val_end CAN_S8 pos = pos + 1"
| "can_val_end CAN_U16 pos = pos + 2"
| "can_val_end CAN_S16 pos = pos + 2"
| "can_val_end CAN_U32 pos = pos + 4"
| "can_val_end CAN_S32 pos = pos + 4"

text \<open>What the check computes: the sum is an \<open>int\<close>.\<close>

definition can_val_len :: "can_type \<Rightarrow> int \<Rightarrow> int" where
  "can_val_len type pos = s32 (can_val_end type pos)"

text \<open>
  The context of a value is its interface (as far as configured), the index of the interface and
  of the frame, and the direction; the frame's \<open>min_dlc\<close> is updated beside the dispatchers.
\<close>

definition can_value_configure ::
  "can_iface \<Rightarrow> nat \<Rightarrow> nat \<Rightarrow> val_dir \<Rightarrow> can_val_cfg \<Rightarrow> nat \<Rightarrow> dnode list \<times> nat \<Rightarrow>
    can_error + can_val \<times> dnode list \<times> nat" where
  "can_value_configure iface i fi dir cfg vi st =
     (let (ds, min_dlc) = st;
          init_value = (case cvc_init_value cfg of Some x \<Rightarrow> x | None \<Rightarrow> ci_init_value iface);
          stale_timeout = (case cvc_stale_timeout cfg of Some x \<Rightarrow> x | None \<Rightarrow> ci_stale_timeout iface)
      in if cvc_pos cfg < 0 then Inl PosInvalid
         else case cvc_type cfg of
           None \<Rightarrow> Inl TypeInvalid
         | Some type \<Rightarrow>
             let len = can_val_len type (cvc_pos cfg) in
             if 8 < len then Inl ExceedsFrame
             else let min_dlc = (if int min_dlc < len then nat len else min_dlc) in
               if dir = DIR_OUT \<and> d_eq (cvc_scale cfg) (DFin 0) then Inl OutputScaleZero
               else let (ds1, d) = uvrgw_conf_get_dispatcher (cvc_title cfg) (dir = DIR_OUT) ds;
                        val = \<lparr>cv_name = cvc_title cfg, cv_type = type, cv_pos = nat (cvc_pos cfg),
                               cv_scale = cvc_scale cfg, cv_offset = cvc_offset cfg, cv_disp = d\<rparr>
                 in if dir = DIR_IN
                    then case uvrgw_conf_set_producer ''can'' (ci_interface iface) (Some (CanVal i fi vi)) True
                               init_value stale_timeout (ds1 ! d) of
                           Inl e \<Rightarrow> Inl (CanConf e)
                         | Inr dp \<Rightarrow> Inr (val, ds1[d := dp], min_dlc)
                    else Inr (val, ds1, min_dlc))"

definition can_frame_configure ::
  "can_iface \<Rightarrow> nat \<Rightarrow> can_frame_cfg \<Rightarrow> nat \<Rightarrow> dnode list \<Rightarrow> can_error + can_frame \<times> dnode list" where
  "can_frame_configure iface i cfg fi ds =
     (if cfc_can_id cfg < 0 \<or> 0x7ff < cfc_can_id cfg then Inl CanIdInvalid
      else case cfc_dir cfg of
        None \<Rightarrow> Inl DirNotGiven
      | Some dir \<Rightarrow>
          (case config_childs (can_value_configure iface i fi dir) 0 (cfc_values cfg) (ds, 0) of
             Inl e \<Rightarrow> Inl e
           | Inr (vals, ds', min_dlc) \<Rightarrow>
               Inr (\<lparr>cf_can_id = cfc_can_id cfg, cf_dir = dir, cf_values = vals,
                     cf_send_data = replicate 8 0, cf_send_time = 0, cf_min_dlc = min_dlc,
                     cf_too_short = False\<rparr>, ds')))"

definition can_iface_configure ::
  "can_iface_cfg \<Rightarrow> nat \<Rightarrow> dnode list \<Rightarrow> can_error + can_iface \<times> dnode list" where
  "can_iface_configure cfg i ds =
     (case cic_interface cfg of
        None \<Rightarrow> Inl InterfaceNotGiven
      | Some name \<Rightarrow>
          let iface = \<lparr>ci_interface = name, ci_timestamp_period = cic_timestamp_period cfg,
            ci_send_timeout = cic_send_timeout cfg, ci_init_value = cic_init_value cfg,
            ci_stale_timeout = cic_stale_timeout cfg, ci_frames = [], ci_next_timestamp = 0,
            ci_write_failed = False, ci_unsynced = False, ci_fd = - 1, ci_thread_running = False\<rparr>
          in case config_childs (can_frame_configure iface i) 0 (cic_frames cfg) ds of
               Inl e \<Rightarrow> Inl e
             | Inr (frames, ds') \<Rightarrow> Inr (iface\<lparr>ci_frames := frames\<rparr>, ds'))"

definition can_configure :: "can_iface_cfg list \<Rightarrow> dnode list \<Rightarrow> can_error + can_iface list \<times> dnode list" where
  "can_configure cfgs ds = config_childs can_iface_configure 0 cfgs ds"

text \<open>The output values, in the order in which their callbacks are registered.\<close>

definition can_outputs :: "can_iface list \<Rightarrow> (val_ref \<times> nat) list" where
  "can_outputs ifaces =
     concat (map (\<lambda>(i, iface). concat (map (\<lambda>(fi, frame).
       if cf_dir frame = DIR_OUT
       then map (\<lambda>(vi, val). (CanVal i fi vi, cv_disp val)) (enum 0 (cf_values frame))
       else []) (enum 0 (ci_frames iface)))) (enum 0 ifaces))"

definition can_register_disp_cbs :: "can_iface list \<Rightarrow> dnode list \<Rightarrow> conf_error + dnode list" where
  "can_register_disp_cbs ifaces ds = register_vals (can_outputs ifaces) Can_send_value ds"

subsection \<open>Little endian values\<close>

text \<open>\<open>p\<close> is the data from the value's position on.\<close>

definition read_value :: "u8 list \<Rightarrow> nat \<Rightarrow> u32" where
  "read_value p len = fold (\<lambda>i val. push_bit 8 val OR ucast (p ! (len - i))) [1..<len + 1] 0"

text \<open>The bytes that \<open>write_value\<close> stores.\<close>

primrec write_value :: "nat \<Rightarrow> u32 \<Rightarrow> u8 list" where
  "write_value 0 val = []"
| "write_value (Suc len) val = ucast (val AND 0xff) # write_value len (drop_bit 8 val)"

text \<open>Length in bytes and range of the numeric types.\<close>

fun can_len :: "can_type \<Rightarrow> nat" where
  "can_len CAN_BIT = 0"
| "can_len CAN_U8 = 1"
| "can_len CAN_S8 = 1"
| "can_len CAN_U16 = 2"
| "can_len CAN_S16 = 2"
| "can_len CAN_U32 = 4"
| "can_len CAN_S32 = 4"

fun can_range :: "can_type \<Rightarrow> int \<times> int" where
  "can_range CAN_BIT = (0, 1)"
| "can_range CAN_U8 = (0, 255)"
| "can_range CAN_S8 = (-128, 127)"
| "can_range CAN_U16 = (0, 65535)"
| "can_range CAN_S16 = (-32768, 32767)"
| "can_range CAN_U32 = (0, 4294967295)"
| "can_range CAN_S32 = (-2147483648, 2147483647)"

subsection \<open>Reception\<close>

fun can_decode :: "can_type \<Rightarrow> nat \<Rightarrow> u8 list \<Rightarrow> dbl" where
  "can_decode CAN_BIT pos d =
     (if d ! (drop_bit 3 pos) AND push_bit (pos AND 7) 1 \<noteq> 0 then DFin 1 else DFin 0)"
| "can_decode CAN_U8 pos d = d_of_int (uint (read_value (drop pos d) 1))"
| "can_decode CAN_S8 pos d = d_of_int (sint (ucast (read_value (drop pos d) 1) :: 8 word))"
| "can_decode CAN_U16 pos d = d_of_int (uint (read_value (drop pos d) 2))"
| "can_decode CAN_S16 pos d = d_of_int (sint (ucast (read_value (drop pos d) 2) :: 16 word))"
| "can_decode CAN_U32 pos d = d_of_int (uint (read_value (drop pos d) 4))"
| "can_decode CAN_S32 pos d = d_of_int (sint (read_value (drop pos d) 4))"

definition CAN_FLAGS :: u32 where "CAN_FLAGS = 0xe0000000" \<comment> \<open>EFF, RTR and ERR\<close>
definition CAN_SFF_MASK :: u32 where "CAN_SFF_MASK = 0x7ff"

fun rx_values :: "nat \<Rightarrow> nat \<Rightarrow> nat \<Rightarrow> u8 list \<Rightarrow> can_val list \<Rightarrow> disp_req list" where
  "rx_values i fi vi d [] = []"
| "rx_values i fi vi d (val # vals) =
     Disp (cv_disp val) (Some (CanVal i fi vi))
       (d_add (d_mul (can_decode (cv_type val) (cv_pos val) d) (cv_scale val)) (cv_offset val)) True
     # rx_values i fi (Suc vi) d vals"

definition rx_frame ::
  "bus_frame \<Rightarrow> nat \<Rightarrow> nat \<Rightarrow> can_frame \<Rightarrow> can_frame \<times> disp_req list \<times> logmsg list" where
  "rx_frame rcvd i fi frame =
     (if cf_dir frame \<noteq> DIR_IN then (frame, [], [])
      else if bf_can_id rcvd AND CAN_SFF_MASK \<noteq> word_of_int (cf_can_id frame) then (frame, [], [])
      else if bf_dlc rcvd < cf_min_dlc frame then
        (frame\<lparr>cf_too_short := True\<rparr>, [],
         if cf_too_short frame then [] else [(LOG_WARNING, ''CAN frame too short, values ignored'')])
      else (frame\<lparr>cf_too_short := False\<rparr>, rx_values i fi 0 (bf_data rcvd) (cf_values frame),
            if cf_too_short frame then [(LOG_INFO, ''CAN frame complete again'')] else []))"

fun rx_frames ::
  "bus_frame \<Rightarrow> nat \<Rightarrow> nat \<Rightarrow> can_frame list \<Rightarrow> can_frame list \<times> disp_req list \<times> logmsg list" where
  "rx_frames rcvd i fi [] = ([], [], [])"
| "rx_frames rcvd i fi (frame # frames) =
     (let (frame', r, l) = rx_frame rcvd i fi frame; (frames', rs, ls) = rx_frames rcvd i (Suc fi) frames
      in (frame' # frames', r @ rs, l @ ls))"

text \<open>
  The handler for a readable socket: \<open>None\<close> is a failed or short read; the result tells whether
  the handler succeeded.
\<close>

definition iface_rx_handler ::
  "bus_frame option \<Rightarrow> nat \<Rightarrow> can_iface \<Rightarrow> bool \<times> can_iface \<times> disp_req list \<times> logmsg list" where
  "iface_rx_handler rcvd i iface =
     (case rcvd of
        None \<Rightarrow> (False, iface, [], [(LOG_ERR, ''Failed to read from CAN socket'')])
      | Some fr \<Rightarrow>
          if bf_can_id fr AND CAN_FLAGS \<noteq> 0 then (True, iface, [], [])
          else let (frames, rs, ls) = rx_frames fr i 0 (ci_frames iface)
               in (True, iface\<lparr>ci_frames := frames\<rparr>, rs, ls))"

subsection \<open>Transmission\<close>

text \<open>
  The data field after a value was written; \<open>None\<close> if the conversion to the integer type is
  undefined in C.
\<close>

definition can_encode :: "can_val \<Rightarrow> dbl \<Rightarrow> u8 list \<Rightarrow> u8 list option" where
  "can_encode val f d =
     (if cv_type val = CAN_BIT then
        let k = drop_bit 3 (cv_pos val); m = push_bit (cv_pos val AND 7) 1 in
        Some (d[k := if d_lt (DFin (1/2)) f then d ! k OR m else d ! k AND NOT m])
      else let (lo, hi) = can_range (cv_type val) in
        map_option (\<lambda>z. splice (cv_pos val) (write_value (can_len (cv_type val)) (word_of_int z)) d)
          (d_to_int_limited lo hi (d_div (d_sub f (cv_offset val)) (cv_scale val))))"

text \<open>The dispatch callback; the validity is not used.\<close>

definition can_send_value :: "ticks \<Rightarrow> int \<Rightarrow> can_val \<Rightarrow> dbl \<Rightarrow> bool \<Rightarrow> can_frame \<Rightarrow> can_frame option" where
  "can_send_value now send_timeout val f valid frame =
     map_option (\<lambda>d. frame\<lparr>cf_send_data := d,
         cf_send_time := if cf_send_time frame = 0 then now + send_timeout else cf_send_time frame\<rparr>)
       (can_encode val f (cf_send_data frame))"

definition send_buf :: "can_frame \<Rightarrow> bus_frame" where
  "send_buf frame = \<lparr>bf_can_id = word_of_int (cf_can_id frame), bf_dlc = 8, bf_data = cf_send_data frame\<rparr>"

text \<open>A write with the outcome \<open>ok\<close>: the failure flag and the messages.\<close>

definition iface_write :: "bool \<Rightarrow> can_iface \<Rightarrow> can_iface \<times> logmsg list" where
  "iface_write ok iface =
     (if \<not> ok then
        (iface\<lparr>ci_write_failed := True\<rparr>,
         if ci_write_failed iface then [] else [(LOG_ERR, ''Failed to write to CAN interface'')])
      else
        (iface\<lparr>ci_write_failed := False\<rparr>,
         if ci_write_failed iface then [(LOG_INFO, ''CAN interface written again'')] else []))"

text \<open>A write to the socket: outcome, interface, environment, messages.\<close>

definition do_write ::
  "(bus_frame \<Rightarrow> 'e \<Rightarrow> bool \<times> 'e) \<Rightarrow> bus_frame \<Rightarrow> can_iface \<Rightarrow> 'e \<Rightarrow> bool \<times> can_iface \<times> 'e \<times> logmsg list" where
  "do_write wr fr iface e =
     (let (ok, e') = wr fr e; (iface', l) = iface_write ok iface in (ok, iface', e', l))"

record tm =
  tm_sec :: int
  tm_min :: int
  tm_hour :: int
  tm_mday :: int
  tm_mon :: int
  tm_year :: int
  tm_isdst :: int

text \<open>The clock: synchronised?, gettimeofday, and the conversions of the time zone.\<close>

record can_clock =
  ck_synced :: bool
  ck_time :: "(int \<times> int) option"
  ck_localtime :: "int \<Rightarrow> tm"
  ck_mktime :: "tm \<Rightarrow> int"

definition ts_msecs :: "(tm \<Rightarrow> int) \<Rightarrow> int \<Rightarrow> int \<Rightarrow> tm \<Rightarrow> u32" where
  "ts_msecs mktime tv_sec tv_usec lt =
     word_of_int ((tv_sec - mktime (lt\<lparr>tm_sec := 0, tm_min := 0, tm_hour := 0\<rparr>)) * 1000 + c_div tv_usec 1000)"

definition ts_days :: "(tm \<Rightarrow> int) \<Rightarrow> int \<Rightarrow> tm \<Rightarrow> u16" where
  "ts_days mktime tv_sec lt =
     word_of_int (c_div (tv_sec - mktime (lt\<lparr>tm_mday := 1, tm_mon := 0, tm_year := 84\<rparr>)) (24 * 60 * 60))"

definition timestamp_frame :: "u32 \<Rightarrow> u16 \<Rightarrow> bus_frame" where
  "timestamp_frame msecs days =
     \<lparr>bf_can_id = 0x100, bf_dlc = 6,
      bf_data = [ucast (msecs AND 0xff), ucast (drop_bit 8 msecs AND 0xff),
        ucast (drop_bit 16 msecs AND 0xff), ucast (drop_bit 24 msecs AND 0xff),
        ucast (days AND 0xff), ucast (drop_bit 8 days AND 0xff), 0, 0]\<rparr>"

text \<open>The result is the code's: 1 sent, 0 not synchronised, -1 error.\<close>

definition send_timestamp ::
  "can_clock \<Rightarrow> (bus_frame \<Rightarrow> 'e \<Rightarrow> bool \<times> 'e) \<Rightarrow> can_iface \<Rightarrow> 'e \<Rightarrow>
    int \<times> can_iface \<times> 'e \<times> bus_frame list \<times> logmsg list" where
  "send_timestamp clk wr iface e =
     (if \<not> ck_synced clk then
        (0, iface\<lparr>ci_unsynced := True\<rparr>, e, [],
         if ci_unsynced iface then [] else [(LOG_WARNING, ''clock not synchronised'')])
      else let l1 = (if ci_unsynced iface then [(LOG_INFO, ''clock synchronised'')] else []);
               iface1 = iface\<lparr>ci_unsynced := False\<rparr>
        in case ck_time clk of
             None \<Rightarrow> (-1, iface1, e, [], l1 @ [(LOG_ERR, ''Failed to get current time'')])
           | Some (tv_sec, tv_usec) \<Rightarrow>
               let lt = ck_localtime clk tv_sec;
                   fr = timestamp_frame (ts_msecs (ck_mktime clk) tv_sec tv_usec lt) (ts_days (ck_mktime clk) tv_sec lt);
                   (ok, iface2, e', l2) = do_write wr fr iface1 e
               in (if ok then 1 else -1, iface2, e', if ok then [fr] else [], l1 @ l2))"

text \<open>
  The frames that are due: they are written in order until a write fails; the frame whose write
  failed is not pending any more. The result holds the frames that were written.
\<close>

fun send_pending ::
  "ticks \<Rightarrow> (bus_frame \<Rightarrow> 'e \<Rightarrow> bool \<times> 'e) \<Rightarrow> can_frame list \<Rightarrow> can_iface \<Rightarrow> 'e \<Rightarrow>
    bool \<times> can_frame list \<times> can_iface \<times> 'e \<times> bus_frame list \<times> logmsg list" where
  "send_pending now wr [] iface e = (True, [], iface, e, [], [])"
| "send_pending now wr (frame # frames) iface e =
     (if cf_dir frame \<noteq> DIR_OUT \<or> cf_send_time frame = 0 \<or> now < cf_send_time frame then
        let (ok, frames', iface', e', sent, l) = send_pending now wr frames iface e
        in (ok, frame # frames', iface', e', sent, l)
      else
        let frame' = frame\<lparr>cf_send_time := 0\<rparr>;
            (ok, iface1, e1, l1) = do_write wr (send_buf frame) iface e
        in if \<not> ok then (False, frame' # frames, iface1, e1, [], l1)
           else let (ok2, frames', iface2, e2, sent, l2) = send_pending now wr frames iface1 e1
                in (ok2, frame' # frames', iface2, e2, send_buf frame # sent, l1 @ l2))"

definition iface_task ::
  "ticks \<Rightarrow> can_clock \<Rightarrow> (bus_frame \<Rightarrow> 'e \<Rightarrow> bool \<times> 'e) \<Rightarrow> can_iface \<Rightarrow> 'e \<Rightarrow>
    bool \<times> can_iface \<times> 'e \<times> bus_frame list \<times> logmsg list" where
  "iface_task now clk wr iface e =
     (let (ts, iface1, e1, sent1, l1) =
        (if 0 < ci_timestamp_period iface \<and> ci_next_timestamp iface \<le> now
         then send_timestamp clk wr (iface\<lparr>ci_next_timestamp := now + ci_timestamp_period iface\<rparr>) e
         else (0, iface, e, [], []))
      in if ts < 0 then (False, iface1, e1, sent1, l1)
         else let (ok, frames, iface2, e2, sent2, l2) = send_pending now wr (ci_frames iface1) iface1 e1
              in (ok, iface2\<lparr>ci_frames := frames\<rparr>, e2, sent1 @ sent2, l1 @ l2))"

subsection \<open>Startup, shutdown and the handler\<close>

text \<open>What the calls of \<open>iface_startup\<close> return: the descriptor, the index, \<open>bind\<close>, \<open>pthread_create\<close>.\<close>

record can_start =
  cs_socket :: int
  cs_index_ok :: bool
  cs_bind_ok :: bool
  cs_created :: bool

datatype can_res = Can_socket | Can_thread

definition iface_startup :: "can_start \<Rightarrow> can_iface \<Rightarrow> bool \<times> can_iface \<times> can_res event list" where
  "iface_startup env iface =
     (if cs_socket env < 0 then (False, iface\<lparr>ci_fd := cs_socket env\<rparr>, [])
      else if \<not> cs_index_ok env \<or> \<not> cs_bind_ok env
        then (False, iface\<lparr>ci_fd := - 1\<rparr>, [Acquire Can_socket, Release Can_socket])
      else if \<not> cs_created env
        then (False, iface\<lparr>ci_fd := - 1, ci_thread_running := False\<rparr>, [Acquire Can_socket, Release Can_socket])
      else (True, iface\<lparr>ci_fd := cs_socket env, ci_thread_running := True\<rparr>, [Acquire Can_socket, Acquire Can_thread]))"

text \<open>One interface in the loop of \<open>can_shutdown\<close>.\<close>

definition iface_shutdown :: "can_iface \<Rightarrow> can_iface \<times> can_res event list" where
  "iface_shutdown iface =
     (iface\<lparr>ci_thread_running := False, ci_fd := (if 0 \<le> ci_fd iface then - 1 else ci_fd iface)\<rparr>,
      (if ci_thread_running iface then [Release Can_thread] else []) @ (if 0 \<le> ci_fd iface then [Release Can_socket] else []))"

definition can_shutdown :: "can_iface list \<Rightarrow> can_iface list \<times> (nat \<times> can_res) event list" where
  "can_shutdown ifaces = stop_units iface_shutdown 0 ifaces"

definition can_startup ::
  "(nat \<Rightarrow> can_start) \<Rightarrow> can_iface list \<Rightarrow> bool \<times> can_iface list \<times> (nat \<times> can_res) event list" where
  "can_startup env ifaces = startup_all iface_startup iface_shutdown env ifaces"

text \<open>The resources of an interface: the thread uses the socket.\<close>

definition iface_owns :: "can_iface \<Rightarrow> can_res set" where
  "iface_owns iface = (if 0 \<le> ci_fd iface then {Can_socket} else {}) \<union> (if ci_thread_running iface then {Can_thread} else {})"

fun can_needs :: "can_res \<Rightarrow> can_res set" where
  "can_needs Can_socket = {}"
| "can_needs Can_thread = {Can_socket}"

interpretation can_unit: startable iface_startup iface_shutdown iface_owns can_needs can_needs "\<lambda>_. True"
  by unfold_locales (auto simp: iface_startup_def iface_shutdown_def iface_owns_def split: if_split_asm)

text \<open>\<open>readable\<close> is the set that \<open>select\<close> left, \<open>rcvd\<close> what reading each interface gives.\<close>

fun can_handler ::
  "(int \<Rightarrow> bool) \<Rightarrow> (nat \<Rightarrow> bus_frame option) \<Rightarrow> nat \<Rightarrow> can_iface list \<Rightarrow> bool \<times> can_iface list \<times> disp_req list \<times> logmsg list" where
  "can_handler readable rcvd i [] = (True, [], [], [])"
| "can_handler readable rcvd i (iface # ifaces) =
     (let (ok, iface1, rs, l) =
        (if readable (ci_fd iface) then iface_rx_handler (rcvd i) i iface else (True, iface, [], [])) in
      if \<not> ok then (False, iface1 # ifaces, rs, l)
      else let (ok2, ifaces2, rs2, l2) = can_handler readable rcvd (Suc i) ifaces
        in (ok2, iface1 # ifaces2, rs @ rs2, l @ l2))"

definition can_update_fds :: "can_iface list \<Rightarrow> int set \<times> int \<Rightarrow> int set \<times> int" where
  "can_update_fds ifaces = fold (\<lambda>iface. if 0 \<le> ci_fd iface then utl_update_fds (ci_fd iface) else id) ifaces"

text \<open>The callback of a value of the interface list.\<close>

definition can_callback ::
  "ticks \<Rightarrow> nat \<Rightarrow> nat \<Rightarrow> nat \<Rightarrow> dbl \<Rightarrow> bool \<Rightarrow> can_iface list \<Rightarrow> can_iface list option" where
  "can_callback now i fi vi f valid ifaces =
     (let iface = ifaces ! i; frame = ci_frames iface ! fi in
      map_option (\<lambda>frame'. ifaces[i := iface\<lparr>ci_frames := (ci_frames iface)[fi := frame']\<rparr>])
        (can_send_value now (ci_send_timeout iface) (cf_values frame ! vi) f valid frame))"

lemmas [can_simps] = rx_frame_def iface_write_def do_write_def can_send_value_def Let_def

subsection \<open>Little endian round trip\<close>

lemma fold_shift:
  "fold (\<lambda>i val. push_bit 8 val OR ucast ((b # p) ! (Suc len - i))) [Suc 0..<Suc len] v =
   fold (\<lambda>i val. push_bit 8 val OR ucast (p ! (len - i))) [Suc 0..<Suc len] (v :: u32)"
  by (rule fold_cong) (auto simp: Suc_diff_le)

lemma read_value_0 [simp]: "read_value p 0 = 0"
  by (simp add: read_value_def)

lemma read_value_Cons: "read_value (b # p) (Suc len) = push_bit 8 (read_value p len) OR ucast b"
proof -
  have "[1..<Suc len + 1] = [1..<len + 1] @ [Suc len]" by simp
  then show ?thesis using fold_shift [of b p len 0] by (simp add: read_value_def)
qed

lemma write_value_length [simp]: "length (write_value len v) = len"
  by (induction len arbitrary: v) simp_all

lemma bit_255: "bit (255 :: int) k \<longleftrightarrow> k < 8"
proof -
  have "(255 :: int) = mask 8" by (simp add: mask_eq_exp_minus_1)
  then show ?thesis by (simp only: bit_mask_iff) simp
qed

lemma split_byte: "push_bit 8 (take_bit n (drop_bit 8 v)) OR ucast (ucast (v AND 0xff) :: u8) = take_bit (Suc n + 7) (v :: u32)"
  by (rule bit_word_eqI) (auto simp: bit_simps bit_255)

lemma read_write: "read_value (write_value len v @ rest) len = take_bit (8 * len) v"
proof (induction len arbitrary: v)
  case (Suc len)
  then show ?case using split_byte [of "8 * len" v] by (simp add: read_value_Cons)
qed simp

interpretation le8: byte_codec 1 "write_value 1" "\<lambda>bs. read_value bs 1" "\<lambda>v. take_bit 8 v = v"
  using read_write [of 1 _ "[]"] by unfold_locales simp_all

interpretation le16: byte_codec 2 "write_value 2" "\<lambda>bs. read_value bs 2" "\<lambda>v. take_bit 16 v = v"
  using read_write [of 2 _ "[]"] by unfold_locales simp_all

lemma take_bit_32 [simp]: "take_bit 32 (v :: u32) = v"
  using take_bit_length_eq [of v] by simp

interpretation le32: byte_codec 4 "write_value 4" "\<lambda>bs. read_value bs 4" "\<lambda>v. True"
  using read_write [of 4 _ "[]"] by unfold_locales simp_all

lemma read_slice: "read_value (drop pos d) len = read_value (slice pos len d) len" if "pos + len \<le> length d"
proof -
  have "fold (\<lambda>i val. push_bit 8 val OR ucast (drop pos d ! (len - i))) [1..<len + 1] (v :: u32) =
    fold (\<lambda>i val. push_bit 8 val OR ucast (slice pos len d ! (len - i))) [1..<len + 1] v" for v
    by (rule fold_cong) (auto simp: slice_def)
  then show ?thesis by (simp add: read_value_def)
qed

text \<open>A numeric value as it is read from the field at \<open>pos\<close> after an integer was written there.\<close>

lemma read_spliced:
  assumes "pos + len \<le> length d"
  shows "read_value (drop pos (splice pos (write_value len v) d)) len = take_bit (8 * len) v"
  using slice_splice_same [of pos "write_value len v" d] read_write [of len v "[]"] assms
  by (simp add: read_slice)

lemma sint_range_id: "- (2 ^ (n - 1)) \<le> z \<Longrightarrow> z < 2 ^ (n - 1) \<Longrightarrow> LENGTH('a::len) = n \<Longrightarrow> sint (word_of_int z :: 'a word) = z"
  by (simp add: sint_sbintrunc' signed_take_bit_int_eq_self)

subsection \<open>Values in the data field\<close>

lemma can_val_end_len: "t \<noteq> CAN_BIT \<Longrightarrow> can_val_end t pos = pos + int (can_len t)"
  by (cases t) simp_all

lemma can_val_end_bounds: "0 \<le> pos \<Longrightarrow> 0 < can_val_end t pos \<and> can_val_end t pos \<le> pos + 4"
  by (cases t) (auto simp: drop_bit_eq_div)

lemma can_val_len_id: "0 \<le> pos \<Longrightarrow> pos \<le> 2147483643 \<Longrightarrow> can_val_len t pos = can_val_end t pos"
  using can_val_end_bounds [of pos t] by (simp add: can_val_len_def s32_id)

text \<open>A value that lies inside the data field, as configuration ensures.\<close>

definition can_val_ok :: "val_dir \<Rightarrow> nat \<Rightarrow> can_val \<Rightarrow> bool" where
  "can_val_ok dir min_dlc val \<longleftrightarrow> can_val_end (cv_type val) (int (cv_pos val)) \<le> int min_dlc \<and>
     (dir = DIR_OUT \<longrightarrow> \<not> d_eq (cv_scale val) (DFin 0))"

definition can_frame_ok :: "can_frame \<Rightarrow> bool" where
  "can_frame_ok frame \<longleftrightarrow> 0 \<le> cf_can_id frame \<and> cf_can_id frame \<le> 0x7ff \<and> cf_min_dlc frame \<le> 8 \<and>
     length (cf_send_data frame) = 8 \<and>
     (\<forall>val \<in> set (cf_values frame). can_val_ok (cf_dir frame) (cf_min_dlc frame) val)"

lemma value_configure_ok:
  assumes "can_value_configure iface i fi dir cfg vi (ds, dlc) = Inr (val, ds', dlc')" "dlc \<le> 8"
  shows "dlc \<le> dlc' \<and> dlc' \<le> 8 \<and> (int (cv_pos val) \<le> 2147483643 \<longrightarrow> can_val_ok dir dlc' val)"
proof -
  define len where "len = can_val_len (cv_type val) (cvc_pos cfg)"
  have v: "0 \<le> cvc_pos cfg" "cv_pos val = nat (cvc_pos cfg)" "len \<le> 8" "dlc' = (if int dlc < len then nat len else dlc)"
    "dir = DIR_OUT \<longrightarrow> \<not> d_eq (cv_scale val) (DFin 0)"
    using assms(1) unfolding len_def
    by (auto simp: can_value_configure_def Let_def split: option.splits if_splits prod.splits sum.splits)
  have "can_val_end (cv_type val) (int (cv_pos val)) = len" if "int (cv_pos val) \<le> 2147483643"
    using that v(1,2) can_val_len_id [of "cvc_pos cfg"] by (simp add: len_def)
  then show ?thesis using v(3-5) assms(2) by (auto simp: can_val_ok_def)
qed

lemma values_configure_ok:
  assumes "config_childs (can_value_configure iface i fi dir) k cfgs (ds, dlc) = Inr (vals, ds', dlc')" "dlc \<le> 8"
  shows "dlc \<le> dlc' \<and> dlc' \<le> 8 \<and> (\<forall>val \<in> set vals. int (cv_pos val) \<le> 2147483643 \<longrightarrow> can_val_ok dir dlc' val)"
  using assms
proof (induction cfgs arbitrary: k ds dlc vals)
  case Nil
  then show ?case by simp
next
  case (Cons cfg cfgs)
  then obtain val ds1 dlc1 vals2 where
    s: "can_value_configure iface i fi dir cfg k (ds, dlc) = Inr (val, ds1, dlc1)"
    "config_childs (can_value_configure iface i fi dir) (Suc k) cfgs (ds1, dlc1) = Inr (vals2, ds', dlc')"
    "vals = val # vals2"
    by (auto split: sum.splits)
  note one = value_configure_ok [OF s(1) Cons.prems(2)]
  then have "dlc1 \<le> dlc' \<and> dlc' \<le> 8 \<and> (\<forall>val \<in> set vals2. int (cv_pos val) \<le> 2147483643 \<longrightarrow> can_val_ok dir dlc' val)"
    using Cons.IH [OF s(2)] by blast
  then show ?case using one s(3) by (auto simp: can_val_ok_def)
qed

lemma frame_configure_ok:
  assumes "can_frame_configure iface i cfg fi ds = Inr (frame, ds')"
  shows "(\<forall>val \<in> set (cf_values frame). int (cv_pos val) \<le> 2147483643) \<longrightarrow> can_frame_ok frame"
  using assms values_configure_ok
  by (fastforce simp: can_frame_configure_def can_frame_ok_def split: if_splits option.splits sum.splits)

lemma iface_configure_ok:
  assumes "can_iface_configure cfg i ds = Inr (iface, ds')"
  shows "\<forall>frame \<in> set (ci_frames iface). (\<forall>val \<in> set (cf_values frame). int (cv_pos val) \<le> 2147483643) \<longrightarrow> can_frame_ok frame"
proof -
  obtain iface0 where "config_childs (can_frame_configure iface0 i) 0 (cic_frames cfg) ds = Inr (ci_frames iface, ds')"
    using assms by (auto simp: can_iface_configure_def Let_def split: option.splits sum.splits)
  then show ?thesis by (rule config_childs_all [OF _ frame_configure_ok])
qed

text \<open>
  C10. An accepted CAN configuration addresses no byte outside a frame, as long as no value of the frame
  has a pos within 4 of the largest int (there the sum of the check can overflow, and such a value is accepted:
  \<open>can_pos_overflow_accepted\<close>): identifiers are 11-bit standard identifiers, every value ends within the
  frame's min_dlc and that within the 8 data bytes, the send buffer has 8 bytes, and no output divides by
  a zero scale.
\<close>

theorem can_configuration_sound:
  assumes "can_configure cfgs ds = Inr (ifaces, ds')" "iface \<in> set ifaces" "frame \<in> set (ci_frames iface)"
    and "\<forall>val \<in> set (cf_values frame). int (cv_pos val) \<le> 2147483643"
  shows "0 \<le> cf_can_id frame \<and> cf_can_id frame \<le> 0x7ff \<and> length (cf_send_data frame) = 8 \<and>
    cf_min_dlc frame \<le> 8 \<and>
    (\<forall>val \<in> set (cf_values frame). can_val_end (cv_type val) (int (cv_pos val)) \<le> int (cf_min_dlc frame) \<and>
      (cf_dir frame = DIR_OUT \<longrightarrow> \<not> d_eq (cv_scale val) (DFin 0)))"
proof -
  have "\<forall>iface \<in> set ifaces. \<forall>frame \<in> set (ci_frames iface).
      (\<forall>val \<in> set (cf_values frame). int (cv_pos val) \<le> 2147483643) \<longrightarrow> can_frame_ok frame"
    by (rule config_childs_all [OF assms(1) [unfolded can_configure_def] iface_configure_ok])
  then have "can_frame_ok frame" using assms(2-4) by blast
  then show ?thesis by (simp add: can_frame_ok_def can_val_ok_def)
qed

text \<open>
  Without that bound it fails: the end of an 8-bit value at the largest \<open>int\<close> is the smallest, which is not
  beyond the frame, so the configuration accepts an output that is written far behind the 8 bytes.
\<close>

lemma can_pos_overflow_accepted:
  assumes "cfg = (can_frame_val_opts title)\<lparr>cvc_type := Some CAN_U8, cvc_pos := 2147483647\<rparr>"
  shows "\<exists>val ds'. can_value_configure iface i fi DIR_OUT cfg vi (ds, dlc) = Inr (val, ds', dlc) \<and>
    can_val_end (cv_type val) (int (cv_pos val)) = 2147483648"
proof -
  obtain ds1 d where g: "uvrgw_conf_get_dispatcher title True ds = (ds1, d)" by force
  have "can_val_len CAN_U8 2147483647 = - 2147483648" by (simp add: can_val_len_def s32_def)
  then show ?thesis
    by (simp add: assms can_value_configure_def can_frame_val_opts_def g Let_def)
qed

definition example_can_cfg :: "can_iface_cfg list" where
  "example_can_cfg = [can_opts\<lparr>cic_interface := Some ''can0'', cic_frames := [can_frame_opts\<lparr>cfc_can_id := 0x201,
     cfc_dir := Some DIR_IN, cfc_values := [(can_frame_val_opts ''t'')\<lparr>cvc_type := Some CAN_S16, cvc_pos := 6\<rparr>]\<rparr>]\<rparr>]"

theorem can_configuration_sound_witness:
  "cf_min_dlc (hd (ci_frames (hd (fst (projr (can_configure example_can_cfg [])))))) \<le> 8"
proof -
  let ?c = "can_configure example_can_cfg []"
  have e: "isl ?c = False \<and> fst (projr ?c) \<noteq> [] \<and> ci_frames (hd (fst (projr ?c))) \<noteq> [] \<and>
      list_all (\<lambda>val. int (cv_pos val) \<le> 2147483643) (cf_values (hd (ci_frames (hd (fst (projr ?c))))))" by code_simp
  then have "?c = Inr (fst (projr ?c), snd (projr ?c))" "hd (fst (projr ?c)) \<in> set (fst (projr ?c))"
    "hd (ci_frames (hd (fst (projr ?c)))) \<in> set (ci_frames (hd (fst (projr ?c))))"
    by (cases ?c; simp)+
  moreover have "\<forall>val \<in> set (cf_values (hd (ci_frames (hd (fst (projr ?c)))))). int (cv_pos val) \<le> 2147483643"
    using e by (simp add: list_all_iff)
  ultimately show ?thesis by (blast dest: can_configuration_sound)
qed

subsection \<open>Sending and receiving a value\<close>

lemma uint_field: "0 \<le> z \<Longrightarrow> z < 2 ^ n \<Longrightarrow> n \<le> 32 \<Longrightarrow> uint (take_bit n (word_of_int z :: u32)) = z"
  by (simp add: unsigned_take_bit_eq unsigned_of_int take_bit_int_eq_self)

lemma ucast_field:
  "ucast (take_bit 8 (word_of_int z :: u32)) = (word_of_int z :: u8)"
  "ucast (take_bit 16 (word_of_int z :: u32)) = (word_of_int z :: u16)"
  by (rule bit_word_eqI, auto simp: bit_simps)+

lemma sint_field:
  "- 128 \<le> z \<Longrightarrow> z \<le> 127 \<Longrightarrow> sint (word_of_int z :: u8) = z"
  "- 32768 \<le> z \<Longrightarrow> z \<le> 32767 \<Longrightarrow> sint (word_of_int z :: u16) = z"
  "- 2147483648 \<le> z \<Longrightarrow> z \<le> 2147483647 \<Longrightarrow> sint (word_of_int z :: u32) = z"
  by (simp_all add: sint_sbintrunc' signed_take_bit_int_eq_self)

lemma decode_written:
  assumes "t \<noteq> CAN_BIT" "pos + can_len t \<le> length d" "fst (can_range t) \<le> z" "z \<le> snd (can_range t)"
  shows "can_decode t pos (splice pos (write_value (can_len t) (word_of_int z)) d) = DFin (of_int z)"
proof -
  have r: "read_value (drop pos (splice pos (write_value (can_len t) (word_of_int z)) d)) (can_len t) =
      take_bit (8 * can_len t) (word_of_int z)"
    by (rule read_spliced [OF assms(2)])
  have e: "d_of_int z = DFin (of_int z)"
    using assms(3,4) by (intro d_of_int_exact) (cases t; auto)
  show ?thesis
    using assms(1,3,4) r e uint_field [of z 8] uint_field [of z 16] uint_field [of z 32]
    by (cases t) (simp_all add: ucast_field sint_field)
qed

lemma can_range_order: "fst (can_range t) \<le> snd (can_range t)"
  by (cases t) simp_all

lemma encode_length: "can_encode val f d = Some d' \<Longrightarrow> can_val_end (cv_type val) (int (cv_pos val)) \<le> int (length d) \<Longrightarrow>
    length d' = length d"
  by (auto simp: can_encode_def Let_def can_val_end_len split: if_splits prod.splits)

text \<open>
  C11. A dispatched value that is sent and received again is the transformed value, rounded to the
  nearest integer (halves away from zero) and limited to the range of its type, for every numeric type
  and position, and no other byte of the frame changes. The conversion is defined whenever the transformed
  value is a number; a configuration that accepts NaN as scale or offset of an output (only a scale of 0 is
  refused) can make it one that is not (\<open>can_nan_scale_accepted\<close>).
\<close>

theorem can_send_receive:
  assumes "cv_type val \<noteq> CAN_BIT" "cv_pos val + can_len (cv_type val) \<le> length d"
    and "\<not> isnan (d_div (d_sub f (cv_offset val)) (cv_scale val))"
    and "z = (if isfinite (d_div (d_sub f (cv_offset val)) (cv_scale val))
      then limit_int (fst (can_range (cv_type val))) (snd (can_range (cv_type val)))
        (rval (d_div (d_sub f (cv_offset val)) (cv_scale val)))
      else if signbit (d_div (d_sub f (cv_offset val)) (cv_scale val))
      then fst (can_range (cv_type val)) else snd (can_range (cv_type val)))"
  shows "\<exists>d'. can_encode val f d = Some d' \<and> length d' = length d \<and>
    can_decode (cv_type val) (cv_pos val) d' = DFin (of_int z) \<and>
    (\<forall>k < length d. k < cv_pos val \<or> cv_pos val + can_len (cv_type val) \<le> k \<longrightarrow> d' ! k = d ! k)"
proof -
  let ?x = "d_div (d_sub f (cv_offset val)) (cv_scale val)" and ?r = "can_range (cv_type val)"
  let ?d = "splice (cv_pos val) (write_value (can_len (cv_type val)) (word_of_int z)) d"
  have "d_to_int_limited (fst ?r) (snd ?r) ?x = Some z"
  proof (cases "isfinite ?x")
    case True
    then show ?thesis using d_to_int_limited_finite [OF _ can_range_order] assms(4) by simp
  next
    case False
    then obtain s where "?x = DInf s" using assms(3) by (auto simp: not_finite_cases isnan_def)
    then show ?thesis using d_to_int_limited_inf [OF can_range_order] assms(4) by simp
  qed
  then have enc: "can_encode val f d = Some ?d"
    using assms(1) by (simp add: can_encode_def case_prod_beta)
  have "fst ?r \<le> z" "z \<le> snd ?r"
    using assms(4) can_range_order [of "cv_type val"] by (auto simp: limit_int_def)
  then have "can_decode (cv_type val) (cv_pos val) ?d = DFin (of_int z)"
    by (rule decode_written [OF assms(1,2)])
  then show ?thesis using enc assms(2) by (auto simp: nth_splice)
qed

text \<open>What that side condition excludes: a NaN scale passes the check, and then no conversion is defined.\<close>

lemma can_nan_scale_accepted:
  assumes "cfg = (can_frame_val_opts title)\<lparr>cvc_type := Some CAN_U8, cvc_pos := 0, cvc_scale := DNaN\<rparr>"
  shows "\<exists>val ds' dlc'. can_value_configure iface i fi DIR_OUT cfg vi (ds, dlc) = Inr (val, ds', dlc') \<and>
    (\<forall>f. can_encode val f d = None)"
proof -
  obtain ds1 n where g: "uvrgw_conf_get_dispatcher title True ds = (ds1, n)" by force
  have "can_val_len CAN_U8 0 = 1" by (simp add: can_val_len_def s32_def)
  moreover have "d_div x DNaN = DNaN" for x by (simp add: d_div_def isnan_def)
  ultimately show ?thesis
    by (simp add: assms can_value_configure_def can_frame_val_opts_def g Let_def can_encode_def d_to_int_limited_nan)
qed

definition example_val :: can_val where
  "example_val = \<lparr>cv_name = ''t'', cv_type = CAN_S16, cv_pos = 2, cv_scale = DFin 1, cv_offset = DFin 0, cv_disp = 0\<rparr>"

theorem can_send_receive_witness:
  "\<exists>d'. can_encode example_val (DFin (- 40000)) (replicate 8 0) = Some d' \<and>
    can_decode CAN_S16 2 d' = DFin (- 32768)"
proof -
  have x: "d_div (d_sub (DFin (- 40000)) (DFin 0)) (DFin 1) = DFin (- 40000)"
    using int_is_double [of "- 40000"] by (simp add: d_sub_zero d_div_one)
  have "limit_int (- 32768) 32767 (- 40000) = - 32768"
    using rna_of_int [of "- 40000"] by (simp add: limit_int_def)
  then show ?thesis
    using can_send_receive [of example_val "replicate 8 0" "DFin (- 40000)" "- 32768"] x
    by (auto simp: example_val_def isnan_def)
qed

text \<open>
  A configured output never meets an undefined conversion: with a finite offset and a finite
  non-zero scale, every finite dispatched value is encoded.
\<close>

theorem can_output_defined:
  assumes "isfinite f" "isfinite (cv_offset val)" "isfinite (cv_scale val)"
    and "\<not> d_eq (cv_scale val) (DFin 0)"
  shows "\<exists>frame'. can_send_value now timeout val f valid frame = Some frame' \<and>
    (cf_send_time frame \<noteq> 0 \<longrightarrow> cf_send_time frame' = cf_send_time frame)"
proof -
  let ?x = "d_div (d_sub f (cv_offset val)) (cv_scale val)"
  have "\<not> isnan ?x"
    using assms by (intro d_div_not_nan) (simp_all add: d_sub_finite d_eq_finite)
  then obtain z where "d_to_int_limited (fst (can_range (cv_type val))) (snd (can_range (cv_type val))) ?x = Some z"
    using d_to_int_limited_defined [OF _ can_range_order] by metis
  then show ?thesis
    by (auto simp: can_send_value_def can_encode_def case_prod_beta Let_def)
qed

theorem can_output_defined_witness:
  "\<exists>frame'. can_send_value 1 1000 example_val (DFin 5) True
      \<lparr>cf_can_id = 1, cf_dir = DIR_OUT, cf_values = [example_val], cf_send_data = replicate 8 0,
       cf_send_time = 0, cf_min_dlc = 4, cf_too_short = False\<rparr> = Some frame'"
  using can_output_defined [of "DFin 5" example_val 1 1000 True
      "\<lparr>cf_can_id = 1, cf_dir = DIR_OUT, cf_values = [example_val], cf_send_data = replicate 8 0,
       cf_send_time = 0, cf_min_dlc = 4, cf_too_short = False\<rparr>"]
  by (auto simp: example_val_def)

text \<open>
  A bit input applies scale and offset, but a bit output does not reverse them: with scale 10
  and offset 5, a received 0 is dispatched as 5, and sending this 5 to a bit output with the
  same scale and offset sets the bit.
\<close>

theorem bit_scale_not_reversed:
  "let val = \<lparr>cv_name = ''b'', cv_type = CAN_BIT, cv_pos = 0, cv_scale = DFin 10, cv_offset = DFin 5, cv_disp = 0\<rparr>
   in rx_values 0 0 0 (replicate 8 0) [val] = [Disp 0 (Some (CanVal 0 0 0)) (DFin 5) True] \<and>
      can_encode val (DFin 5) (replicate 8 0) = Some (1 # replicate 7 0)"
proof -
  have "d_mul (DFin 0) (DFin 10) = DFin 0" "d_add (DFin 0) (DFin 5) = DFin 5" by code_simp+
  then show ?thesis by (simp add: can_encode_def numeral_eq_Suc)
qed

subsection \<open>Coalescing of output values\<close>

fun send_values :: "int \<Rightarrow> (ticks \<times> can_val \<times> dbl) list \<Rightarrow> can_frame \<Rightarrow> can_frame option" where
  "send_values timeout [] frame = Some frame"
| "send_values timeout ((now, val, f) # us) frame =
     (case can_send_value now timeout val f True frame of
        None \<Rightarrow> None
      | Some frame' \<Rightarrow> send_values timeout us frame')"

lemma can_send_value_frame:
  "can_send_value now timeout val f v frame = Some frame' \<Longrightarrow>
    cf_dir frame' = cf_dir frame \<and> cf_can_id frame' = cf_can_id frame \<and>
    cf_send_time frame' = (if cf_send_time frame = 0 then now + timeout else cf_send_time frame)"
  by (auto simp: can_send_value_def)

lemma send_values_armed:
  "send_values timeout us frame = Some frame' \<Longrightarrow> cf_send_time frame \<noteq> 0 \<Longrightarrow>
    cf_send_time frame' = cf_send_time frame \<and> cf_dir frame' = cf_dir frame"
proof (induction us arbitrary: frame)
  case (Cons u us)
  obtain now val f where u: "u = (now, val, f)" by (cases u) auto
  then obtain frame1 where s: "can_send_value now timeout val f True frame = Some frame1"
    "send_values timeout us frame1 = Some frame'"
    using Cons.prems(1) by (auto split: option.splits)
  then show ?case using Cons.IH [OF s(2)] can_send_value_frame [OF s(1)] Cons.prems(2) by simp
qed simp

text \<open>
  Updates are coalesced: all updates of an idle output frame are sent in one frame,
  send_timeout after the first of them, no matter how many follow in between; nothing is sent
  before, and after a successful write nothing is pending.
\<close>

theorem updates_coalesced:
  assumes "cf_dir frame = DIR_OUT" "cf_send_time frame = 0" "t1 + timeout \<noteq> 0"
    and "send_values timeout ((t1, val, f) # us) frame = Some frame'"
    and "wr (send_buf frame') e = (True, e')"
  shows "(now < t1 + timeout \<longrightarrow> send_pending now wr [frame'] iface e = (True, [frame'], iface, e, [], [])) \<and>
    (t1 + timeout \<le> now \<longrightarrow> (\<exists>iface' l. send_pending now wr [frame'] iface e =
      (True, [frame'\<lparr>cf_send_time := 0\<rparr>], iface', e', [send_buf frame'], l))) \<and>
    send_pending later wr [frame'\<lparr>cf_send_time := 0\<rparr>] iface e = (True, [frame'\<lparr>cf_send_time := 0\<rparr>], iface, e, [], [])"
proof -
  obtain frame1 where s: "can_send_value t1 timeout val f True frame = Some frame1"
    "send_values timeout us frame1 = Some frame'"
    using assms(4) by (auto split: option.splits)
  have "cf_send_time frame1 = t1 + timeout" "cf_dir frame1 = DIR_OUT"
    using can_send_value_frame [OF s(1)] assms(1,2) by simp_all
  then have "cf_send_time frame' = t1 + timeout" "cf_dir frame' = DIR_OUT"
    using send_values_armed [OF s(2)] assms(3) by simp_all
  then show ?thesis using assms(3,5) by (simp add: do_write_def Let_def split: prod.splits)
qed

definition example_frame :: can_frame where
  "example_frame = \<lparr>cf_can_id = 0x201, cf_dir = DIR_OUT, cf_values = [], cf_send_data = replicate 8 0,
     cf_send_time = 0, cf_min_dlc = 8, cf_too_short = False\<rparr>"

definition example_bit :: "nat \<Rightarrow> can_val" where
  "example_bit pos = \<lparr>cv_name = ''b'', cv_type = CAN_BIT, cv_pos = pos, cv_scale = DFin 1, cv_offset = DFin 0, cv_disp = 0\<rparr>"

definition example_iface :: can_iface where
  "example_iface = \<lparr>ci_interface = ''can0'', ci_timestamp_period = 0, ci_send_timeout = 1000, ci_init_value = DFin 0,
     ci_stale_timeout = 0, ci_frames = [], ci_next_timestamp = 0, ci_write_failed = False, ci_unsynced = False,
     ci_fd = - 1, ci_thread_running = False\<rparr>"

theorem updates_coalesced_witness:
  "\<exists>iface' l. send_pending 1100 (\<lambda>_ e. (True, e))
      [the (send_values 1000 [(50, example_bit 0, DFin 1), (70, example_bit 9, DFin 1)] example_frame)] example_iface () =
    (True, [(the (send_values 1000 [(50, example_bit 0, DFin 1), (70, example_bit 9, DFin 1)] example_frame))\<lparr>cf_send_time := 0\<rparr>],
     iface', (), [send_buf (the (send_values 1000 [(50, example_bit 0, DFin 1), (70, example_bit 9, DFin 1)] example_frame))], l)"
proof -
  let ?s = "send_values 1000 [(50, example_bit 0, DFin 1), (70, example_bit 9, DFin 1)] example_frame"
  have "?s = Some (the ?s)"
    by (simp add: can_send_value_def can_encode_def example_bit_def Let_def)
  moreover have "cf_dir example_frame = DIR_OUT" "cf_send_time example_frame = 0"
    by (simp_all add: example_frame_def)
  ultimately show ?thesis
    using updates_coalesced [of example_frame 50 1000 "example_bit 0" "DFin 1" "[(70, example_bit 9, DFin 1)]"
      "the ?s" "\<lambda>_ e. (True, e)" "()" "()" 1100] by simp
qed

subsection \<open>Received data\<close>

lemma slice_take: "pos + len \<le> n \<Longrightarrow> slice pos len (take n d) = slice pos len d"
  by (simp add: slice_def drop_take min_def)

lemma read_prefix:
  assumes "take n d = take n d'" "pos + len \<le> n" "n \<le> length d" "n \<le> length d'"
  shows "read_value (drop pos d) len = read_value (drop pos d') len"
  using read_slice [of pos len d] read_slice [of pos len d'] slice_take [OF assms(2), of d]
    slice_take [OF assms(2), of d'] assms by simp

lemma decode_prefix:
  assumes "take n d = take n d'" "can_val_end t (int pos) \<le> int n" "n \<le> length d" "n \<le> length d'"
  shows "can_decode t pos d = can_decode t pos d'"
proof (cases "t = CAN_BIT")
  case True
  have "drop_bit 3 (int pos) = int (drop_bit 3 pos)" by (simp add: drop_bit_eq_div zdiv_int)
  then have "drop_bit 3 pos < n" using assms(2) True by simp
  then have "d ! drop_bit 3 pos = d' ! drop_bit 3 pos" using assms(1) by (metis nth_take)
  then show ?thesis using True by simp
next
  case False
  then have "pos + can_len t \<le> n" using assms(2) by (simp add: can_val_end_len)
  from read_prefix [OF assms(1) this assms(3,4)] show ?thesis
    using False by (cases t) simp_all
qed

lemma rx_values_prefix:
  assumes "take n d = take n d'" "n \<le> length d" "n \<le> length d'"
    and "\<forall>val \<in> set vals. can_val_end (cv_type val) (int (cv_pos val)) \<le> int n"
  shows "rx_values i fi vi d vals = rx_values i fi vi d' vals"
  using assms(4) by (induction vals arbitrary: vi) (use decode_prefix [OF assms(1) _ assms(2,3)] in auto)

text \<open>
  Reception never uses a byte that was not received: for a configured input, what is dispatched for
  a frame depends only on its identifier, its length and its first dlc bytes, never on the rest of
  the receive buffer, and a frame that is too short for its values dispatches nothing.
\<close>

theorem rx_uses_received_bytes:
  assumes "can_frame_ok frame" "length d = 8" "length d' = 8" "take dlc d = take dlc d'"
  shows "rx_frame \<lparr>bf_can_id = cid, bf_dlc = dlc, bf_data = d\<rparr> i fi frame =
      rx_frame \<lparr>bf_can_id = cid, bf_dlc = dlc, bf_data = d'\<rparr> i fi frame \<and>
    (dlc < cf_min_dlc frame \<longrightarrow> fst (snd (rx_frame \<lparr>bf_can_id = cid, bf_dlc = dlc, bf_data = d\<rparr> i fi frame)) = [])"
proof -
  have "rx_values i fi 0 d (cf_values frame) = rx_values i fi 0 d' (cf_values frame)" if "cf_min_dlc frame \<le> dlc"
  proof (rule rx_values_prefix)
    show "take (cf_min_dlc frame) d = take (cf_min_dlc frame) d'"
      using assms(4) that by (metis min.absorb1 take_take)
  qed (use assms in \<open>auto simp: can_frame_ok_def can_val_ok_def\<close>)
  then show ?thesis by (simp add: rx_frame_def not_less)
qed

theorem rx_uses_received_bytes_witness:
  "rx_frame \<lparr>bf_can_id = 0x201, bf_dlc = 2, bf_data = [1, 2, 0, 0, 0, 0, 0, 0]\<rparr> 0 0
      (example_frame\<lparr>cf_dir := DIR_IN, cf_min_dlc := 1, cf_values := [example_bit 3]\<rparr>) =
    rx_frame \<lparr>bf_can_id = 0x201, bf_dlc = 2, bf_data = [1, 2, 9, 9, 9, 9, 9, 9]\<rparr> 0 0
      (example_frame\<lparr>cf_dir := DIR_IN, cf_min_dlc := 1, cf_values := [example_bit 3]\<rparr>)"
proof -
  have "can_frame_ok (example_frame\<lparr>cf_dir := DIR_IN, cf_min_dlc := 1, cf_values := [example_bit 3]\<rparr>)"
    by (simp add: can_frame_ok_def can_val_ok_def example_frame_def example_bit_def drop_bit_eq_div)
  then show ?thesis using rx_uses_received_bytes by simp
qed

subsection \<open>State logging\<close>

interpretation can_write_log: edge_logger ci_write_failed iface_write
  by unfold_locales (auto simp: iface_write_def)

text \<open>
  Write failures are logged once: over any sequence of write outcomes, the number of messages is
  the number of changes between failing and working, so that a dead bus does not flood the log.
\<close>

theorem can_failures_logged_once:
  "length (snd (can_write_log.run oks iface)) = count_changes (\<not> ci_write_failed iface) oks"
  by (rule can_write_log.log_once_per_change)

subsection \<open>The timestamp\<close>

lemma timestamp_fields:
  "read_value (bf_data (timestamp_frame m d)) 4 = m"
  "read_value (drop 4 (bf_data (timestamp_frame m d))) 2 = ucast d"
proof -
  have m: "bf_data (timestamp_frame m d) = write_value 4 m @ drop 4 (bf_data (timestamp_frame m d))"
    by (simp add: timestamp_frame_def numeral_eq_Suc)
  show "read_value (bf_data (timestamp_frame m d)) 4 = m"
    using read_write [of 4 m] by (subst m) simp
  have d: "drop 4 (bf_data (timestamp_frame m d)) = write_value 2 (ucast d) @ [0, 0]"
    by (simp add: timestamp_frame_def numeral_eq_Suc) (auto intro!: bit_word_eqI simp: bit_simps)
  have "take_bit 16 (ucast d :: u32) = ucast d"
    by (rule bit_word_eqI) (auto simp: bit_simps dest: bit_imp_le_length)
  then show "read_value (drop 4 (bf_data (timestamp_frame m d))) 2 = ucast d"
    using read_write [of 2 "ucast d"] by (subst d) simp
qed

text \<open>
  A timestamp frame is sent only while the clock is synchronised, and it carries the milliseconds
  since the local midnight (without overflow, on a day of up to 25 hours) and the days since 1984.
\<close>

theorem timestamp_content:
  assumes "send_timestamp clk wr iface e = (r, iface', e', sent, l)" "fr \<in> set sent"
    and "ck_time clk = Some (sec, usec)" "0 \<le> usec" "usec < 1000000"
    and "ck_mktime clk ((ck_localtime clk sec)\<lparr>tm_sec := 0, tm_min := 0, tm_hour := 0\<rparr>) = sec - s" "0 \<le> s" "s < 90000"
    and "ck_mktime clk ((ck_localtime clk sec)\<lparr>tm_mday := 1, tm_mon := 0, tm_year := 84\<rparr>) = sec - days * 86400 - rest"
      "0 \<le> days" "days < 65536" "0 \<le> rest" "rest < 86400"
  shows "ck_synced clk \<and> r = 1 \<and> bf_can_id fr = 0x100 \<and> bf_dlc fr = 6 \<and>
    uint (read_value (bf_data fr) 4) = s * 1000 + usec div 1000 \<and>
    uint (read_value (drop 4 (bf_data fr)) 2) = days"
proof -
  let ?m = "ts_msecs (ck_mktime clk) sec usec (ck_localtime clk sec)"
  let ?d = "ts_days (ck_mktime clk) sec (ck_localtime clk sec)"
  have fr: "fr = timestamp_frame ?m ?d" "ck_synced clk" "r = 1"
    using assms(1-3) by (auto simp: send_timestamp_def Let_def split: if_splits prod.splits)
  have "0 \<le> usec div 1000" "usec div 1000 < 1000" using assms(4,5) by auto
  then have w: "uint (word_of_int (s * 1000 + usec div 1000) :: u32) = s * 1000 + usec div 1000"
    using assms(7,8) uint_field [of "s * 1000 + usec div 1000" 32] by simp
  have "(sec - ck_mktime clk ((ck_localtime clk sec)\<lparr>tm_sec := 0, tm_min := 0, tm_hour := 0\<rparr>)) * 1000 + c_div usec 1000 =
      s * 1000 + usec div 1000"
    using assms(4,6) by simp
  then have m: "uint ?m = s * 1000 + usec div 1000" unfolding ts_msecs_def by (simp only: w)
  have "c_div (days * 86400 + rest) 86400 = days"
    using assms(10,12,13) by simp
  then have "uint ?d = days"
    using assms(9-11) by (simp add: ts_days_def unsigned_of_int take_bit_int_eq_self)
  moreover have "take_bit 32 days = days" using assms(10,11) by (simp add: take_bit_int_eq_self)
  ultimately have "uint (ucast ?d :: u32) = days" by (simp add: unsigned_ucast_eq)
  then show ?thesis
    using fr m by (simp add: timestamp_fields) (simp add: timestamp_frame_def)
qed

definition example_clock :: can_clock where
  "example_clock = \<lparr>ck_synced = True, ck_time = Some (86400 * 15000 + 3661, 5000),
     ck_localtime = (\<lambda>_. \<lparr>tm_sec = 1, tm_min = 1, tm_hour = 1, tm_mday = 26, tm_mon = 0, tm_year = 111, tm_isdst = 0\<rparr>),
     ck_mktime = (\<lambda>t. if tm_year t = 84 then 86400 * 5113 + 3661 else 86400 * 15000)\<rparr>"

theorem timestamp_content_witness:
  "let fr = hd (fst (snd (snd (snd (send_timestamp example_clock (\<lambda>_ e. (True, e)) example_iface ()))))) in
    uint (read_value (bf_data fr) 4) = 3661005 \<and> uint (read_value (drop 4 (bf_data fr)) 2) = 9887"
proof -
  let ?t = "send_timestamp example_clock (\<lambda>_ e. (True, e)) example_iface ()"
  obtain r i e sent l where t: "?t = (r, i, e, sent, l)" by (cases ?t) auto
  have "sent \<noteq> []"
    using t by (auto simp: send_timestamp_def example_clock_def do_write_def Let_def split: prod.splits)
  then have "hd sent \<in> set sent" by simp
  from timestamp_content [OF t this, of "86400 * 15000 + 3661" 5000 3661 9887 0]
  have "uint (read_value (bf_data (hd sent)) 4) = 3661005 \<and> uint (read_value (drop 4 (bf_data (hd sent))) 2) = 9887"
    by (simp add: example_clock_def)
  then show ?thesis by (simp add: t)
qed

end
