(* ===== verification/Sunspec_Clients.thy ===== *)
theory Sunspec_Clients
  imports Sunspec "HOL-Library.Multiset"
begin

text \<open>
  The client slots of a SunSpec server as a transition system over the server and the descriptors that
  are open in the operating system: no descriptor is lost, used twice, or used after it was closed.
\<close>

subsection \<open>Slots\<close>

definition used :: "int list \<Rightarrow> int list" where
  "used fds = filter (\<lambda>fd. 0 \<le> fd) fds"

definition slots_ok :: "server \<times> int set \<Rightarrow> bool" where
  "slots_ok st \<longleftrightarrow> length (se_client_fds (fst st)) = 8 \<and> distinct (used (se_client_fds (fst st))) \<and>
     set (used (se_client_fds (fst st))) = snd st"

lemma used_update_free:
  "i < length fds \<Longrightarrow> fds ! i < 0 \<Longrightarrow> 0 \<le> fd \<Longrightarrow> mset (used (fds[i := fd])) = add_mset fd (mset (used fds))"
  by (induction fds arbitrary: i) (auto simp: used_def nth_Cons split: nat.splits)

lemma used_update_close:
  "i < length fds \<Longrightarrow> 0 \<le> fds ! i \<Longrightarrow> add_mset (fds ! i) (mset (used (fds[i := - 1]))) = mset (used fds)"
  by (induction fds arbitrary: i) (auto simp: used_def nth_Cons split: nat.splits)

lemma free_slot_Some: "free_slot k fds = Some i \<Longrightarrow> k \<le> i \<and> i - k < length fds \<and> fds ! (i - k) < 0"
  by (induction fds arbitrary: k) (fastforce split: if_splits simp: nth_Cons' Suc_diff_Suc)+

lemma free_slot_None: "free_slot k fds = None \<longleftrightarrow> (\<forall>fd \<in> set fds. 0 \<le> fd)"
  by (induction fds arbitrary: k) auto

lemma slots_ok_mset:
  assumes "slots_ok (s, opens)" "mset (used (se_client_fds s')) = add_mset fd (mset (used (se_client_fds s)))" "fd \<notin> opens"
    and "length (se_client_fds s') = length (se_client_fds s)"
  shows "slots_ok (s', insert fd opens)"
proof -
  have "set (used (se_client_fds s')) = insert fd opens"
    using arg_cong [OF assms(2), of set_mset] assms(1) by (simp add: slots_ok_def)
  moreover have "distinct (used (se_client_fds s'))"
  proof -
    have "distinct (fd # used (se_client_fds s))" using assms(1,3) by (simp add: slots_ok_def)
    then show ?thesis using assms(2) mset_eq_imp_distinct_iff by (metis mset.simps(2))
  qed
  ultimately show ?thesis using assms(1,4) by (simp add: slots_ok_def)
qed

lemma slots_ok_remove:
  assumes "slots_ok (s, opens)" "add_mset fd (mset (used (se_client_fds s'))) = mset (used (se_client_fds s))"
    and "length (se_client_fds s') = length (se_client_fds s)"
  shows "slots_ok (s', opens - {fd})"
proof -
  have d: "distinct (fd # used (se_client_fds s'))"
    using assms(1,2) mset_eq_imp_distinct_iff unfolding slots_ok_def by (metis fst_conv mset.simps(2))
  have "insert fd (set (used (se_client_fds s'))) = opens"
    using arg_cong [OF assms(2), of set_mset] assms(1) by (simp add: slots_ok_def)
  then have "set (used (se_client_fds s')) = opens - {fd}" using d by auto
  then show ?thesis using d assms(1,3) by (simp add: slots_ok_def)
qed

subsection \<open>The operations\<close>

lemma close_client_slots:
  assumes "slots_ok (s, opens)" "idx < 8" "close_client idx s = (s', shut)"
  shows "slots_ok (s', opens - set shut)" "set shut \<subseteq> opens" "distinct shut"
proof -
  have l: "idx < length (se_client_fds s)" using assms(1,2) by (simp add: slots_ok_def)
  show "slots_ok (s', opens - set shut)"
  proof (cases "0 \<le> se_client_fds s ! idx")
    case True
    then have "s' = s\<lparr>se_client_fds := (se_client_fds s)[idx := - 1]\<rparr>" "shut = [se_client_fds s ! idx]"
      using assms(3) by (simp_all add: close_client_def)
    then show ?thesis using slots_ok_remove [OF assms(1), of "se_client_fds s ! idx" s'] used_update_close [OF l True] by simp
  next
    case False
    then show ?thesis using assms(1,3) by (simp add: close_client_def)
  qed
  show "set shut \<subseteq> opens" "distinct shut"
    using assms l by (auto simp: close_client_def slots_ok_def used_def split: if_splits)
qed

lemma accept_client_slots:
  assumes "slots_ok (s, opens)" "0 \<le> fd" "fd \<notin> opens" "accept_client fd s = (s', shut, msgs)"
  shows "slots_ok (s', insert fd opens - set shut)" "shut = (if fd \<in> set (se_client_fds s') then [] else [fd])"
    "shut \<noteq> [] \<longleftrightarrow> card opens = 8"
proof -
  let ?fds = "se_client_fds s"
  have l: "length ?fds = 8" "set (used ?fds) = opens" "distinct (used ?fds)" using assms(1) by (simp_all add: slots_ok_def)
  have c: "card opens = length (used ?fds)" using l(2,3) distinct_card by fastforce
  have "slots_ok (s', insert fd opens - set shut) \<and> shut = (if fd \<in> set (se_client_fds s') then [] else [fd]) \<and>
    (shut \<noteq> [] \<longleftrightarrow> card opens = 8)"
  proof (cases "free_slot 0 ?fds")
    case None
    then have all: "\<forall>fd \<in> set ?fds. 0 \<le> fd" using free_slot_None [of 0 ?fds] by simp
    then have "used ?fds = ?fds" by (simp add: used_def filter_id_conv)
    moreover have "shut = [fd]" "se_client_fds s' = ?fds" using assms(2,4) None by (auto simp: accept_client_def Let_def)
    ultimately show ?thesis using assms(1,3) l c by (simp add: slots_ok_def)
  next
    case (Some i)
    then have i: "i < length ?fds" "?fds ! i < 0" using free_slot_Some [OF Some] by simp_all
    have out: "shut = []" "se_client_fds s' = ?fds[i := fd]" using assms(2,4) Some by (auto simp: accept_client_def Let_def)
    have "slots_ok (s', insert fd opens)"
      by (rule slots_ok_mset [OF assms(1) _ assms(3)]) (simp_all add: out(2) used_update_free [OF i assms(2)])
    moreover have "length (used ?fds) < length ?fds" unfolding used_def by (rule length_filter_less [of "?fds ! i"]) (use i in auto)
    ultimately show ?thesis using out i c l by (simp add: set_update_memI)
  qed
  then show "slots_ok (s', insert fd opens - set shut)" "shut = (if fd \<in> set (se_client_fds s') then [] else [fd])"
    "shut \<noteq> [] \<longleftrightarrow> card opens = 8" by blast+
qed

lemma handle_client_slots:
  assumes "slots_ok (s, opens)" "idx < 8" "handle_client libm get sent idx rcv s = (s', reply, shut, msgs)"
  shows "slots_ok (s', opens - set shut)" "set shut \<subseteq> opens" "distinct shut"
proof -
  have same: "slots_ok (s\<lparr>se_meters := ms\<rparr>, opens)" for ms using assms(1) by (simp add: slots_ok_def)
  have nothing: "slots_ok (t, opens) \<Longrightarrow> slots_ok (t, opens - set [])" for t by simp
  have "\<exists>t. slots_ok (t, opens) \<and> (s' = t \<and> shut = [] \<or> close_client idx t = (s', shut))"
  proof (cases rcv)
    case (Recv_request hdr_len req)
    show ?thesis
    proof (cases "find_meter (se_meters s) (uint (req ! (hdr_len - 1)))")
      case (Some mi)
      define t where "t = (if req ! hdr_len \<noteq> MODBUS_FC_READ_HOLDING_REGISTERS then s
        else s\<lparr>se_meters := (se_meters s)[mi := fst (snd (update_image libm get (se_meters s ! mi)))]\<rparr>)"
      have "slots_ok (t, opens)" using same assms(1) by (simp add: t_def)
      moreover have "(s', shut) = (if sent then (t, []) else close_client idx t)"
        using assms(3) Recv_request Some by (auto simp: handle_client_def t_def case_prod_beta Let_def split: if_splits)
      ultimately show ?thesis by (metis prod.inject)
    qed (use assms(1,3) Recv_request in \<open>auto simp: handle_client_def\<close>)
  next
    case Recv_failed
    then have "close_client idx s = (s', shut)" using assms(3) by (simp add: handle_client_def case_prod_beta) (metis prod.collapse)
    then show ?thesis using assms(1) by blast
  qed (use assms(1,3) in \<open>auto simp: handle_client_def\<close>)
  then obtain t where t: "slots_ok (t, opens)" "s' = t \<and> shut = [] \<or> close_client idx t = (s', shut)" by blast
  have "slots_ok (s', opens - set shut) \<and> set shut \<subseteq> opens \<and> distinct shut"
    using t(2)
  proof
    assume "close_client idx t = (s', shut)"
    then show ?thesis using close_client_slots [OF t(1) assms(2)] by blast
  qed (use t(1) in simp)
  then show "slots_ok (s', opens - set shut)" "set shut \<subseteq> opens" "distinct shut" by blast+
qed

lemma close_clients_slots:
  assumes "close_clients is s = (s', shut)" "slots_ok (s, opens)" "set is \<subseteq> {..<8}"
  shows "slots_ok (s', opens - set shut) \<and> set shut \<subseteq> opens \<and> distinct shut \<and> (\<forall>i \<in> set is. se_client_fds s' ! i < 0) \<and>
    (\<forall>i < 8. se_client_fds s ! i < 0 \<longrightarrow> se_client_fds s' ! i < 0)"
  using assms
proof (induction "is" arbitrary: s opens s' shut)
  case (Cons i "is")
  obtain s1 shut1 where a: "close_client i s = (s1, shut1)" by force
  obtain s2 shut2 where b: "close_clients is s1 = (s2, shut2)" by force
  have o: "s' = s2" "shut = shut1 @ shut2" using Cons.prems(1) a b by simp_all
  have i: "i < 8" using Cons.prems(3) by simp
  note c = close_client_slots [OF Cons.prems(2) i a]
  have d: "slots_ok (s2, opens - set shut1 - set shut2) \<and> set shut2 \<subseteq> opens - set shut1 \<and> distinct shut2 \<and>
      (\<forall>i \<in> set is. se_client_fds s2 ! i < 0) \<and> (\<forall>i < 8. se_client_fds s1 ! i < 0 \<longrightarrow> se_client_fds s2 ! i < 0)"
    using Cons.IH [OF b c(1)] Cons.prems(3) by simp
  have "length (se_client_fds s) = 8" using Cons.prems(2) by (simp add: slots_ok_def)
  then have e: "se_client_fds s1 ! i < 0" "\<forall>j < 8. se_client_fds s ! j < 0 \<longrightarrow> se_client_fds s1 ! j < 0"
    using a i by (auto simp: close_client_def nth_list_update split: if_splits)
  have "opens - set shut1 - set shut2 = opens - set shut" using o(2) by auto
  then show ?case using c d e i o by auto
qed simp

lemma all_closed:
  assumes "slots_ok (s, opens)" "close_clients [0..<SUNSPEC_MAX_CLIENTS] s = (t, gone)"
  shows "set gone = opens" "distinct gone" "used (se_client_fds t) = []" "length (se_client_fds t) = 8"
proof -
  have r: "slots_ok (t, opens - set gone)" "set gone \<subseteq> opens" "distinct gone" "\<forall>i < 8. se_client_fds t ! i < 0"
    using close_clients_slots [OF assms(2,1)] by (simp_all add: SUNSPEC_MAX_CLIENTS_def atLeast0LessThan)
  have "\<forall>fd \<in> set (se_client_fds t). fd < 0" using r(1,4) by (auto simp: slots_ok_def in_set_conv_nth)
  then show u: "used (se_client_fds t) = []" by (auto simp: used_def filter_empty_conv)
  show "set gone = opens" using u r(1,2) by (auto simp: slots_ok_def)
  show "distinct gone" "length (se_client_fds t) = 8" using r(1,3) by (simp_all add: slots_ok_def)
qed

subsection \<open>What a server holds\<close>

definition clients_distinct :: "server \<Rightarrow> bool" where
  "clients_distinct server \<longleftrightarrow> slots_ok (server, set (used (se_client_fds server)))"

definition server_owns :: "server \<Rightarrow> sun_res set" where
  "server_owns server = Sun_client ` set (used (se_client_fds server)) \<union>
     (if se_thread_running server then {Sun_thread} else {}) \<union>
     (if 0 \<le> se_listen_fd server then {Sun_listen} else {}) \<union> (if se_ctx server then {Sun_ctx} else {})"

text \<open>
  A thread starts on the listening socket and the context; while it runs it also uses the connections,
  which it accepts and closes itself, so that nobody else may close one before it has ended.
\<close>

fun sun_needs :: "sun_res \<Rightarrow> sun_res set" where
  "sun_needs Sun_ctx = {}"
| "sun_needs Sun_listen = {Sun_ctx}"
| "sun_needs Sun_thread = {Sun_ctx, Sun_listen}"
| "sun_needs (Sun_client fd) = {}"

fun sun_uses :: "sun_res \<Rightarrow> sun_res set" where
  "sun_uses Sun_ctx = {}"
| "sun_uses Sun_listen = {Sun_ctx}"
| "sun_uses Sun_thread = {Sun_ctx, Sun_listen} \<union> range Sun_client"
| "sun_uses (Sun_client fd) = {}"

lemma server_startup_ok:
  assumes "clients_distinct s" "server_owns s = {}" "server_startup env s = (ok, s', evs)"
  shows "ledger sun_needs sun_uses {} evs = Some (server_owns s') \<and> clients_distinct s' \<and> (\<not> ok \<longrightarrow> server_owns s' = {})"
  using assms by (auto simp: server_startup_def server_owns_def clients_distinct_def slots_ok_def split: if_split_asm)

lemma close_clients_rest:
  "close_clients is s = (t, gone) \<Longrightarrow>
    se_thread_running t = se_thread_running s \<and> se_listen_fd t = se_listen_fd s \<and> se_ctx t = se_ctx s"
  by (induction "is" arbitrary: s t gone) (fastforce simp: close_client_def split: prod.splits if_splits)+

lemma server_shutdown_ok:
  assumes "clients_distinct s" "server_shutdown s = (s', evs)"
  shows "ledger sun_needs sun_uses (server_owns s) evs = Some {} \<and> clients_distinct s' \<and> server_owns s' = {}"
proof -
  let ?s = "s\<lparr>se_thread_running := False\<rparr>"
  obtain t gone where c: "close_clients [0..<SUNSPEC_MAX_CLIENTS] ?s = (t, gone)" by force
  have "slots_ok (?s, set (used (se_client_fds s)))" using assms(1) by (simp add: clients_distinct_def slots_ok_def)
  note g = all_closed [OF this c] and r = close_clients_rest [OF c]
  let ?rest = "(if 0 \<le> se_listen_fd s then {Sun_listen} else {}) \<union> (if se_ctx s then {Sun_ctx} else {})"
  have "ledger sun_needs sun_uses (Sun_client ` set gone \<union> ?rest) (map Release (map Sun_client gone)) =
      Some (Sun_client ` set gone \<union> ?rest - set (map Sun_client gone))"
    using g(2) by (intro ledger_releases) (auto simp: distinct_map inj_on_def)
  moreover have "Sun_client ` set gone \<union> ?rest - set (map Sun_client gone) = ?rest" by auto
  ultimately have l: "ledger sun_needs sun_uses (Sun_client ` set gone \<union> ?rest) (map (Release \<circ> Sun_client) gone) = Some ?rest"
    by simp
  have rest: "ledger sun_needs sun_uses ?rest
      ((if 0 \<le> se_listen_fd s then [Release Sun_listen] else []) @ (if se_ctx s then [Release Sun_ctx] else [])) = Some {}"
    by auto
  have "ledger sun_needs sun_uses (server_owns s) (if se_thread_running s then [Release Sun_thread] else []) =
      Some (Sun_client ` set gone \<union> ?rest)"
    using g(1) by (auto simp: server_owns_def)
  from ledger_appendI [OF this ledger_appendI [OF l rest]] show ?thesis
    using assms(2) c g(3,4) r by (auto simp: server_shutdown_def clients_distinct_def slots_ok_def server_owns_def split: if_splits)
qed

interpretation sun_unit: startable server_startup server_shutdown server_owns sun_needs sun_uses clients_distinct
  by unfold_locales (rule server_startup_ok server_shutdown_ok; assumption)+

subsection \<open>Histories of a server\<close>

text \<open>
  The states a running server reaches: \<open>accept\<close> gives a descriptor that is not open, or fails; a client is
  handled with whatever it sends.
\<close>

inductive server_step :: "server \<times> int set \<Rightarrow> server \<times> int set \<Rightarrow> bool" where
  accepted: "0 \<le> fd \<Longrightarrow> fd \<notin> opens \<Longrightarrow> accept_client fd s = (s', shut, msgs) \<Longrightarrow>
    server_step (s, opens) (s', insert fd opens - set shut)"
| not_accepted: "fd < 0 \<Longrightarrow> accept_client fd s = (s', shut, msgs) \<Longrightarrow> server_step (s, opens) (s', opens - set shut)"
| handled: "idx < 8 \<Longrightarrow> 0 \<le> se_client_fds s ! idx \<Longrightarrow>
    handle_client libm get sent idx rcv s = (s', reply, shut, msgs) \<Longrightarrow> server_step (s, opens) (s', opens - set shut)"

inductive server_reach :: "server \<Rightarrow> server \<times> int set \<Rightarrow> bool" for s0 where
  started: "server_reach s0 (s0, {})"
| step: "server_reach s0 st \<Longrightarrow> server_step st st' \<Longrightarrow> server_reach s0 st'"

inductive_cases server_stepE: "server_step (s, opens) st'"

lemma server_step_slots:
  assumes "slots_ok (s, opens)" "server_step (s, opens) st'"
  shows "slots_ok st'"
  using assms(2)
proof (rule server_stepE)
  fix fd s' shut msgs
  assume "st' = (s', insert fd opens - set shut)" "0 \<le> fd" "fd \<notin> opens" "accept_client fd s = (s', shut, msgs)"
  then show ?thesis using accept_client_slots(1) [OF assms(1)] by blast
next
  fix fd s' shut msgs
  assume "st' = (s', opens - set shut)" "fd < 0" "accept_client fd s = (s', shut, msgs)"
  then show ?thesis using assms(1) by (auto simp: accept_client_def slots_ok_def)
next
  fix idx libm get sent rcv s' reply shut msgs
  assume "st' = (s', opens - set shut)" "idx < 8" "0 \<le> se_client_fds s ! idx"
    "handle_client libm get sent idx rcv s = (s', reply, shut, msgs)"
  then show ?thesis using handle_client_slots(1) [OF assms(1)] by blast
qed

lemma server_reach_slots:
  assumes "server_configure cfg si ds = Inr (c0, ds')" "server_startup env c0 = (True, s0, evs0)" "server_reach s0 st"
  shows "slots_ok st"
  using assms(3)
proof (induction rule: server_reach.induct)
  case started
  have "se_client_fds s0 = replicate 8 (- 1)"
    using assms(1,2) by (auto simp: server_startup_def server_configure_def SUNSPEC_MAX_CLIENTS_def split: if_splits sum.splits option.splits prod.splits)
  then show ?case by (simp add: slots_ok_def used_def)
next
  case (step st st')
  then show ?case using server_step_slots by (cases st) blast
qed

text \<open>
  C38. In every state a server reaches once it is started, each open client descriptor is in exactly
  one of the 8 slots and no closed descriptor is in any: no connection is leaked or served twice. A
  connection is turned away only when all 8 slots are in use. Shutdown joins the thread before it closes
  anything the thread uses (its connections, the listening socket, the context), closes each connection
  exactly once, frees the context after the listening socket, and leaves nothing open.
\<close>

theorem client_slots_sound:
  assumes "server_configure cfg si ds = Inr (c0, ds')" "server_startup env c0 = (True, s0, evs0)"
    and "server_reach s0 (s, opens)" "accept_client fd s = (s', shut, msgs)" "0 \<le> fd" "fd \<notin> opens"
  shows "length (se_client_fds s) = 8 \<and> distinct (used (se_client_fds s)) \<and> set (used (se_client_fds s)) = opens \<and>
    (shut \<noteq> [] \<longleftrightarrow> card opens = 8) \<and>
    (let (t, evs) = server_shutdown s in ledger sun_needs sun_uses (server_owns s) evs = Some {} \<and> server_owns t = {})"
proof -
  have ok: "slots_ok (s, opens)" by (rule server_reach_slots [OF assms(1-3)])
  then have d: "clients_distinct s" by (auto simp: slots_ok_def clients_distinct_def)
  obtain t evs where t: "server_shutdown s = (t, evs)" by force
  show ?thesis
    using ok t server_shutdown_ok [OF d t] accept_client_slots(3) [OF ok assms(5,6,4)] by (simp add: slots_ok_def)
qed

definition example_server_cfg :: server_cfg where
  "example_server_cfg = sunspec_server_opts"

theorem client_slots_sound_witness:
  "\<exists>c0 s0 evs0 s. server_configure example_server_cfg 0 [] = Inr (c0, []) \<and>
    server_startup \<lparr>ss_new_ok = True, ss_listen = 5, ss_created = True\<rparr> c0 = (True, s0, evs0) \<and>
    server_reach s0 (s, {7}) \<and> set (used (se_client_fds s)) = {7}"
proof -
  let ?env = "\<lparr>ss_new_ok = True, ss_listen = 5, ss_created = True\<rparr>"
  have "case server_configure example_server_cfg 0 [] of Inr (c, ds) \<Rightarrow> ds = [] | Inl e \<Rightarrow> False" by code_simp
  then obtain c0 where c: "server_configure example_server_cfg 0 [] = Inr (c0, [])" by (auto split: sum.splits)
  obtain s0 evs0 where u: "server_startup ?env c0 = (True, s0, evs0)" by (simp add: server_startup_def)
  obtain s1 shut1 msgs1 where a: "accept_client 7 s0 = (s1, shut1, msgs1)" by (metis prod_cases3)
  obtain s2 shut2 msgs2 where b: "accept_client 8 s1 = (s2, shut2, msgs2)" by (metis prod_cases3)
  have none: "shut1 = []"
    using client_slots_sound [OF c u started a] by simp
  have "server_reach s0 (s1, {7})"
    using server_reach.step [OF started server_step.accepted [OF _ _ a]] none by simp
  then show ?thesis using client_slots_sound [OF c u _ b, of "{7}"] c u by auto
qed

end
