(* ===== verification/Links.thy ===== *)
theory Links
  imports Can Modbus Sunspec_Clients
begin

text \<open>
  Startup and shutdown of the links to the outside that keep threads of their own on descriptors: CAN
  interfaces, MODBUS masters and SunSpec servers. The contract \<open>startable\<close> of each of them, on what
  their configuration leaves behind.
\<close>

subsection \<open>After the configuration\<close>

lemma can_configured_down: "can_configure cfgs ds = Inr (ifaces, ds') \<Longrightarrow> can_unit.down ifaces"
  unfolding can_configure_def can_unit.down_def
  by (erule config_childs_all)
    (auto simp: can_iface_configure_def Let_def iface_owns_def split: if_split_asm sum.splits option.splits prod.splits)

lemma mb_masters_down: "config_childs (mb_master_configure tcp) i cfgs ds = Inr (masters, ds') \<Longrightarrow> mb_unit.down masters"
  unfolding mb_unit.down_def
  by (erule config_childs_all)
    (auto simp: mb_master_configure_def Let_def master_owns_def split: if_split_asm sum.splits option.splits prod.splits)

lemma mb_configured_down:
  assumes "mb_configure rtu tcp ds = Inr (rtus, tcps, ds')"
  shows "mb_unit.down (rtus @ tcps)"
proof -
  obtain ds1 where "config_childs (mb_master_configure False) 0 rtu ds = Inr (rtus, ds1)"
    "config_childs (mb_master_configure True) 0 tcp ds1 = Inr (tcps, ds')"
    using assms by (auto simp: mb_configure_def split: sum.splits)
  then show ?thesis using mb_masters_down unfolding mb_unit.down_def by fastforce
qed

lemma sunspec_configured_down: "sunspec_configure cfgs ds = Inr (servers, ds') \<Longrightarrow> sun_unit.down servers"
  unfolding sunspec_configure_def sun_unit.down_def
  by (erule config_childs_all)
    (auto simp: server_configure_def Let_def server_owns_def clients_distinct_def slots_ok_def used_def SUNSPEC_MAX_CLIENTS_def
      split: if_split_asm sum.splits option.splits prod.splits)


subsection \<open>Watched descriptors\<close>

lemma update_fds_bound: "\<forall>fd \<in> fst w. fd \<le> snd w \<Longrightarrow> \<forall>fd \<in> fst (utl_update_fds n w). fd \<le> snd (utl_update_fds n w)"
  by (fastforce simp: utl_update_fds_def split: prod.splits)

lemma update_fds_set: "fst (utl_update_fds n w) = insert n (fst w)"
  by (simp add: utl_update_fds_def split: prod.splits)

text \<open>The descriptors the loop of \<open>main\<close> waits for.\<close>

definition main_fds :: "int \<Rightarrow> can_iface list \<Rightarrow> int set \<times> int" where
  "main_fds exit_fd ifaces = can_update_fds ifaces (utl_update_fds exit_fd ({}, 0))"

text \<open>\<open>select\<close> is told of every open descriptor, and its first argument is above all of them.\<close>

lemma can_update_fds_watches:
  "\<forall>fd \<in> fst w. fd \<le> snd w \<Longrightarrow>
    fst (can_update_fds ifaces w) = fst w \<union> {fd \<in> ci_fd ` set ifaces. 0 \<le> fd} \<and>
    (\<forall>fd \<in> fst (can_update_fds ifaces w). fd \<le> snd (can_update_fds ifaces w))"
proof (induction ifaces arbitrary: w)
  case (Cons iface ifaces)
  define w1 where "w1 = (if 0 \<le> ci_fd iface then utl_update_fds (ci_fd iface) else id) w"
  have "can_update_fds (iface # ifaces) w = can_update_fds ifaces w1" by (simp add: can_update_fds_def w1_def)
  moreover have "\<forall>fd \<in> fst w1. fd \<le> snd w1" using update_fds_bound [OF Cons.prems] Cons.prems by (simp add: w1_def)
  moreover have "fst w1 = fst w \<union> {fd. fd = ci_fd iface \<and> 0 \<le> fd}" by (auto simp: w1_def update_fds_set)
  ultimately show ?case using Cons.IH [of w1] by auto
qed (simp add: can_update_fds_def)

lemma main_fds_watches:
  "fst (main_fds exit_fd ifaces) = insert exit_fd {fd \<in> ci_fd ` set ifaces. 0 \<le> fd} \<and>
    (\<forall>fd \<in> fst (main_fds exit_fd ifaces). fd \<le> snd (main_fds exit_fd ifaces))"
  using can_update_fds_watches [OF update_fds_bound [of "({}, 0)" exit_fd]] by (simp add: main_fds_def update_fds_set)

lemma server_fds_watches:
  "0 \<le> se_listen_fd server \<Longrightarrow>
    fst (server_fds server) = insert (se_listen_fd server) (set (used (se_client_fds server))) \<and>
    (\<forall>fd \<in> fst (server_fds server). fd \<le> snd (server_fds server))"
proof -
  have "fst (fold (\<lambda>fd. if 0 \<le> fd then utl_update_fds fd else id) fds w) = fst w \<union> set (used fds) \<and>
      (\<forall>fd \<in> fst (fold (\<lambda>fd. if 0 \<le> fd then utl_update_fds fd else id) fds w).
        fd \<le> snd (fold (\<lambda>fd. if 0 \<le> fd then utl_update_fds fd else id) fds w))"
    if "\<forall>fd \<in> fst w. fd \<le> snd w" for fds w
    using that
  proof (induction fds arbitrary: w)
    case (Cons fd fds)
    then show ?case using update_fds_bound [OF Cons.prems] Cons.IH [of "utl_update_fds fd w"]
      by (auto simp: used_def update_fds_set)
  qed (simp add: used_def)
  from this [OF update_fds_bound [of "({}, 0)"]] show ?thesis
    unfolding server_fds_def by (simp add: update_fds_set)
qed

subsection \<open>All or nothing\<close>

text \<open>
  C16. The links are up or down, never in between: whichever call of whichever unit fails, a failed startup
  gives back everything it took, so that nothing is open or running; a startup takes each resource once,
  and a thread only when its socket or context is there. Shutdown, whatever happened in between, joins
  each thread before it closes what the thread uses, releases nothing twice and leaves nothing behind.
\<close>

theorem links_lifecycle:
  assumes "can_configure ccfg ds0 = Inr (ifaces, ds1)" "can_startup cenv ifaces = (cok, ifaces1, cevs)"
    and "mb_configure rcfg tcfg ds1 = Inr (rtus, tcps, ds2)" "mb_startup menv (rtus @ tcps) = (mok, masters1, mevs)"
    and "sunspec_configure scfg ds2 = Inr (servers, ds3)" "sunspec_startup senv servers = (sok, servers1, sevs)"
    and "\<forall>server \<in> set servers2. clients_distinct server"
  shows "ledger (unit_needs can_needs) (unit_needs can_needs) {} cevs = Some (owned iface_owns 0 ifaces1) \<and>
    (\<not> cok \<longrightarrow> owned iface_owns 0 ifaces1 = {}) \<and>
    ledger (unit_needs can_needs) (unit_needs can_needs) (owned iface_owns 0 ifaces2) (snd (can_shutdown ifaces2)) = Some {} \<and>
    ledger (unit_needs mb_needs) (unit_needs mb_needs) {} mevs = Some (owned master_owns 0 masters1) \<and>
    (\<not> mok \<longrightarrow> owned master_owns 0 masters1 = {}) \<and>
    ledger (unit_needs mb_needs) (unit_needs mb_needs) (owned master_owns 0 masters2) (snd (mb_shutdown masters2)) = Some {} \<and>
    ledger (unit_needs sun_needs) (unit_needs sun_uses) {} sevs = Some (owned server_owns 0 servers1) \<and>
    (\<not> sok \<longrightarrow> owned server_owns 0 servers1 = {}) \<and>
    ledger (unit_needs sun_needs) (unit_needs sun_uses) (owned server_owns 0 servers2) (snd (sunspec_shutdown servers2)) = Some {}"
proof -
  note c = can_unit.startup_all_ok [OF assms(2) [unfolded can_startup_def] can_configured_down [OF assms(1)]]
    and m = mb_unit.startup_all_ok [OF assms(4) [unfolded mb_startup_def] mb_configured_down [OF assms(3)]]
    and s = sun_unit.startup_all_ok [OF assms(6) [unfolded sunspec_startup_def] sunspec_configured_down [OF assms(5)]]
  have "ledger (unit_needs can_needs) (unit_needs can_needs) (owned iface_owns 0 ifaces2) (snd (can_shutdown ifaces2)) = Some {}"
    using can_unit.stop_units_ok [of 0 ifaces2] unfolding can_shutdown_def by (metis prod.collapse)
  moreover have "ledger (unit_needs mb_needs) (unit_needs mb_needs) (owned master_owns 0 masters2) (snd (mb_shutdown masters2)) = Some {}"
    using mb_unit.stop_units_ok [of 0 masters2] unfolding mb_shutdown_def by (metis prod.collapse)
  moreover have "ledger (unit_needs sun_needs) (unit_needs sun_uses) (owned server_owns 0 servers2) (snd (sunspec_shutdown servers2)) = Some {}"
    using sun_unit.stop_units_ok [of 0 servers2] assms(7) unfolding sunspec_shutdown_def by (metis prod.collapse)
  ultimately show ?thesis
    using c m s can_unit.down_owned mb_unit.down_owned sun_unit.down_owned by blast
qed

text \<open>
  Two interfaces, the second of which cannot be bound; a master with a slave, which comes up; a server whose
  thread cannot be created.
\<close>

definition example_links_can :: "can_iface_cfg list" where
  "example_links_can = [can_opts\<lparr>cic_interface := Some ''can0''\<rparr>, can_opts\<lparr>cic_interface := Some ''can1''\<rparr>]"

definition example_links_mb :: "mb_master_cfg list" where
  "example_links_mb = [mb_tcp_opts\<lparr>mmc_name := Some ''10.0.0.1'', mmc_slaves := [mb_slave_opts\<lparr>msc_id := 1, msc_interval := 1000\<rparr>]\<rparr>]"

definition example_can_start :: "nat \<Rightarrow> can_start" where
  "example_can_start i = \<lparr>cs_socket = 3 + int i, cs_index_ok = True, cs_bind_ok = (i = 0), cs_created = True\<rparr>"

definition example_mb_start :: "nat \<Rightarrow> mb_start" where
  "example_mb_start i = \<lparr>ms_new_rtu = \<lambda>_ _. True, ms_new_tcp = \<lambda>_ _. True, ms_set_response_timeout = \<lambda>s us. s = 0 \<and> us = 250000,
     ms_created = True\<rparr>"

definition example_sun_start :: "nat \<Rightarrow> sun_start" where
  "example_sun_start i = \<lparr>ss_new_ok = True, ss_listen = 5, ss_created = False\<rparr>"

theorem links_lifecycle_witness:
  "let ifaces = fst (projr (can_configure example_links_can []));
       masters = fst (snd (projr (mb_configure [] example_links_mb [])));
       servers = fst (projr (sunspec_configure [sunspec_server_opts] []));
       (cok, ifaces1, cevs) = can_startup example_can_start ifaces;
       (mok, masters1, mevs) = mb_startup example_mb_start masters;
       (sok, servers1, sevs) = sunspec_startup example_sun_start servers
   in \<not> cok \<and> cevs = [Acquire (0, Can_socket), Acquire (0, Can_thread), Acquire (1, Can_socket), Release (1, Can_socket),
                     Release (0, Can_thread), Release (0, Can_socket)] \<and>
      mok \<and> mevs = [Acquire (0, Mb_ctx), Acquire (0, Mb_thread)] \<and>
      \<not> sok \<and> sevs = [Acquire (0, Sun_ctx), Acquire (0, Sun_listen), Release (0, Sun_listen), Release (0, Sun_ctx)] \<and>
      ledger (unit_needs can_needs) (unit_needs can_needs) {} cevs = Some {} \<and>
      ledger (unit_needs mb_needs) (unit_needs mb_needs) {} mevs = Some (owned master_owns 0 masters1) \<and>
      ledger (unit_needs sun_needs) (unit_needs sun_uses) {} sevs = Some {}"
proof -
  have "case can_configure example_links_can [] of Inr (x, ds) \<Rightarrow> ds = [] | Inl e \<Rightarrow> False" by code_simp
  then obtain ifaces where c: "can_configure example_links_can [] = Inr (ifaces, [])" by (auto split: sum.splits)
  have "case mb_configure [] example_links_mb [] of Inr (r, t, ds) \<Rightarrow> r = [] \<and> ds = [] | Inl e \<Rightarrow> False" by code_simp
  then obtain masters where m: "mb_configure [] example_links_mb [] = Inr ([], masters, [])" by (auto split: sum.splits)
  have "case sunspec_configure [sunspec_server_opts] [] of Inr (x, ds) \<Rightarrow> ds = [] | Inl e \<Rightarrow> False" by code_simp
  then obtain servers where s: "sunspec_configure [sunspec_server_opts] [] = Inr (servers, [])" by (auto split: sum.splits)
  obtain cok ifaces1 cevs where c1: "can_startup example_can_start ifaces = (cok, ifaces1, cevs)" by (metis prod_cases3)
  obtain mok masters1 mevs where m1: "mb_startup example_mb_start masters = (mok, masters1, mevs)" by (metis prod_cases3)
  obtain sok servers1 sevs where s1: "sunspec_startup example_sun_start servers = (sok, servers1, sevs)" by (metis prod_cases3)
  have "case can_startup example_can_start (fst (projr (can_configure example_links_can []))) of (ok, x, evs) \<Rightarrow>
      \<not> ok \<and> evs = [Acquire (0, Can_socket), Acquire (0, Can_thread), Acquire (1, Can_socket), Release (1, Can_socket),
        Release (0, Can_thread), Release (0, Can_socket)]" by code_simp
  then have ce: "\<not> cok" "cevs = [Acquire (0, Can_socket), Acquire (0, Can_thread), Acquire (1, Can_socket), Release (1, Can_socket),
      Release (0, Can_thread), Release (0, Can_socket)]" using c c1 by simp_all
  have "case mb_startup example_mb_start (fst (snd (projr (mb_configure [] example_links_mb [])))) of (ok, x, evs) \<Rightarrow>
      ok \<and> evs = [Acquire (0, Mb_ctx), Acquire (0, Mb_thread)]" by code_simp
  then have me: "mok" "mevs = [Acquire (0, Mb_ctx), Acquire (0, Mb_thread)]" using m m1 by simp_all
  have "case sunspec_startup example_sun_start (fst (projr (sunspec_configure [sunspec_server_opts] []))) of (ok, x, evs) \<Rightarrow>
      \<not> ok \<and> evs = [Acquire (0, Sun_ctx), Acquire (0, Sun_listen), Release (0, Sun_listen), Release (0, Sun_ctx)]" by code_simp
  then have se: "\<not> sok" "sevs = [Acquire (0, Sun_ctx), Acquire (0, Sun_listen), Release (0, Sun_listen), Release (0, Sun_ctx)]"
    using s s1 by simp_all
  have "mb_startup example_mb_start ([] @ masters) = (mok, masters1, mevs)" using m1 by simp
  from links_lifecycle [OF c c1 m this s s1, of "[]"]
  have "ledger (unit_needs can_needs) (unit_needs can_needs) {} cevs = Some {}" "ledger (unit_needs mb_needs) (unit_needs mb_needs) {} mevs = Some (owned master_owns 0 masters1)"
    "ledger (unit_needs sun_needs) (unit_needs sun_uses) {} sevs = Some {}" using ce(1) se(1) by auto
  then show ?thesis using c m s c1 m1 s1 ce me se by simp
qed

end
