(* ===== verification/Slots.thy ===== *)
theory Slots
  imports Dispatch
begin

text \<open>
  The callback slots of the dispatchers: configuration reserves one slot for each output, registration
  fills them. The contract of a module (\<open>conf_module\<close>) is that its configuration reserves exactly as many
  slots of each dispatcher as it has outputs there; what follows for registration is proved once.
\<close>

subsection \<open>Reserved slots\<close>

definition slots :: "dnode list \<Rightarrow> nat \<Rightarrow> nat" where
  "slots ds d = (if d < length ds then dp_value_count (ds ! d) else 0)"

lemma slots_Nil [simp]: "slots [] d = 0"
  by (simp add: slots_def)

text \<open>From \<open>ds\<close> to \<open>ds'\<close>, slots for the outputs \<open>outs\<close> (given by their dispatchers) are added.\<close>

definition adds :: "dnode list \<Rightarrow> nat list \<Rightarrow> dnode list \<Rightarrow> bool" where
  "adds ds outs ds' \<longleftrightarrow> length ds \<le> length ds' \<and> (\<forall>d. slots ds' d = slots ds d + count_list outs d) \<and>
     (\<forall>d \<in> set outs. d < length ds')"

lemma adds_refl [simp]: "adds ds [] ds"
  by (simp add: adds_def)

lemma adds_trans: "adds ds a ds1 \<Longrightarrow> adds ds1 b ds2 \<Longrightarrow> adds ds (a @ b) ds2"
  by (force simp: adds_def)

lemma adds_get:
  assumes "uvrgw_conf_get_dispatcher name a ds = (ds1, d)"
  shows "adds ds (if a then [d] else []) ds1"
proof (cases "find_disp name ds")
  case None
  then have "ds1 = ds @ [count_cb a (new_dnode name)]" "d = length ds"
    using assms by (simp_all add: uvrgw_conf_get_dispatcher_def)
  then show ?thesis by (auto simp: adds_def slots_def nth_append count_cb_def new_dnode_def)
next
  case (Some i)
  then have "ds1 = ds[i := count_cb a (ds ! i)]" "d = i" "i < length ds"
    using assms find_disp_Some [OF Some] Some by (auto simp: uvrgw_conf_get_dispatcher_def)
  then show ?thesis by (auto simp: adds_def slots_def nth_list_update count_cb_def)
qed

lemma adds_update: "dp_value_count dp = dp_value_count (ds ! d) \<Longrightarrow> adds ds [] (ds[d := dp])"
  by (simp add: adds_def slots_def) (metis nth_list_update_eq nth_list_update_neq)

lemma set_producer_count: "uvrgw_conf_set_producer m i v inp iv st dp = Inr dp' \<Longrightarrow> dp_value_count dp' = dp_value_count dp"
  by (auto simp: conf_simps split: if_splits)

lemma need_timeout_count [simp]: "dp_value_count (uvrgw_conf_need_timeout m i dp) = dp_value_count dp"
  by (simp add: conf_simps)

text \<open>Looking up an own name and registering as its producer reserves nothing.\<close>

lemma adds_produce:
  assumes "uvrgw_conf_get_dispatcher name a ds = (ds1, d)" "uvrgw_conf_set_producer m i v inp iv st (ds1 ! d) = Inr dp"
  shows "adds ds (if a then [d] else []) (ds1[d := dp])"
  using adds_trans [OF adds_get [OF assms(1)] adds_update [OF set_producer_count [OF assms(2)]]] by simp

lemma config_childs_adds:
  assumes "config_childs cccb i cs d = Inr (xs, d')"
    and "\<And>c j d x d'. cccb c j d = Inr (x, d') \<Longrightarrow> adds (\<pi> d) (outs x) (\<pi> d')"
  shows "adds (\<pi> d) (concat (map outs xs)) (\<pi> d')"
  using assms(1)
proof (induction cs arbitrary: i d xs)
  case (Cons c cs)
  then obtain x d1 ys where s: "cccb c i d = Inr (x, d1)" "config_childs cccb (Suc i) cs d1 = Inr (ys, d')" "xs = x # ys"
    by (auto split: sum.splits)
  then show ?case using adds_trans [OF assms(2) [OF s(1)] Cons.IH [OF s(2)]] by simp
qed simp

lemma config_childs_adds_none:
  assumes "config_childs cccb i cs d = Inr (xs, d')" "\<And>c j d x d'. cccb c j d = Inr (x, d') \<Longrightarrow> adds (\<pi> d) [] (\<pi> d')"
  shows "adds (\<pi> d) [] (\<pi> d')"
proof -
  have e: "concat (map (\<lambda>x. []) xs) = ([] :: nat list)" by (induction xs) simp_all
  show ?thesis using config_childs_adds [OF assms(1), where \<pi> = \<pi> and outs = "\<lambda>x. []"] assms(2) by (simp only: e)
qed

subsection \<open>Filled slots\<close>

text \<open>The state between \<open>init_dispatcher\<close> and the end of the registrations: the first \<open>dp_value_cbs_pos\<close> slots are in use.\<close>

definition node_filled :: "dnode \<Rightarrow> bool" where
  "node_filled dp \<longleftrightarrow> (0 < dp_value_count dp \<longrightarrow> length (dp_value_cbs dp) = dp_value_count dp) \<and>
     dp_value_cbs_pos dp \<le> dp_value_count dp \<and> (\<forall>k < dp_value_cbs_pos dp. ce_cb (dp_value_cbs dp ! k) \<noteq> None)"

definition filled :: "dnode list \<Rightarrow> nat \<Rightarrow> nat" where
  "filled ds d = (if d < length ds then dp_value_cbs_pos (ds ! d) else 0)"

text \<open>From \<open>ds\<close> to \<open>ds'\<close>, the outputs \<open>outs\<close> are registered.\<close>

definition registers :: "dnode list \<Rightarrow> nat list \<Rightarrow> dnode list \<Rightarrow> bool" where
  "registers ds outs ds' \<longleftrightarrow> length ds' = length ds \<and> (\<forall>d. slots ds' d = slots ds d) \<and>
     (\<forall>d. filled ds' d = filled ds d + count_list outs d) \<and>
     map dp_producer ds' = map dp_producer ds \<and> list_all node_filled ds'"

definition room :: "dnode list \<Rightarrow> nat list \<Rightarrow> bool" where
  "room ds outs \<longleftrightarrow> list_all node_filled ds \<and> (\<forall>d \<in> set outs. d < length ds) \<and>
     (\<forall>d. filled ds d + count_list outs d \<le> slots ds d)"

lemma registers_room: "room ds (a @ b) \<Longrightarrow> registers ds a ds' \<Longrightarrow> room ds' b"
  by (auto simp: room_def registers_def add.assoc)

lemma room_first: "room ds (a @ b) \<Longrightarrow> room ds a"
  unfolding room_def by (auto simp: add.assoc) (metis add.assoc add_leE)

lemma registers_trans: "registers ds a ds1 \<Longrightarrow> registers ds1 b ds2 \<Longrightarrow> registers ds (a @ b) ds2"
  by (simp add: registers_def)

lemma register_one:
  assumes "room ds [d]"
  obtains dp where "uvrgw_conf_register_disp_cb val cb (ds ! d) = Inr dp" "registers ds [d] (ds[d := dp])"
proof -
  let ?dp = "ds ! d"
  let ?new = "?dp\<lparr>dp_value_cbs := (dp_value_cbs ?dp)[dp_value_cbs_pos ?dp := \<lparr>ce_val = Some val, ce_cb = Some cb\<rparr>],
    dp_value_cbs_pos := dp_value_cbs_pos ?dp + 1\<rparr>"
  have d: "d < length ds" and l: "filled ds d + 1 \<le> slots ds d" and all: "list_all node_filled ds"
    using assms by (auto simp: room_def split: if_splits dest: spec [of _ d])
  have lt: "dp_value_cbs_pos ?dp < dp_value_count ?dp" using l d by (simp add: filled_def slots_def)
  have n: "node_filled ?dp" using all d by (simp add: list_all_length)
  have "node_filled ?new" using n lt by (auto simp: node_filled_def nth_list_update less_Suc_eq)
  then have "list_all node_filled (ds[d := ?new])" using all d by (auto simp: list_all_length nth_list_update)
  moreover have "map dp_producer (ds[d := ?new]) = map dp_producer ds" by (simp add: map_update list_update_same_conv d)
  ultimately have "registers ds [d] (ds[d := ?new])"
    using d by (auto simp: registers_def slots_def filled_def nth_list_update)
  then show thesis using that [of ?new] lt by (simp add: uvrgw_conf_register_disp_cb_def)
qed

lemma register_vals_room:
  assumes "room ds (map snd vals)"
  shows "\<exists>ds'. register_vals vals cb ds = Inr ds' \<and> registers ds (map snd vals) ds'"
  using assms
proof (induction vals arbitrary: ds)
  case Nil
  then show ?case by (simp add: registers_def room_def)
next
  case (Cons v vals)
  obtain val d where v: "v = (val, d)" by force
  have r: "room ds ([d] @ map snd vals)" using Cons.prems v by simp
  obtain dp where dp: "uvrgw_conf_register_disp_cb val cb (ds ! d) = Inr dp" "registers ds [d] (ds[d := dp])"
    using register_one [OF room_first [OF r]] by blast
  obtain ds' where "register_vals vals cb (ds[d := dp]) = Inr ds'" "registers (ds[d := dp]) (map snd vals) ds'"
    using Cons.IH [OF registers_room [OF r dp(2)]] by blast
  then show ?case using v dp registers_trans [OF dp(2)] by fastforce
qed

lemma init_filled:
  "list_all node_filled (init_dispatcher ds)" "filled (init_dispatcher ds) d = 0" "slots (init_dispatcher ds) d = slots ds d"
  "length (init_dispatcher ds) = length ds" "map dp_producer (init_dispatcher ds) = map dp_producer ds"
  by (auto simp: init_dispatcher_def node_filled_def filled_def slots_def list_all_iff Let_def)

subsection \<open>The contract of a module\<close>

locale conf_module =
  fixes configure :: "'c \<Rightarrow> dnode list \<Rightarrow> ('e + 'm \<times> dnode list)"
    and outputs :: "'m \<Rightarrow> nat list"
    and register :: "'m \<Rightarrow> dnode list \<Rightarrow> conf_error + dnode list"
  assumes reserves: "configure c ds = Inr (m, ds') \<Longrightarrow> adds ds (outputs m) ds'"
    and fills: "room ds (outputs m) \<Longrightarrow> \<exists>ds'. register m ds = Inr ds' \<and> registers ds (outputs m) ds'"
begin

text \<open>A module alone: after its configuration and \<open>init_dispatcher\<close> its registration uses up what it reserved.\<close>

lemma registers_reserved:
  assumes "configure c ds = Inr (m, ds')" "\<forall>d. slots ds d = 0"
  shows "\<exists>ds''. register m (init_dispatcher ds') = Inr ds'' \<and> (\<forall>d. filled ds'' d = slots ds' d)"
proof -
  have a: "\<forall>d. slots ds' d = count_list (outputs m) d" "\<forall>d \<in> set (outputs m). d < length ds'"
    using reserves [OF assms(1)] assms(2) by (auto simp: adds_def)
  then have "room (init_dispatcher ds') (outputs m)" by (auto simp: room_def init_filled)
  then obtain ds'' where "register m (init_dispatcher ds') = Inr ds''" "registers (init_dispatcher ds') (outputs m) ds''"
    using fills by blast
  then show ?thesis using a by (auto simp: registers_def init_filled)
qed

lemma fills_rest: "room ds (outputs m @ rest) \<Longrightarrow> \<exists>ds'. register m ds = Inr ds' \<and> registers ds (outputs m) ds' \<and> room ds' rest"
  using fills [OF room_first] registers_room by blast

end

end
