(* ===== verification/Counter.thy ===== *)
theory Counter
  imports Dispatch Number_Text
begin

text \<open>
  The persistent energy counters of counter.c: configuration, the update of a device counter, the
  integration of a power, the tick of the counter thread, and the state files, written by way of a
  temporary file. A counter's lock makes each operation atomic.

  The state directory is a map from file names to contents (\<open>state_path\<close> prefixes the names of one
  directory, which is left out). What can fail in the file system is a parameter of the
  operations.
\<close>

subsection \<open>State\<close>

record counter =
  ct_name :: string
  ct_source :: string
  ct_integrate_power :: bool
  ct_max_power :: dbl
  ct_scale :: dbl
  ct_sign :: counter_sign
  ct_src_disp :: nat
  ct_disp :: nat
  ct_disabled :: bool
  ct_initialized :: bool
  ct_accum :: dbl
  ct_last_read :: dbl
  ct_dirty :: bool
  ct_has_change :: bool
  ct_change_ts :: ticks
  ct_has_power :: bool
  ct_power :: dbl
  ct_integrated_ts :: ticks

text \<open>The options of a \<open>counter\<close> section; \<open>None\<close> is a string option that is not set.\<close>

record counter_cfg =
  cc_title :: "string option"
  cc_source :: "string option"
  cc_integrate_power :: bool
  cc_max_power :: dbl
  cc_scale :: dbl
  cc_sign :: counter_sign

definition counter_opts :: "string \<Rightarrow> counter_cfg" where
  "counter_opts title =
     \<lparr>cc_title = Some title, cc_source = None, cc_integrate_power = False, cc_max_power = DFin 0,
      cc_scale = DFin 1, cc_sign = SIGN_POSITIVE\<rparr>"

fun sign_int :: "counter_sign \<Rightarrow> int" where
  "sign_int SIGN_POSITIVE = 1"
| "sign_int SIGN_NEGATIVE = - 1"

datatype counter_error =
    NameInvalid | SourceNotGiven | SourceSameName | ScaleNotPositive | MaxPowerNotAllowed
  | MaxPowerInvalid | SignNotAllowed | SourceIsCounter | ConfError conf_error

subsection \<open>Configuration\<close>

definition name_char :: "char \<Rightarrow> bool" where
  "name_char c \<longleftrightarrow> (ch (CHR ''A'') \<le> ch c \<and> ch c \<le> ch (CHR ''Z'')) \<or>
     (ch (CHR ''a'') \<le> ch c \<and> ch c \<le> ch (CHR ''z'')) \<or>
     (ch (CHR ''0'') \<le> ch c \<and> ch c \<le> ch (CHR ''9'')) \<or>
     c = CHR ''_'' \<or> c = CHR ''.'' \<or> c = CHR ''-''"

fun valid_name :: "string option \<Rightarrow> bool" where
  "valid_name None = False"
| "valid_name (Some name) = (name \<noteq> [] \<and> hd name \<noteq> CHR ''.'' \<and> list_all name_char name)"

definition new_counter :: "counter_cfg \<Rightarrow> counter" where
  "new_counter cfg =
     \<lparr>ct_name = the (cc_title cfg), ct_source = the (cc_source cfg),
      ct_integrate_power = cc_integrate_power cfg, ct_max_power = cc_max_power cfg,
      ct_scale = cc_scale cfg, ct_sign = cc_sign cfg, ct_src_disp = 0, ct_disp = 0,
      ct_disabled = False, ct_initialized = False, ct_accum = DFin 0, ct_last_read = DFin 0,
      ct_dirty = False, ct_has_change = False, ct_change_ts = 0, ct_has_power = False,
      ct_power = DFin 0, ct_integrated_ts = 0\<rparr>"

definition counter_configure_one ::
  "counter_cfg \<Rightarrow> nat \<Rightarrow> dnode list \<Rightarrow> counter_error + counter \<times> dnode list" where
  "counter_configure_one cfg self ds =
     (if \<not> valid_name (cc_title cfg) then Inl NameInvalid
      else if cc_source cfg = None then Inl SourceNotGiven
      else if cc_title cfg = cc_source cfg then Inl SourceSameName
      else if \<not> d_lt (DFin 0) (cc_scale cfg) then Inl ScaleNotPositive
      else if cc_integrate_power cfg \<and> \<not> d_eq (cc_max_power cfg) (DFin 0) then Inl MaxPowerNotAllowed
      else if \<not> cc_integrate_power cfg \<and> d_lt (cc_max_power cfg) (DFin 0) then Inl MaxPowerInvalid
      else if \<not> cc_integrate_power cfg \<and> cc_sign cfg \<noteq> SIGN_POSITIVE then Inl SignNotAllowed
      else let c = new_counter cfg;
               (ds1, src) = uvrgw_conf_get_dispatcher (ct_source c) True ds;
               (ds2, own) = uvrgw_conf_get_dispatcher (ct_name c) False ds1
           in case uvrgw_conf_set_producer ''counter'' (ct_name c) (Some (CounterRef self)) False (DFin 0) 0 (ds2 ! own) of
                Inl e \<Rightarrow> Inl (ConfError e)
              | Inr dp \<Rightarrow>
                  let ds3 = ds2[own := dp];
                      ds4 = (if ct_integrate_power c
                             then ds3[src := uvrgw_conf_need_timeout ''counter'' (ct_name c) (ds3 ! src)]
                             else ds3)
                  in Inr (c\<lparr>ct_src_disp := src, ct_disp := own\<rparr>, ds4))"

fun find_counter :: "counter list \<Rightarrow> string \<Rightarrow> counter option" where
  "find_counter [] name = None"
| "find_counter (c # cs) name = (if ct_name c = name then Some c else find_counter cs name)"

definition counter_configure ::
  "counter_cfg list \<Rightarrow> dnode list \<Rightarrow> counter_error + counter list \<times> dnode list" where
  "counter_configure cfgs ds =
     (case config_childs counter_configure_one 0 cfgs ds of
        Inl e \<Rightarrow> Inl e
      | Inr (cs, ds') \<Rightarrow>
          if list_ex (\<lambda>c. find_counter cs (ct_source c) \<noteq> None) cs then Inl SourceIsCounter
          else Inr (cs, ds'))"

text \<open>Registration: the nodes are updated counter by counter, in the order of the list.\<close>

fun counter_register_disp_cbs :: "nat \<Rightarrow> counter list \<Rightarrow> dnode list \<Rightarrow> conf_error + dnode list" where
  "counter_register_disp_cbs i [] ds = Inr ds"
| "counter_register_disp_cbs i (c # cs) ds =
     (case uvrgw_conf_register_disp_cb (CounterRef i) Counter_source_update (ds ! ct_src_disp c) of
        Inl e \<Rightarrow> Inl e
      | Inr dp \<Rightarrow> counter_register_disp_cbs (Suc i) cs (ds[ct_src_disp c := dp]))"

subsection \<open>Updates\<close>

definition ms_per_hour :: dbl where
  "ms_per_hour = DFin 3600000"

text \<open>The result of \<open>device_update\<close> is false for a reading that is refused (negative).\<close>

definition device_update :: "dbl \<Rightarrow> ticks \<Rightarrow> counter \<Rightarrow> bool \<times> counter \<times> logmsg list" where
  "device_update raw now c =
     (if d_lt raw (DFin 0) then (False, c, [])
      else if \<not> ct_initialized c then
        (True, c\<lparr>ct_accum := raw, ct_last_read := raw, ct_initialized := True, ct_dirty := True,
                 ct_has_change := True, ct_change_ts := now\<rparr>, [])
      else if d_eq raw (ct_last_read c) then (True, c, [])
      else let
        (delta, l1) = (if d_lt raw (ct_last_read c) then (raw, [(LOG_INFO, ''source reset detected'')])
                       else (d_sub raw (ct_last_read c), []));
        (delta, l2) =
          (if d_lt (DFin 0) (ct_max_power c) \<and> ct_has_change c \<and>
              d_lt (d_div (d_mul (ct_max_power c) (d_of_int (now - ct_change_ts c))) ms_per_hour) delta
           then (DFin 0, [(LOG_WARNING, ''implausible change ignored, resynchronised'')])
           else (delta, []))
      in (True, c\<lparr>ct_accum := d_add (ct_accum c) delta, ct_last_read := raw, ct_dirty := True,
                  ct_has_change := True, ct_change_ts := now\<rparr>, l1 @ l2))"

definition integrate :: "ticks \<Rightarrow> counter \<Rightarrow> counter" where
  "integrate now c =
     (if \<not> ct_has_power c then c
      else if ct_integrated_ts c < now then
        let pw = d_mul (ct_power c) (d_of_int (sign_int (ct_sign c)));
            c' = (if d_lt (DFin 0) pw
                  then c\<lparr>ct_accum := d_add (ct_accum c)
                           (d_div (d_mul pw (d_of_int (now - ct_integrated_ts c))) ms_per_hour),
                         ct_dirty := True\<rparr>
                  else c)
        in c'\<lparr>ct_integrated_ts := now\<rparr>
      else c)"

definition power_update :: "dbl \<Rightarrow> ticks \<Rightarrow> counter \<Rightarrow> counter" where
  "power_update pw now c =
     (let c1 = (if ct_initialized c then c
                else c\<lparr>ct_accum := DFin 0, ct_last_read := DFin 0, ct_initialized := True, ct_dirty := True\<rparr>)
      in (integrate now c1)\<lparr>ct_has_power := True, ct_power := pw, ct_integrated_ts := now\<rparr>)"

definition power_stop :: "ticks \<Rightarrow> counter \<Rightarrow> counter" where
  "power_stop now c = (integrate now c)\<lparr>ct_has_power := False\<rparr>"

text \<open>The callback of the source; \<open>self\<close> is the counter's own pointer.\<close>

definition source_update ::
  "ticks \<Rightarrow> nat \<Rightarrow> dbl \<Rightarrow> bool \<Rightarrow> counter \<Rightarrow> counter \<times> disp_req list \<times> logmsg list" where
  "source_update now self f0 valid c =
     (let f = d_mul f0 (ct_scale c) in
      if ct_disabled c then (c, [], [])
      else let
        (ok, c', l) =
          (if \<not> valid then (False, (if ct_integrate_power c then power_stop now c else c), [])
           else if ct_integrate_power c then (True, power_update f now c, [])
           else device_update f now c)
      in (c', if ok \<and> ct_initialized c' then [Disp (ct_disp c') (Some (CounterRef self)) (ct_accum c') True] else [], l))"

fun counter_publish :: "nat \<Rightarrow> counter list \<Rightarrow> disp_req list" where
  "counter_publish i [] = []"
| "counter_publish i (c # cs) =
     (if \<not> ct_disabled c \<and> ct_initialized c
      then [Disp (ct_disp c) (Some (CounterRef i)) (ct_accum c) True] else []) @ counter_publish (Suc i) cs"

text \<open>The work of the counter thread for one counter on a tick.\<close>

definition counter_tick :: "ticks \<Rightarrow> nat \<Rightarrow> counter \<Rightarrow> counter \<times> disp_req list" where
  "counter_tick now self c =
     (if \<not> ct_integrate_power c then (c, [])
      else if \<not> ct_disabled c \<and> ct_initialized c then
        let c' = integrate now c in (c', [Disp (ct_disp c') (Some (CounterRef self)) (ct_accum c') True])
      else (c, []))"

fun counter_ticks :: "ticks \<Rightarrow> nat \<Rightarrow> counter list \<Rightarrow> counter list \<times> disp_req list" where
  "counter_ticks now i [] = ([], [])"
| "counter_ticks now i (c # cs) =
     (let (c', r) = counter_tick now i c; (cs', rs) = counter_ticks now (Suc i) cs in (c' # cs', r @ rs))"

subsection \<open>State files\<close>

type_synonym files = "string \<rightharpoonup> string"

definition scan_lf :: "string \<Rightarrow> (dbl \<times> string) option" where
  "scan_lf s = (let (v, p) = strtod s in if p = s then None else Some (v, p))"

text \<open>\<open>fscanf(f, "%lf %lf %c", ...)\<close>, if it converts exactly two items.\<close>

definition scan_state :: "string \<Rightarrow> (dbl \<times> dbl) option" where
  "scan_state txt =
     (case scan_lf txt of
        None \<Rightarrow> None
      | Some (accum, p) \<Rightarrow>
          (case scan_lf p of
             None \<Rightarrow> None
           | Some (last_read, q) \<Rightarrow>
               if dropWhile c_isspace q = [] then Some (accum, last_read) else None))"

definition load_state :: "bool \<Rightarrow> files \<Rightarrow> counter \<Rightarrow> counter \<times> logmsg list" where
  "load_state readable fs c =
     (case fs (ct_name c) of
        None \<Rightarrow> (c, [(LOG_INFO, ''no state file, starting new counter'')])
      | Some txt \<Rightarrow>
          if \<not> readable then (c\<lparr>ct_disabled := True\<rparr>, [(LOG_ERR, ''could not open state file'')])
          else case scan_state txt of
            None \<Rightarrow> (c\<lparr>ct_disabled := True\<rparr>, [(LOG_ERR, ''invalid state file'')])
          | Some (accum, last_read) \<Rightarrow>
              if \<not> isfinite accum \<or> \<not> isfinite last_read \<or> d_lt accum (DFin 0) \<or> d_lt last_read (DFin 0)
              then (c\<lparr>ct_disabled := True\<rparr>, [(LOG_ERR, ''invalid state file'')])
              else (c\<lparr>ct_accum := accum, ct_last_read := last_read, ct_initialized := True\<rparr>, []))"

text \<open>The changes that saving makes to the directory, and which calls succeed.\<close>

datatype fs_op = Fs_create string | Fs_write string string | Fs_unlink string | Fs_rename string string

fun fs_apply :: "fs_op \<Rightarrow> files \<Rightarrow> files" where
  "fs_apply (Fs_create n) fs = fs(n \<mapsto> [])"
| "fs_apply (Fs_write n txt) fs = fs(n \<mapsto> (case fs n of Some old \<Rightarrow> old @ txt | None \<Rightarrow> txt))"
| "fs_apply (Fs_unlink n) fs = fs(n := None)"
| "fs_apply (Fs_rename n m) fs = fs(m := fs n, n := None)"

definition fs_run :: "fs_op list \<Rightarrow> files \<Rightarrow> files" where
  "fs_run ops fs = fold fs_apply ops fs"

record save_env =
  se_open :: bool
  se_write :: bool \<comment> \<open>fprintf, fflush and fsync\<close>
  se_close :: bool
  se_rename :: bool

definition state_text :: "dbl \<Rightarrow> dbl \<Rightarrow> string" where
  "state_text accum last_read = fmt_f 6 accum @ '' '' @ fmt_f 6 last_read @ [CHR 0x0A]"

definition save_state :: "save_env \<Rightarrow> string \<Rightarrow> dbl \<Rightarrow> dbl \<Rightarrow> bool \<times> fs_op list \<times> logmsg list" where
  "save_state env name accum last_read =
     (let tmp = name @ ''.tmp'';
          failed = (\<lambda>ops msg. (False, ops, [(LOG_ERR, msg)]))
      in if \<not> se_open env then failed [] ''could not write state file''
         else if \<not> se_write env then failed [Fs_create tmp, Fs_unlink tmp] ''could not write state file''
         else let ops = [Fs_create tmp, Fs_write tmp (state_text accum last_read)] in
           if \<not> se_close env then failed (ops @ [Fs_unlink tmp]) ''could not write state file''
           else if \<not> se_rename env then failed (ops @ [Fs_unlink tmp]) ''could not rename state file''
           else (True, ops @ [Fs_rename tmp name], []))"

fun save_states :: "save_env list \<Rightarrow> counter list \<Rightarrow> counter list \<times> fs_op list \<times> logmsg list" where
  "save_states (env # envs) (c # cs) =
     (let (c', ops, l) =
        (if \<not> ct_dirty c then (c, [], [])
         else let (ok, ops, l) = save_state env (ct_name c) (ct_accum c) (ct_last_read c)
              in (c\<lparr>ct_dirty := \<not> ok\<rparr>, ops, l));
          (cs', ops', l') = save_states envs cs
      in (c' # cs', ops @ ops', l @ l'))"
| "save_states _ cs = (cs, [], [])"

subsection \<open>The thread\<close>

record counter_thread =
  cth_next_tick :: ticks
  cth_next_save :: ticks

definition COUNTER_TICK_MS :: ticks where "COUNTER_TICK_MS = 1000"
definition COUNTER_SAVE_INTERVAL_MS :: ticks where "COUNTER_SAVE_INTERVAL_MS = 300000"

definition counter_thread_start :: "ticks \<Rightarrow> counter_thread" where
  "counter_thread_start now = \<lparr>cth_next_tick = 0, cth_next_save = now + COUNTER_SAVE_INTERVAL_MS\<rparr>"

text \<open>One pass of the loop of \<open>counter_thread\<close>.\<close>

definition counter_thread_pass ::
  "ticks \<Rightarrow> save_env list \<Rightarrow> counter_thread \<Rightarrow> counter list \<Rightarrow>
    counter_thread \<times> counter list \<times> disp_req list \<times> fs_op list \<times> logmsg list" where
  "counter_thread_pass now envs th cs =
     (let (th1, cs1, reqs) =
        (if cth_next_tick th \<le> now
         then let (cs1, reqs) = counter_ticks now 0 cs in (th\<lparr>cth_next_tick := now + COUNTER_TICK_MS\<rparr>, cs1, reqs)
         else (th, cs, []));
          (th2, cs2, ops, l) =
        (if cth_next_save th1 \<le> now
         then let (cs2, ops, l) = save_states envs cs1 in (th1\<lparr>cth_next_save := now + COUNTER_SAVE_INTERVAL_MS\<rparr>, cs2, ops, l)
         else (th1, cs1, [], []))
      in (th2, cs2, reqs, ops, l))"

subsection \<open>Startup and shutdown\<close>

text \<open>
  The names of the files. The model keeps the name behind the directory only; two names clash in the
  file system exactly if they do here.
\<close>

definition counter_dir_of :: "string \<Rightarrow> string" where
  "counter_dir_of state_dir = state_dir @ ''/'' @ ''counters''"

definition state_path :: "string \<Rightarrow> string \<Rightarrow> string \<Rightarrow> string" where
  "state_path counter_dir name suffix = counter_dir @ ''/'' @ name @ suffix"

lemma state_path_eq: "state_path d n s = state_path d n' s' \<longleftrightarrow> n @ s = n' @ s'"
  by (simp add: state_path_def)

text \<open>
  The state files are read before any source runs. \<open>mkdir_ok\<close> and \<open>created\<close> are the outcomes of \<open>mkdir\<close>
  (an existing directory is fine) and \<open>pthread_create\<close>.
\<close>

record counters =
  cm_counters :: "counter list"
  cm_dir :: bool \<comment> \<open>\<open>counter_dir\<close> is set\<close>
  cm_thread_running :: bool

definition counter_startup ::
  "bool \<Rightarrow> bool \<Rightarrow> (string \<Rightarrow> bool) \<Rightarrow> files \<Rightarrow> counters \<Rightarrow> bool \<times> counters \<times> logmsg list" where
  "counter_startup mkdir_ok created readable fs st =
     (if cm_counters st = [] then (True, st, [])
      else if \<not> mkdir_ok then (False, st\<lparr>cm_dir := True\<rparr>, [(LOG_ERR, ''could not create counter directory'')])
      else let rs = map (\<lambda>c. load_state (readable (ct_name c)) fs c) (cm_counters st);
               (ok, running, evs) = thread_startup created (cm_thread_running st)
        in (ok, st\<lparr>cm_counters := map fst rs, cm_dir := True, cm_thread_running := running\<rparr>,
            concat (map snd rs) @ (if ok then [] else [(LOG_ERR, ''failed to start counter thread'')])))"

definition counter_stop :: "counters \<Rightarrow> counters" where
  "counter_stop st = st\<lparr>cm_thread_running := fst (thread_shutdown (cm_thread_running st))\<rparr>"

definition counter_shutdown :: "save_env list \<Rightarrow> counters \<Rightarrow> counters \<times> fs_op list \<times> logmsg list" where
  "counter_shutdown envs st =
     (let st1 = counter_stop st in
      if cm_dir st1 then let (cs, ops, msgs) = save_states envs (cm_counters st1) in (st1\<lparr>cm_counters := cs\<rparr>, ops, msgs)
      else (st1, [], []))"

lemmas [counter_simps] = device_update_def integrate_def power_update_def power_stop_def
  source_update_def counter_tick_def Let_def

subsection \<open>The total never decreases\<close>

definition counter_ok :: "counter \<Rightarrow> bool" where
  "counter_ok c \<longleftrightarrow> is_double (ct_accum c) \<and> d_nonneg (ct_accum c) \<and>
     \<not> isnan (ct_last_read c) \<and> isfinite (ct_scale c)"

lemma new_counter_ok: "isfinite (cc_scale cfg) \<Longrightarrow> counter_ok (new_counter cfg)"
  by (simp add: counter_ok_def new_counter_def isnan_def is_double_def)

lemma integrate_accum:
  assumes "is_double (ct_accum c)" "d_nonneg (ct_accum c)"
  shows "is_double (ct_accum (integrate now c)) \<and> d_nonneg (ct_accum (integrate now c)) \<and>
    d_le (ct_accum c) (ct_accum (integrate now c))"
proof -
  have r: "d_le (ct_accum c) (ct_accum c)" using assms(2) by (simp add: d_le_refl d_nonneg_not_nan)
  let ?p = "d_mul (ct_power c) (d_of_int (sign_int (ct_sign c)))"
  have "d_nonneg (d_div (d_mul ?p (d_of_int (now - ct_integrated_ts c))) ms_per_hour)"
    if "d_lt (DFin 0) ?p" "ct_integrated_ts c < now"
    using that unfolding ms_per_hour_def
    by (intro d_nonneg_div_const d_nonneg_mul_pos d_of_int_pos) simp_all
  then show ?thesis
    using assms r d_nonneg_add [OF assms] by (simp add: integrate_def Let_def)
qed

lemma integrate_frame [simp]:
  "ct_initialized (integrate now c) = ct_initialized c" "ct_scale (integrate now c) = ct_scale c"
  "ct_last_read (integrate now c) = ct_last_read c" "ct_disabled (integrate now c) = ct_disabled c"
  "ct_integrate_power (integrate now c) = ct_integrate_power c" "ct_has_power (integrate now c) = ct_has_power c"
  "ct_disp (integrate now c) = ct_disp c" "ct_sign (integrate now c) = ct_sign c"
  by (simp_all add: integrate_def Let_def)

lemma integrate_ok:
  "counter_ok c \<Longrightarrow> counter_ok (integrate now c) \<and> d_le (ct_accum c) (ct_accum (integrate now c))"
  using integrate_accum [of c now] by (auto simp: counter_ok_def)

text \<open>The parts of a change of the reading: the increase it stands for, and its plausible limit.\<close>

definition device_delta :: "dbl \<Rightarrow> counter \<Rightarrow> dbl" where
  "device_delta raw c = (if d_lt raw (ct_last_read c) then raw else d_sub raw (ct_last_read c))"

definition device_limit :: "ticks \<Rightarrow> counter \<Rightarrow> dbl" where
  "device_limit now c = d_div (d_mul (ct_max_power c) (d_of_int (now - ct_change_ts c))) ms_per_hour"

definition implausible :: "dbl \<Rightarrow> ticks \<Rightarrow> counter \<Rightarrow> bool" where
  "implausible raw now c \<longleftrightarrow> d_lt (DFin 0) (ct_max_power c) \<and> ct_has_change c \<and>
     d_lt (device_limit now c) (device_delta raw c)"

lemma device_update_count:
  assumes "\<not> d_lt raw (DFin 0)" "ct_initialized c" "\<not> d_eq raw (ct_last_read c)"
  shows "fst (device_update raw now c)" and
    "fst (snd (device_update raw now c)) =
      c\<lparr>ct_accum := d_add (ct_accum c) (if implausible raw now c then DFin 0 else device_delta raw c),
        ct_last_read := raw, ct_dirty := True, ct_has_change := True, ct_change_ts := now\<rparr>"
  using assms by (simp_all add: device_update_def Let_def implausible_def device_delta_def device_limit_def)

lemma device_update_same:
  assumes "d_lt raw (DFin 0) \<or> (ct_initialized c \<and> d_eq raw (ct_last_read c))"
  shows "fst (device_update raw now c) = (\<not> d_lt raw (DFin 0))"
    "fst (snd (device_update raw now c)) = c"
  using assms by (cases "d_lt raw (DFin 0)"; simp add: device_update_def)+

lemma device_delta_nonneg:
  assumes "\<not> isnan raw" "\<not> isnan (ct_last_read c)" "\<not> d_lt raw (DFin 0)" "\<not> d_eq raw (ct_last_read c)"
  shows "d_nonneg (device_delta raw c)"
  using assms d_nonneg_sub d_lt_total not_lt_zero_nonneg by (simp add: device_delta_def)

lemma device_update_ok:
  assumes "counter_ok c" "is_double raw" "\<not> isnan raw" "device_update raw now c = (ok, c', l)"
  shows "counter_ok c' \<and> (ct_initialized c \<longrightarrow> ct_initialized c' \<and> d_le (ct_accum c) (ct_accum c')) \<and>
    (ok \<longrightarrow> ct_initialized c')"
proof -
  have r: "d_le (ct_accum c) (ct_accum c)"
    using assms(1) by (simp add: counter_ok_def d_le_refl d_nonneg_not_nan)
  have nn: "d_nonneg raw" if "\<not> d_lt raw (DFin 0)"
    using that assms(3) not_lt_zero_nonneg by blast
  have a: "is_double (ct_accum c)" "d_nonneg (ct_accum c)" using assms(1) by (auto simp: counter_ok_def)
  note add = d_nonneg_add [OF a]
  show ?thesis
  proof (cases "d_lt raw (DFin 0) \<or> \<not> ct_initialized c \<or> d_eq raw (ct_last_read c)")
    case True
    then show ?thesis
      using assms r nn by (auto simp: device_update_def counter_ok_def split: if_splits)
  next
    case False
    let ?delta = "if implausible raw now c then DFin 0 else device_delta raw c"
    have "d_nonneg ?delta"
      using False assms(1,3) device_delta_nonneg by (simp add: counter_ok_def)
    moreover have "c' = c\<lparr>ct_accum := d_add (ct_accum c) ?delta, ct_last_read := raw, ct_dirty := True,
        ct_has_change := True, ct_change_ts := now\<rparr>"
      using False assms(4) device_update_count [of raw c now] by simp
    ultimately show ?thesis using False add [of ?delta] assms(1,3) by (simp add: counter_ok_def)
  qed
qed

text \<open>What happens to a counter: a value of its source, or a tick of the thread.\<close>

datatype counter_event = Source_value ticks dbl bool | Thread_tick ticks

fun counter_step :: "nat \<Rightarrow> counter_event \<Rightarrow> counter \<Rightarrow> counter \<times> disp_req list" where
  "counter_step self (Source_value now f v) c = (let (c', r, l) = source_update now self f v c in (c', r))"
| "counter_step self (Thread_tick now) c = counter_tick now self c"

fun counter_run :: "nat \<Rightarrow> counter_event list \<Rightarrow> counter \<Rightarrow> counter \<times> disp_req list" where
  "counter_run self [] c = (c, [])"
| "counter_run self (e # es) c =
     (let (c1, r1) = counter_step self e c; (c2, r2) = counter_run self es c1 in (c2, r1 @ r2))"

fun req_value :: "disp_req \<Rightarrow> dbl" where
  "req_value (Disp d src f v) = f"

fun finite_event :: "counter_event \<Rightarrow> bool" where
  "finite_event (Source_value _ f _) = isfinite f"
| "finite_event (Thread_tick _) = True"

lemma source_update_ok:
  assumes "counter_ok c" "isfinite f0" "source_update now self f0 v c = (c', rs, l)"
  shows "counter_ok c' \<and> (ct_initialized c \<longrightarrow> ct_initialized c' \<and> d_le (ct_accum c) (ct_accum c')) \<and>
    (rs = [] \<or> (ct_initialized c' \<and> rs = [Disp (ct_disp c') (Some (CounterRef self)) (ct_accum c') True]))"
proof -
  let ?f = "d_mul f0 (ct_scale c)"
  have f: "is_double ?f" "\<not> isnan ?f"
    using assms(1,2) d_mul_finite_not_nan by (auto simp: counter_ok_def)
  have r: "d_le (ct_accum c) (ct_accum c)"
    using assms(1) by (simp add: counter_ok_def d_le_refl d_nonneg_not_nan)
  obtain ok cd ld where d: "device_update ?f now c = (ok, cd, ld)" by (cases "device_update ?f now c")
  note dev = device_update_ok [OF assms(1) f d]
  let ?c0 = "c\<lparr>ct_accum := DFin 0, ct_last_read := DFin 0, ct_initialized := True, ct_dirty := True\<rparr>"
  have c0: "counter_ok ?c0" using assms(1) by (simp add: counter_ok_def isnan_def is_double_def)
  note int = integrate_ok [OF assms(1), of now] integrate_ok [OF c0, of now]
  consider "ct_disabled c" | "\<not> ct_disabled c" "\<not> v" | "\<not> ct_disabled c" "v" "ct_integrate_power c"
    | "\<not> ct_disabled c" "v" "\<not> ct_integrate_power c" by blast
  then show ?thesis
  proof cases
    case 1
    then show ?thesis using assms(1,3) r by (simp add: source_update_def)
  next
    case 2
    then have "c' = (if ct_integrate_power c then power_stop now c else c)" "rs = []"
      using assms(3) by (simp_all add: source_update_def Let_def)
    then show ?thesis using int(1) r assms(1) by (simp add: power_stop_def counter_ok_def)
  next
    case 3
    then have "c' = power_update ?f now c" "rs = [Disp (ct_disp c') (Some (CounterRef self)) (ct_accum c') True]"
      using assms(3) by (auto simp: source_update_def Let_def power_update_def split: if_splits)
    then show ?thesis using int by (simp add: power_update_def Let_def counter_ok_def)
  next
    case 4
    then have "c' = cd" "rs = (if ok \<and> ct_initialized cd then [Disp (ct_disp cd) (Some (CounterRef self)) (ct_accum cd) True] else [])"
      using assms(3) by (auto simp: source_update_def d)
    then show ?thesis using dev by simp
  qed
qed

lemma counter_step_ok:
  assumes "counter_ok c" "finite_event e" "counter_step self e c = (c', rs)"
  shows "counter_ok c' \<and> (ct_initialized c \<longrightarrow> ct_initialized c' \<and> d_le (ct_accum c) (ct_accum c')) \<and>
    (rs = [] \<or> (ct_initialized c' \<and> rs = [Disp (ct_disp c') (Some (CounterRef self)) (ct_accum c') True]))"
proof (cases e)
  case (Source_value now f v)
  obtain c1 r l where u: "source_update now self f v c = (c1, r, l)" by (cases "source_update now self f v c")
  then show ?thesis
    using source_update_ok [OF assms(1) _ u] assms(2,3) Source_value by simp
next
  case (Thread_tick now)
  then show ?thesis
    using assms(1,3) integrate_ok [OF assms(1), of now] d_le_refl [of "ct_accum c"] d_nonneg_not_nan
    by (auto simp: counter_tick_def Let_def counter_ok_def split: if_splits)
qed

lemma counter_run_published:
  assumes "counter_ok c" "\<forall>e \<in> set es. finite_event e" "counter_run self es c = (c', rs)"
  shows "sorted_wrt d_le (map req_value rs) \<and>
    (ct_initialized c \<longrightarrow> d_le (ct_accum c) (ct_accum c') \<and> (\<forall>r \<in> set rs. d_le (ct_accum c) (req_value r)))"
  using assms
proof (induction es arbitrary: c rs)
  case Nil
  then show ?case by (auto simp: counter_ok_def d_le_refl d_nonneg_not_nan)
next
  case (Cons e es)
  obtain c1 r1 where s: "counter_step self e c = (c1, r1)" by (cases "counter_step self e c")
  obtain r2 where t: "counter_run self es c1 = (c', r2)" "rs = r1 @ r2"
    using Cons.prems(3) s by (auto simp: Let_def split: prod.splits)
  have ok: "counter_ok c1" "ct_initialized c \<Longrightarrow> ct_initialized c1 \<and> d_le (ct_accum c) (ct_accum c1)"
    "r1 = [] \<or> (ct_initialized c1 \<and> r1 = [Disp (ct_disp c1) (Some (CounterRef self)) (ct_accum c1) True])"
    using counter_step_ok [OF Cons.prems(1) _ s] Cons.prems(2) by simp_all
  have "\<forall>e \<in> set es. finite_event e" using Cons.prems(2) by simp
  note Cons.IH [OF ok(1) this t(1)]
  then have i: "sorted_wrt d_le (map req_value r2)"
    "ct_initialized c1 \<Longrightarrow> d_le (ct_accum c1) (ct_accum c')"
    "ct_initialized c1 \<Longrightarrow> r \<in> set r2 \<Longrightarrow> d_le (ct_accum c1) (req_value r)" for r
    using Cons.prems(2) by auto
  have "sorted_wrt d_le (map req_value rs)"
    using ok(3) i t(2) by (auto simp: sorted_wrt_append)
  moreover have "d_le (ct_accum c) (ct_accum c')" if "ct_initialized c"
    using ok(2) [OF that] i(2) d_le_trans by blast
  moreover have "d_le (ct_accum c) (req_value r)" if "ct_initialized c" "r \<in> set rs" for r
  proof -
    have "d_le (ct_accum c1) (req_value r)"
      using that ok(2,3) t(2) i(3) d_le_refl ok(1) d_nonneg_not_nan by (auto simp: counter_ok_def)
    then show ?thesis using ok(2) [OF that(1)] d_le_trans by blast
  qed
  ultimately show ?case by blast
qed

text \<open>
  C4. The published total is monotonic: over any history of source values (finite, valid or not,
  with device resets and glitches) and thread ticks, at any times, the numbers that a counter
  publishes never decrease, also after rounding, and never fall below the total it started with.
\<close>

theorem published_total_monotonic:
  assumes "counter_ok c" "\<forall>e \<in> set es. finite_event e"
  shows "sorted_wrt d_le (map req_value (snd (counter_run self es c))) \<and>
    (ct_initialized c \<longrightarrow> d_le (ct_accum c) (ct_accum (fst (counter_run self es c))) \<and>
      (\<forall>r \<in> set (snd (counter_run self es c)). d_le (ct_accum c) (req_value r)))"
  using counter_run_published [OF assms, of self "fst (counter_run self es c)" "snd (counter_run self es c)"]
  by simp

theorem published_total_monotonic_witness:
  "sorted_wrt d_le (map req_value (snd (counter_run 0
    [Source_value 0 (DFin 10) True, Source_value 100 (DFin 3) True, Source_value 200 (DFin (-1)) True,
     Thread_tick 300] (new_counter (counter_opts ''c'')))))"
  using published_total_monotonic [of "new_counter (counter_opts ''c'')"
    "[Source_value 0 (DFin 10) True, Source_value 100 (DFin 3) True, Source_value 200 (DFin (-1)) True,
     Thread_tick 300]" 0] new_counter_ok [of "counter_opts ''c''"]
  by (simp only: list.set counter_opts_def counter_cfg.simps isfinite.simps) simp

subsection \<open>What a device counter counts\<close>

text \<open>The specification: the increases of the reading, where a lower reading starts again at 0.\<close>

fun counted :: "int \<Rightarrow> int list \<Rightarrow> int" where
  "counted l [] = 0"
| "counted l (r # rs) = (if r < l then r else r - l) + counted r rs"

lemma counted_nonneg: "0 \<le> l \<Longrightarrow> \<forall>r \<in> set rs. 0 \<le> r \<Longrightarrow> 0 \<le> counted l rs"
proof (induction l rs rule: counted.induct)
  case (2 l r rs)
  then show ?case by (auto simp: add_nonneg_nonneg)
qed simp

definition exact_int :: "int \<Rightarrow> bool" where
  "exact_int z \<longleftrightarrow> 0 \<le> z \<and> z \<le> 2 ^ 53"

lemma exact_add: "exact_int a \<Longrightarrow> exact_int b \<Longrightarrow> exact_int (a + b) \<Longrightarrow>
    d_add (DFin (of_int a)) (DFin (of_int b)) = DFin (of_int (a + b))"
  using d_of_int_exact [of "a + b"] unfolding exact_int_def d_of_int_def
  by (simp add: d_add_finite)

lemma exact_sub: "exact_int a \<Longrightarrow> exact_int b \<Longrightarrow> b \<le> a \<Longrightarrow>
    d_sub (DFin (of_int a)) (DFin (of_int b)) = DFin (of_int (a - b))"
  using d_of_int_exact [of "a - b"] unfolding exact_int_def d_of_int_def
  by (simp add: d_sub_finite)

lemma exact_mul: "exact_int a \<Longrightarrow> exact_int b \<Longrightarrow> exact_int (a * b) \<Longrightarrow>
    d_mul (DFin (of_int a)) (DFin (of_int b)) = DFin (of_int (a * b))"
  using d_of_int_exact [of "a * b"] unfolding exact_int_def d_of_int_def
  by (simp add: d_mul_finite)

lemma counted_scale: "0 < k \<Longrightarrow> counted (l * k) (map (\<lambda>r. r * k) rs) = counted l rs * k"
  by (induction l rs rule: counted.induct) (simp_all add: algebra_simps)

text \<open>A device counter with the scale \<open>k\<close> and no limit, at the total \<open>a\<close> and the scaled reading \<open>l\<close>.\<close>

definition device_at :: "int \<Rightarrow> int \<Rightarrow> int \<Rightarrow> counter \<Rightarrow> bool" where
  "device_at k a l c \<longleftrightarrow> \<not> ct_disabled c \<and> \<not> ct_integrate_power c \<and> ct_max_power c = DFin 0 \<and>
     ct_scale c = DFin (of_int k) \<and> ct_initialized c \<and> ct_accum c = DFin (of_int a) \<and>
     ct_last_read c = DFin (of_int l)"

lemma device_at_step:
  assumes "device_at k a l c" "exact_int k" "exact_int a" "exact_int l" "exact_int r" "exact_int (r * k)"
    and "exact_int (a + (if r * k < l then r * k else r * k - l))"
  shows "device_at k (a + (if r * k < l then r * k else r * k - l)) (r * k)
    (fst (counter_step self (Source_value now (DFin (of_int r)) True) c))"
proof -
  define q where "q = r * k"
  note q = assms(6,7) [folded q_def]
  have one: "d_mul (DFin (of_int r)) (DFin (of_int k)) = DFin (of_int q)"
    using exact_mul [OF assms(5,2,6)] by (simp add: q_def)
  have nl: "\<not> d_lt (DFin (of_int q)) (DFin 0)" using q(1) by (simp add: exact_int_def)
  obtain ok c' lg where u: "device_update (DFin (of_int q)) now c = (ok, c', lg)"
    by (cases "device_update (DFin (of_int q)) now c")
  have step: "fst (counter_step self (Source_value now (DFin (of_int r)) True) c) = c'"
    using assms(1) one u by (simp add: source_update_def device_at_def)
  have "device_at k (a + (if q < l then q else q - l)) q c'"
  proof (cases "q = l")
    case True
    then show ?thesis
      using device_update_same [of "DFin (of_int q)" c now] assms(1) u by (simp add: device_at_def)
  next
    case False
    have d: "exact_int (if q < l then q else q - l)" using assms(4) q(1) by (auto simp: exact_int_def)
    have "device_delta (DFin (of_int q)) c = DFin (of_int (if q < l then q else q - l))"
      using assms(1,4) q(1) exact_sub [of q l] by (simp add: device_delta_def device_at_def)
    moreover have "\<not> implausible (DFin (of_int q)) now c"
      using assms(1) by (simp add: implausible_def device_at_def)
    ultimately have "c' = c\<lparr>ct_accum := DFin (of_int (a + (if q < l then q else q - l))),
        ct_last_read := DFin (of_int q), ct_dirty := True, ct_has_change := True, ct_change_ts := now\<rparr>"
      using device_update_count(2) [OF nl, of c now] assms(1) False u exact_add [OF assms(3) d q(2)]
      by (simp add: device_at_def)
    then show ?thesis using assms(1) by (simp add: device_at_def)
  qed
  then show ?thesis unfolding step q_def .
qed

text \<open>Readings as they arrive from the source, at arbitrary times.\<close>

definition readings :: "(ticks \<times> int) list \<Rightarrow> counter_event list" where
  "readings trs = map (\<lambda>(t, r). Source_value t (DFin (of_int r)) True) trs"

lemma readings_Cons: "readings ((t, r) # trs) = Source_value t (DFin (of_int r)) True # readings trs"
  by (simp add: readings_def)

lemma fst_counter_run_Cons:
  "fst (counter_run self (e # es) c) = fst (counter_run self es (fst (counter_step self e c)))"
  by (simp add: Let_def split: prod.splits)

lemma fst_counter_run_append:
  "fst (counter_run self (es @ es') c) = fst (counter_run self es' (fst (counter_run self es c)))"
proof (induction es arbitrary: c)
  case (Cons e es)
  then show ?case by (simp only: append_Cons fst_counter_run_Cons)
qed simp

lemma device_at_run:
  assumes "device_at k a l c" "exact_int k" "exact_int a" "exact_int l"
    and "\<forall>r \<in> set (map snd trs). exact_int r \<and> exact_int (r * k)"
    and "exact_int (a + counted l (map (\<lambda>r. r * k) (map snd trs)))"
  shows "ct_accum (fst (counter_run self (readings trs) c)) =
    DFin (of_int (a + counted l (map (\<lambda>r. r * k) (map snd trs))))"
  using assms(1,3-)
proof (induction trs arbitrary: a l c)
  case Nil
  then show ?case by (simp add: readings_def device_at_def)
next
  case (Cons tr trs)
  obtain t r where tr: "tr = (t, r)" by force
  let ?a = "a + (if r * k < l then r * k else r * k - l)" and ?rs = "map (\<lambda>r. r * k) (map snd trs)"
  have r: "exact_int r" "exact_int (r * k)" "0 \<le> counted (r * k) ?rs"
    using Cons.prems(4) tr counted_nonneg [of "r * k" ?rs] by (auto simp: exact_int_def)
  have a: "exact_int ?a"
    using Cons.prems(2,3,5) r tr by (auto simp: exact_int_def)
  have "device_at k ?a (r * k) (fst (counter_step self (Source_value t (DFin (of_int r)) True) c))"
    by (rule device_at_step [OF Cons.prems(1) assms(2) Cons.prems(2,3) r(1,2) a])
  then have "ct_accum (fst (counter_run self (readings trs)
      (fst (counter_step self (Source_value t (DFin (of_int r)) True) c)))) =
      DFin (of_int (?a + counted (r * k) ?rs))"
    using Cons.prems(4,5) tr by (intro Cons.IH a r) (auto simp: add.assoc)
  then show ?case
    unfolding tr readings_def list.map split_conv fst_counter_run_Cons
    by (simp add: tr add.assoc)
qed



text \<open>
  With max_power, an accepted change is never more than max_power allows for the time since
  the last change; an implausible one adds nothing, but the reading is resynchronised, so that
  later changes are counted from it; a repeated reading and a negative one change nothing.
\<close>

theorem plausibility_limit:
  assumes "counter_ok c" "ct_initialized c" "ct_has_change c" "d_lt (DFin 0) (ct_max_power c)"
    and "\<not> isnan raw" "\<not> isnan (device_limit now c)" "device_update raw now c = (ok, c', l)"
  shows "(c' = c \<and> ok = (\<not> d_lt raw (DFin 0))) \<or>
    (ok \<and> ct_last_read c' = raw \<and> ct_change_ts c' = now \<and> d_nonneg (device_delta raw c) \<and>
      ct_accum c' = d_add (ct_accum c)
        (if d_le (device_delta raw c) (device_limit now c) then device_delta raw c else DFin 0))"
proof (cases "d_lt raw (DFin 0) \<or> d_eq raw (ct_last_read c)")
  case True
  then show ?thesis using device_update_same [of raw c now] assms(2,7) by auto
next
  case False
  let ?delta = "device_delta raw c"
  have nn: "d_nonneg ?delta" using device_delta_nonneg False assms(1,5) by (simp add: counter_ok_def)
  have "implausible raw now c \<longleftrightarrow> \<not> d_le ?delta (device_limit now c)"
    using nn d_nonneg_not_nan d_lt_le_not assms(3,4,6) unfolding implausible_def by blast
  moreover have "ok" "c' = c\<lparr>ct_accum := d_add (ct_accum c) (if implausible raw now c then DFin 0 else ?delta),
        ct_last_read := raw, ct_dirty := True, ct_has_change := True, ct_change_ts := now\<rparr>"
    using device_update_count [of raw c now] False assms(2,7) by auto
  ultimately show ?thesis using nn by simp
qed

definition example_counter :: counter where
  "example_counter = (new_counter ((counter_opts ''c'')\<lparr>cc_source := Some ''s'', cc_max_power := DFin 3600\<rparr>))
     \<lparr>ct_initialized := True, ct_has_change := True\<rparr>"

theorem plausibility_limit_witness:
  "ct_accum (fst (snd (device_update (DFin 5) 1000 example_counter))) = d_add (DFin 0) (DFin 0)"
proof -
  let ?c = example_counter
  have c: "counter_ok ?c" by code_simp
  have c2: "ct_initialized ?c" "ct_has_change ?c" "d_lt (DFin 0) (ct_max_power ?c)" "\<not> isnan (DFin 5)"
    "ct_accum ?c = DFin 0" "ct_last_read ?c = DFin 0"
    by (simp_all add: example_counter_def new_counter_def counter_opts_def isnan_def)
  have e: "d_of_int 1000 = DFin 1000" "d_mul (DFin 3600) (DFin 1000) = DFin 3600000"
    "d_div (DFin 3600000) (DFin 3600000) = DFin 1" by code_simp+
  have e5: "d_sub (DFin 5) (DFin 0) = DFin 5" using int_is_double [of 5] by (intro d_sub_zero) simp_all
  have "ct_max_power ?c = DFin 3600" "ct_change_ts ?c = 0"
    by (simp_all add: example_counter_def new_counter_def counter_opts_def)
  then have lim: "device_limit 1000 ?c = DFin 1" by (simp add: device_limit_def ms_per_hour_def e)
  then have l: "\<not> isnan (device_limit 1000 ?c)" by (simp add: isnan_def)
  have d: "\<not> d_le (device_delta (DFin 5) ?c) (device_limit 1000 ?c)"
    by (simp add: lim device_delta_def c2(6) e5 d_le_def)
  have "ct_last_read (fst (snd (device_update (DFin 5) 1000 ?c))) = DFin 5"
    using device_update_count(2) [of "DFin 5" ?c 1000] c2 by simp
  then have "fst (snd (device_update (DFin 5) 1000 ?c)) \<noteq> ?c" using c2(6) by auto
  then show ?thesis
    using plausibility_limit [OF c c2(1-4) l, of "fst (device_update (DFin 5) 1000 ?c)"
      "fst (snd (device_update (DFin 5) 1000 ?c))" "snd (snd (device_update (DFin 5) 1000 ?c))"] d c2(5)
    by simp
qed

subsection \<open>Power integration\<close>

lemma integrate_no_power: "\<not> ct_has_power c \<Longrightarrow> integrate now c = c"
  by (simp add: integrate_def)

lemma ticks_without_power:
  "\<not> ct_has_power c \<Longrightarrow> fst (counter_run self (map Thread_tick ts) c) = c"
proof (induction ts)
  case (Cons t ts)
  then show ?case
    by (simp only: list.map fst_counter_run_Cons) (simp add: counter_tick_def integrate_no_power)
qed simp

text \<open>
  An invalid source value stops integration: the held power is counted up to that moment, and
  nothing is counted from then until the next valid power value arrives, however much time passes
  and however often the thread ticks.
\<close>

theorem invalid_power_stops_integration:
  assumes "ct_integrate_power c" "\<not> ct_disabled c" "ct_initialized c"
  shows "ct_accum (fst (counter_run self
      ([Source_value t1 f False] @ map Thread_tick ts @ [Source_value t2 g True]) c)) =
    ct_accum (integrate t1 c)"
proof -
  let ?c1 = "fst (counter_step self (Source_value t1 f False) c)"
  have c1: "?c1 = power_stop t1 c"
    using assms by (simp add: source_update_def Let_def)
  then have np: "\<not> ct_has_power ?c1" by (simp add: power_stop_def)
  have "fst (counter_step self (Source_value t2 g True) ?c1) = power_update (d_mul g (ct_scale c)) t2 ?c1"
    using assms c1 by (simp add: source_update_def power_stop_def Let_def)
  then have "ct_accum (fst (counter_step self (Source_value t2 g True) ?c1)) = ct_accum ?c1"
    using assms(3) c1 np by (simp add: power_update_def power_stop_def integrate_no_power Let_def)
  moreover have "ct_accum ?c1 = ct_accum (integrate t1 c)" using c1 by (simp add: power_stop_def)
  moreover have "fst (counter_run self (Source_value t1 f False # map Thread_tick ts @ [Source_value t2 g True]) c) =
      fst (counter_step self (Source_value t2 g True) ?c1)"
    using ticks_without_power [OF np, of self ts]
    by (simp only: fst_counter_run_Cons fst_counter_run_append counter_run.simps(1) fst_conv)
  ultimately show ?thesis by simp
qed

theorem invalid_power_stops_integration_witness:
  "ct_accum (fst (counter_run 0 ([Source_value 5 (DFin 0) False] @ map Thread_tick [1000, 2000] @
      [Source_value 3000 (DFin 7) True])
      ((new_counter (counter_opts ''p''))\<lparr>ct_integrate_power := True, ct_initialized := True\<rparr>))) =
    ct_accum (integrate 5 ((new_counter (counter_opts ''p''))\<lparr>ct_integrate_power := True, ct_initialized := True\<rparr>))"
  by (rule invalid_power_stops_integration) (simp_all add: new_counter_def counter_opts_def)

text \<open>
  Only power of the configured sign is counted: a held power whose product with the sign is not
  positive leaves the total unchanged over any time, and a positive one adds the energy of the
  time since the last integration, which is then integrated up to now.
\<close>

theorem only_configured_sign_counts:
  assumes "ct_has_power c" "ct_integrated_ts c < now"
    and "pw = d_mul (ct_power c) (d_of_int (sign_int (ct_sign c)))"
  shows "ct_accum (integrate now c) =
    (if d_lt (DFin 0) pw
     then d_add (ct_accum c) (d_div (d_mul pw (d_of_int (now - ct_integrated_ts c))) ms_per_hour)
     else ct_accum c) \<and>
    ct_integrated_ts (integrate now c) = now \<and> integrate now (integrate now c) = integrate now c \<and>
    (ct_power c = DFin x \<and> is_double (DFin x) \<longrightarrow>
      d_lt (DFin 0) pw = (if ct_sign c = SIGN_NEGATIVE then x < 0 else 0 < x))"
proof -
  have one: "d_of_int 1 = DFin 1" "d_of_int (- 1) = DFin (- 1)"
    using d_of_int_exact [of 1] d_of_int_exact [of "- 1"] by simp_all
  have "d_lt (DFin 0) pw = (if ct_sign c = SIGN_NEGATIVE then x < 0 else 0 < x)"
    if "ct_power c = DFin x" "is_double (DFin x)"
    using that assms(3) one
    by (cases "ct_sign c") (auto simp: d_mul_finite is_double_DFin mk_dbl_exact mk_zero_def)
  then show ?thesis using assms by (simp add: integrate_def Let_def)
qed

theorem only_configured_sign_counts_witness:
  "ct_accum (integrate 100 ((new_counter (counter_opts ''p''))
      \<lparr>ct_has_power := True, ct_power := DFin 0, ct_sign := SIGN_NEGATIVE\<rparr>)) = DFin 0"
proof -
  have "is_double (DFin 0)" by (simp add: is_double_DFin)
  then show ?thesis
    using only_configured_sign_counts [of "(new_counter (counter_opts ''p''))
      \<lparr>ct_has_power := True, ct_power := DFin 0, ct_sign := SIGN_NEGATIVE\<rparr>" 100 _ 0, OF _ _ refl]
    by (simp add: new_counter_def)
qed

subsection \<open>State files\<close>

lemma fs_run_simps [simp]:
  "fs_run [] fs = fs" "fs_run (o1 # ops) fs = fs_run ops (fs_apply o1 fs)"
  by (simp_all add: fs_run_def)

text \<open>
  C6. Saving is atomic: whatever fails, and wherever a crash cuts the sequence of file operations
  off, the state file holds either its old content or the complete new one; only a reported
  success installs the new content, and every failure leaves the file and removes the temporary
  one.
\<close>

theorem save_is_atomic:
  assumes "save_state env name accum last_read = (ok, ops, l)"
  shows "fs_run (take n ops) fs name \<in> {fs name, Some (state_text accum last_read)} \<and>
    fs_run ops fs name = (if ok then Some (state_text accum last_read) else fs name) \<and>
    (se_open env \<longrightarrow> fs_run ops fs (name @ ''.tmp'') = None) \<and>
    ok = (se_open env \<and> se_write env \<and> se_close env \<and> se_rename env) \<and> (ok = (l = []))"
proof -
  have ne: "name @ ''.tmp'' \<noteq> name" "name \<noteq> name @ ''.tmp''" by simp_all
  show ?thesis
    using assms ne
    by (cases n rule: nat.exhaust; cases "n - 1"; cases "n - 2")
      (auto simp: save_state_def Let_def take_Cons' split: if_splits)
qed

theorem save_is_atomic_witness:
  "fs_run (take 1 [Fs_create ''c.tmp'', Fs_write ''c.tmp'' (state_text (DFin 1) (DFin 1)), Fs_rename ''c.tmp'' ''c''])
      [''c'' \<mapsto> ''0 0''] ''c'' \<in> {Some ''0 0'', Some (state_text (DFin 1) (DFin 1))}"
proof -
  have "save_state \<lparr>se_open = True, se_write = True, se_close = True, se_rename = True\<rparr> ''c'' (DFin 1) (DFin 1) =
      (True, [Fs_create ''c.tmp'', Fs_write ''c.tmp'' (state_text (DFin 1) (DFin 1)), Fs_rename ''c.tmp'' ''c''], [])"
    by (simp add: save_state_def Let_def)
  from save_is_atomic [OF this, of 1 "[''c'' \<mapsto> ''0 0'']"] show ?thesis by simp
qed

text \<open>
  C7. A counter whose state file cannot be read or parsed never silently resets the history: it
  is disabled, and then no source value or tick changes it or publishes anything, it is not
  published at startup, and no save touches a file for it.
\<close>

theorem broken_file_keeps_history:
  assumes "fs (ct_name c) = Some txt" "\<not> readable \<or> scan_state txt = None" "\<not> ct_dirty c"
    and "c' = fst (load_state readable fs c)"
  shows "counter_run self es c' = (c', []) \<and> counter_publish i [c'] = [] \<and>
    save_states [env] [c'] = ([c'], [], []) \<and> ct_accum c' = ct_accum c"
proof -
  have d: "c' = c\<lparr>ct_disabled := True\<rparr>" using assms(1,2,4) by (auto simp: load_state_def)
  have step: "counter_step self e c' = (c', [])" for e
    using d by (cases e) (simp_all add: source_update_def counter_tick_def)
  have "counter_run self es c' = (c', [])" by (induction es) (simp_all add: step del: counter_step.simps)
  then show ?thesis using assms(3) d by simp
qed

theorem broken_file_keeps_history_witness:
  "counter_run 0 [Source_value 1 (DFin 5) True, Thread_tick 2]
      (fst (load_state True [''c'' \<mapsto> ''garbage''] (new_counter (counter_opts ''c'')))) =
    (fst (load_state True [''c'' \<mapsto> ''garbage''] (new_counter (counter_opts ''c''))), [])"
proof -
  have "scan_state ''garbage'' = None" by code_simp
  then show ?thesis
    using broken_file_keeps_history [of "[''c'' \<mapsto> ''garbage'']" "new_counter (counter_opts ''c'')" "''garbage''"
      True _ 0 "[Source_value 1 (DFin 5) True, Thread_tick 2]", OF _ _ _ refl]
    by (simp add: new_counter_def counter_opts_def)
qed

lemma fmt_f_not_empty [simp]: "fmt_f p d \<noteq> []"
proof -
  obtain c cs where "fmt_fixed p (nat (rne (\<bar>rval d\<bar> * 10 ^ p))) = c # cs" using fmt_fixed_head by blast
  then show ?thesis by (simp add: fmt_f_def)
qed

lemma scan_lf_fmt:
  assumes "isfinite d" "rest = [] \<or> hd rest = CHR '' '' \<or> hd rest = CHR 0x0A"
  shows "scan_lf (fmt_f p d @ rest) = Some (mk_dbl (signbit d) (printed p d), rest)"
proof -
  have "\<not> starts_digit 10 rest" "take 1 rest \<noteq> ''.''" "\<not> ci_prefix ''x'' rest"
    "rest = [] \<or> hd rest \<notin> {CHR ''e'', CHR ''E''}"
    using assms(2)
    by (cases rest; auto simp: starts_digit_def digit_val_def ch_def ci_prefix_def to_lower_def)+
  then show ?thesis
    using strtod_fmt_f [OF assms(1), of rest p] by (simp add: scan_lf_def)
qed

lemma scan_lf_space: "scan_lf s = Some (v, p) \<Longrightarrow> length p \<le> length s \<Longrightarrow> scan_lf (CHR '' '' # s) = Some (v, p)"
  by (auto simp: scan_lf_def strtod_def Let_def c_isspace_def ch_def split: option.splits if_splits prod.splits)

lemma scan_state_text:
  assumes "isfinite a" "isfinite b"
  shows "scan_state (state_text a b) =
    Some (mk_dbl (signbit a) (printed 6 a), mk_dbl (signbit b) (printed 6 b))"
proof -
  have b: "scan_lf (CHR '' '' # fmt_f 6 b @ [CHR 0x0A]) = Some (mk_dbl (signbit b) (printed 6 b), [CHR 0x0A])"
    by (rule scan_lf_space [OF scan_lf_fmt [OF assms(2)]]) simp_all
  have "c_isspace (CHR 0x0A)" by (simp add: c_isspace_def ch_def)
  then show ?thesis
    using scan_lf_fmt [OF assms(1), of "CHR '' '' # fmt_f 6 b @ [CHR 0x0A]" 6] b
    by (simp add: scan_state_def state_text_def)
qed

lemma mk_dbl_self: "is_double d \<Longrightarrow> isfinite d \<Longrightarrow> mk_dbl (signbit d) (rval d) = d"
  by (auto simp: isfinite_cases is_double_DFin mk_dbl_exact mk_zero_def)

lemma finite_nonneg: "d_nonneg d \<Longrightarrow> isfinite d \<Longrightarrow> \<not> d_lt d (DFin 0)"
  by (auto simp: d_nonneg_cases d_lt_finite)

text \<open>
  C8. A restart keeps the state: a counter whose total and last reading are multiples of 1e-6 is
  read back from its saved file with exactly the same total and last reading, so that the
  unchanged reading of the device after the restart counts nothing.
\<close>

theorem restart_keeps_state:
  assumes "is_double a" "isfinite a" "d_nonneg a" "is_double b" "isfinite b" "d_nonneg b"
    and "rval a * 10 ^ 6 = of_int m" "rval b * 10 ^ 6 = of_int n"
    and "fs (ct_name c) = Some (state_text a b)"
    and "d = fst (load_state True fs c)"
  shows "ct_accum d = a \<and> ct_last_read d = b \<and> ct_initialized d \<and> ct_disabled d = ct_disabled c \<and>
    device_update b now d = (True, d, [])"
proof -
  have "scan_state (state_text a b) = Some (a, b)"
    using scan_state_text [OF assms(2,5)] printed_exact [OF assms(2,7)] printed_exact [OF assms(5,8)]
      mk_dbl_self [OF assms(1,2)] mk_dbl_self [OF assms(4,5)] by simp
  then have d: "d = c\<lparr>ct_accum := a, ct_last_read := b, ct_initialized := True\<rparr>"
    using assms finite_nonneg by (simp add: load_state_def)
  have "d_eq b b" using assms(5) by (simp add: d_eq_finite)
  then show ?thesis
    using d finite_nonneg [OF assms(6,5)] by (simp add: device_update_def)
qed

theorem restart_keeps_state_witness:
  "device_update (DFin 2) 7 (fst (load_state True [''c'' \<mapsto> state_text (DFin 5) (DFin 2)] (new_counter (counter_opts ''c'')))) =
    (True, fst (load_state True [''c'' \<mapsto> state_text (DFin 5) (DFin 2)] (new_counter (counter_opts ''c''))), [])"
  using restart_keeps_state [of "DFin 5" "DFin 2" 5000000 2000000
      "[''c'' \<mapsto> state_text (DFin 5) (DFin 2)]" "new_counter (counter_opts ''c'')" _ 7, OF _ _ _ _ _ _ _ _ _ refl]
    int_is_double [of 5] int_is_double [of 2]
  by (simp add: d_nonneg_cases new_counter_def counter_opts_def)

definition float_reading :: dbl where
  "float_reading = DFin (12345670166015625 / 10000000000000)"

lemma float_reading_saved:
  "printed 6 float_reading = 1234567017 / 1000000" "isfinite float_reading" "\<not> signbit float_reading"
  "\<not> d_lt float_reading (DFin 0)" "d_eq float_reading float_reading"
  "d_lt float_reading (mk_dbl False (1234567017 / 1000000))"
  "\<not> d_eq float_reading (mk_dbl False (1234567017 / 1000000))"
  "isfinite (mk_dbl False (1234567017 / 1000000))" "\<not> d_lt (mk_dbl False (1234567017 / 1000000)) (DFin 0)"
  "d_lt (DFin 2469) (d_add (mk_dbl False (1234567017 / 1000000)) float_reading)"
  by code_simp+

text \<open>
  A reading with more than six decimals can be saved larger than it is. After the restart the
  unchanged reading of the device then looks like a reset, and the whole reading is counted a
  second time: here a total of 1234.5670166015625 (a single precision reading) becomes
  2469.1340336015625 although the device did not count anything.
\<close>

theorem restart_counts_twice:
  "let x = float_reading;
       c = (new_counter (counter_opts ''c''))\<lparr>ct_accum := x, ct_last_read := x, ct_initialized := True\<rparr>;
       d = fst (load_state True [''c'' \<mapsto> state_text (ct_accum c) (ct_last_read c)] (new_counter (counter_opts ''c'')))
   in is_double x \<and> device_update x now c = (True, c, []) \<and>
      snd (snd (device_update x now d)) = [(LOG_INFO, ''source reset detected'')] \<and>
      d_lt (DFin 2469) (ct_accum (fst (snd (device_update x now d))))"
proof -
  let ?x = float_reading and ?n = "new_counter (counter_opts ''c'')"
  let ?y = "mk_dbl False (1234567017 / 1000000)"
  have sc: "scan_state (state_text ?x ?x) = Some (?y, ?y)"
    using scan_state_text [of ?x ?x] float_reading_saved(1-3) by simp
  have d: "fst (load_state True [''c'' \<mapsto> state_text ?x ?x] ?n) =
      ?n\<lparr>ct_accum := ?y, ct_last_read := ?y, ct_initialized := True\<rparr>"
    using sc float_reading_saved(8,9) by (simp add: load_state_def new_counter_def counter_opts_def)
  have "is_double ?x" by code_simp
  moreover have "\<not> ct_has_change ?n" by (simp add: new_counter_def)
  ultimately show ?thesis
    using float_reading_saved(4-7,10) by (simp add: d device_update_def)
qed

text \<open>
  The state file of a counter named \<open>x.tmp\<close> is the temporary file of the counter \<open>x\<close>: both names
  are allowed, and a save of \<open>x\<close> removes the saved state of \<open>x.tmp\<close>.
\<close>

theorem state_file_collision:
  "valid_name (Some ''x'') \<and> valid_name (Some ''x.tmp'') \<and>
   (save_state env ''x'' a b = (True, ops, l) \<longrightarrow> fs_run ops fs ''x.tmp'' = None)"
proof -
  have "valid_name (Some ''x'') \<and> valid_name (Some ''x.tmp'')" by code_simp
  moreover have "fs_run ops fs ''x.tmp'' = None" if "save_state env ''x'' a b = (True, ops, l)"
    using that by (auto simp: save_state_def Let_def split: if_splits)
  ultimately show ?thesis by blast
qed

theorem state_file_collision_witness:
  "fs_run [Fs_create ''x.tmp'', Fs_write ''x.tmp'' (state_text (DFin 1) (DFin 1)), Fs_rename ''x.tmp'' ''x'']
     [''x.tmp'' \<mapsto> ''7 7''] ''x.tmp'' = None"
proof -
  have "save_state \<lparr>se_open = True, se_write = True, se_close = True, se_rename = True\<rparr> ''x'' (DFin 1) (DFin 1) =
      (True, [Fs_create ''x.tmp'', Fs_write ''x.tmp'' (state_text (DFin 1) (DFin 1)), Fs_rename ''x.tmp'' ''x''], [])"
    by (simp add: save_state_def Let_def)
  with state_file_collision [of "\<lparr>se_open = True, se_write = True, se_close = True, se_rename = True\<rparr>" "DFin 1" "DFin 1"]
  show ?thesis by blast
qed

subsection \<open>Configuration\<close>

lemma counter_configure_one_Inr:
  assumes "counter_configure_one cfg self ds = Inr (c, ds')" "disps_ok ds"
  shows "disps_ok ds'" "produced_by ds' (ct_name c) (ct_disp c) (owner_str ''counter'' (ct_name c)) (Some (CounterRef self))"
    "\<not> produced ds (ct_name c) i" "produced_by ds n i owner val \<Longrightarrow> produced_by ds' n i owner val"
    "valid_name (Some (ct_name c)) \<and> d_lt (DFin 0) (ct_scale c) \<and> ct_source c \<noteq> ct_name c"
proof -
  define c0 where "c0 = new_counter cfg"
  obtain ds1 src where g1: "uvrgw_conf_get_dispatcher (ct_source c0) True ds = (ds1, src)" by force
  obtain ds2 own where g2: "uvrgw_conf_get_dispatcher (ct_name c0) False ds1 = (ds2, own)" by force
  obtain dp where sp: "uvrgw_conf_set_producer ''counter'' (ct_name c0) (Some (CounterRef self)) False (DFin 0) 0
      (ds2 ! own) = Inr dp"
    and c: "c = c0\<lparr>ct_src_disp := src, ct_disp := own\<rparr>"
    and ds': "ds' = (if ct_integrate_power c0
      then ds2[own := dp, src := uvrgw_conf_need_timeout ''counter'' (ct_name c0) (ds2[own := dp] ! src)]
      else ds2[own := dp])"
    and g: "valid_name (cc_title cfg)" "cc_source cfg \<noteq> None" "cc_title cfg \<noteq> cc_source cfg"
      "d_lt (DFin 0) (cc_scale cfg)"
    using assms(1) g1 g2 unfolding counter_configure_one_def c0_def [symmetric] Let_def
    by (auto split: if_splits sum.splits)
  have ok1: "disps_ok ds1" using get_dispatcher_ok [OF assms(2)] g1 by (metis fst_conv)
  note p = produce_name [OF ok1 g2 sp]
  have n: "ct_name c = ct_name c0" "ct_disp c = own" using c by simp_all
  show "disps_ok ds'" unfolding ds' using p(1) by (auto intro!: update_disps_ok)
  show "produced_by ds' (ct_name c) (ct_disp c) (owner_str ''counter'' (ct_name c)) (Some (CounterRef self))"
    unfolding ds' n using p(2) by (auto intro!: update_produced_by)
  show "\<not> produced ds (ct_name c) i"
    using p(3) get_dispatcher_produced_by [OF _ g1] n unfolding produced_def by fastforce
  show "produced_by ds n i owner val \<Longrightarrow> produced_by ds' n i owner val"
  proof -
    assume "produced_by ds n i owner val"
    then have "produced_by (ds2[own := dp]) n i owner val" using p(4) get_dispatcher_produced_by [OF _ g1] by blast
    then show "produced_by ds' n i owner val"
      unfolding ds' using update_produced_by [of "ds2[own := dp]" n i] by simp
  qed
  obtain t s where ts: "cc_title cfg = Some t" "cc_source cfg = Some s"
    using g(1,2) by (cases "cc_title cfg") auto
  then show "valid_name (Some (ct_name c)) \<and> d_lt (DFin 0) (ct_scale c) \<and> ct_source c \<noteq> ct_name c"
    using g c by (auto simp: c0_def new_counter_def)
qed

lemma configure_counters:
  assumes "config_childs counter_configure_one k cfgs ds = Inr (cs, ds')" "disps_ok ds"
  shows "disps_ok ds' \<and> (\<forall>n i owner val. produced_by ds n i owner val \<longrightarrow> produced_by ds' n i owner val) \<and>
    (\<forall>j < length cs. produced_by ds' (ct_name (cs ! j)) (ct_disp (cs ! j)) (owner_str ''counter'' (ct_name (cs ! j)))
      (Some (CounterRef (k + j)))) \<and>
    (\<forall>c \<in> set cs. (\<forall>i. \<not> produced ds (ct_name c) i) \<and> valid_name (Some (ct_name c)) \<and> d_lt (DFin 0) (ct_scale c)) \<and>
    distinct (map ct_name cs)"
  using assms
proof (induction cfgs arbitrary: k ds cs)
  case Nil
  then show ?case by simp
next
  case (Cons cfg cfgs)
  obtain c ds1 cs2 where s: "counter_configure_one cfg k ds = Inr (c, ds1)"
    "config_childs counter_configure_one (Suc k) cfgs ds1 = Inr (cs2, ds')" "cs = c # cs2"
    using Cons.prems(1) by (auto split: sum.splits)
  note one = counter_configure_one_Inr [OF s(1) Cons.prems(2)]
  note ih = Cons.IH [OF s(2) one(1)]
  have "produced ds1 (ct_name c) (ct_disp c)" using one(2) by (auto simp: produced_def)
  then have "ct_name c \<notin> set (map ct_name cs2)" using ih by fastforce
  moreover have "\<not> produced ds (ct_name c') i" if "c' \<in> set cs2" for c' i
    using that ih one(4) unfolding produced_def by blast
  moreover have "\<forall>n i owner val. produced_by ds n i owner val \<longrightarrow> produced_by ds' n i owner val" using ih one(4) by blast
  moreover have "produced_by ds' (ct_name (cs ! j)) (ct_disp (cs ! j)) (owner_str ''counter'' (ct_name (cs ! j)))
      (Some (CounterRef (k + j)))" if "j < length cs" for j
  proof (cases j)
    case 0
    then show ?thesis using ih one(2) s(3) by simp
  next
    case (Suc i)
    then show ?thesis using ih s(3) \<open>j < length cs\<close> by simp
  qed
  ultimately show ?case using ih one(3,5) s(3) by simp
qed

lemma find_counter_None: "find_counter cs n = None \<longleftrightarrow> n \<notin> ct_name ` set cs"
  by (induction cs) auto

text \<open>
  C9. An accepted configuration has well-formed counters: names are distinct and made of the allowed
  characters (so that they are file names inside the state directory), the scale is positive,
  every counter is the producer of its own name (the dispatcher of that name, at which the counter
  publishes, is owned by the module "counter" under the counter's name and has the counter itself as the
  producing value), and no counter has a counter as its source.
\<close>

theorem counter_configuration_sound:
  assumes "counter_configure cfgs ds = Inr (cs, ds')" "disps_ok ds"
  shows "length cs = length cfgs \<and> distinct (map ct_name cs) \<and>
    (\<forall>c \<in> set cs. list_all name_char (ct_name c) \<and> CHR ''/'' \<notin> set (ct_name c) \<and> ct_name c \<noteq> [] \<and>
      hd (ct_name c) \<noteq> CHR ''.'' \<and> d_lt (DFin 0) (ct_scale c) \<and>
      ct_source c \<notin> ct_name ` set cs) \<and>
    (\<forall>j < length cs. produced_by ds' (ct_name (cs ! j)) (ct_disp (cs ! j)) (owner_str ''counter'' (ct_name (cs ! j)))
      (Some (CounterRef j)))"
proof -
  have conf: "config_childs counter_configure_one 0 cfgs ds = Inr (cs, ds')"
    and src: "\<not> list_ex (\<lambda>c. find_counter cs (ct_source c) \<noteq> None) cs"
    using assms(1) by (auto simp: counter_configure_def split: sum.splits if_splits)
  have "\<not> name_char (CHR ''/'')" by (simp add: name_char_def ch_def)
  then have "list_all name_char n \<Longrightarrow> CHR ''/'' \<notin> set n" for n by (induction n) auto
  moreover have "\<forall>c \<in> set cs. ct_source c \<notin> ct_name ` set cs"
    using src unfolding list_ex_iff find_counter_None not_not by blast
  moreover note configure_counters [OF conf assms(2)] config_childs_length [OF conf]
  ultimately show ?thesis by simp
qed

theorem counter_configuration_sound_witness:
  "distinct (map ct_name (fst (projr (counter_configure
    [(counter_opts ''a'')\<lparr>cc_source := Some ''x''\<rparr>, (counter_opts ''b'')\<lparr>cc_source := Some ''x''\<rparr>] []))))"
proof -
  let ?c = "counter_configure
    [(counter_opts ''a'')\<lparr>cc_source := Some ''x''\<rparr>, (counter_opts ''b'')\<lparr>cc_source := Some ''x''\<rparr>] []"
  have "isl ?c = False" by code_simp
  then have "?c = Inr (fst (projr ?c), snd (projr ?c))" by (cases ?c) auto
  moreover have "disps_ok []" by (simp add: disps_ok_def)
  ultimately show ?thesis by (blast dest: counter_configuration_sound)
qed

end
