(* ===== verification/Rest.thy ===== *)
theory Rest
  imports Dispatch Config_Parse
begin

text \<open>
  The JSON polling of REST services (\<open>rest.c\<close>): configuration, the download with its incremental
  parsing, path lookup, the validity gate and the dispatch of the values found.

  libcurl and json-c are not part of the program. A transfer is what libcurl does in one call of
  \<open>curl_easy_perform\<close>: the chunks it hands to the write callback and its own result; it fails if the
  callback accepts less than a chunk. The tokener of json-c is the parameter \<open>tokener\<close>. A \<open>json_object\<close> is
  a tree of json-c's types; its null is the pointer NULL, which is also what a failed lookup gives. The
  members of an object have different keys. Allocation failure of libcurl and json-c is an argument,
  that of \<open>strdup\<close> is not modelled.
\<close>

subsection \<open>Data\<close>

record rest_val =
  rv_name :: string
  rv_path :: string
  rv_scale :: dbl
  rv_offset :: dbl
  rv_disp :: nat
  rv_missing :: bool

record rest_conn =
  rc_url :: string
  rc_interval :: int
  rc_timeout :: int
  rc_user :: "string option"
  rc_pwd :: "string option"
  rc_valid_if :: "string option"
  rc_invalid :: bool
  rc_get_failed :: bool
  rc_init_value :: dbl
  rc_stale_timeout :: int
  rc_values :: "rest_val list"
  rc_thread_running :: bool
  rc_next_poll :: ticks

record rest_val_cfg =
  rvc_title :: string
  rvc_path :: "string option"
  rvc_scale :: dbl
  rvc_offset :: dbl
  rvc_init_value :: "dbl option" \<comment> \<open>\<open>None\<close>: \<open>cfg_size\<close> is 0\<close>
  rvc_stale_timeout :: "int option"

record rest_cfg =
  rcc_url :: "string option"
  rcc_interval :: int
  rcc_timeout :: int
  rcc_user :: "string option"
  rcc_pwd :: "string option"
  rcc_valid_if :: "string option"
  rcc_init_value :: dbl
  rcc_stale_timeout :: int
  rcc_values :: "rest_val_cfg list"

definition json_val_opts :: "string \<Rightarrow> rest_val_cfg" where
  "json_val_opts title =
     \<lparr>rvc_title = title, rvc_path = None, rvc_scale = DFin 1, rvc_offset = DFin 0, rvc_init_value = None, rvc_stale_timeout = None\<rparr>"

definition json_opts :: rest_cfg where
  "json_opts =
     \<lparr>rcc_url = None, rcc_interval = 10000, rcc_timeout = 3000, rcc_user = None, rcc_pwd = None, rcc_valid_if = None,
      rcc_init_value = DFin 0, rcc_stale_timeout = 0, rcc_values = []\<rparr>"

datatype rest_error = UrlNotGiven | PollIntervalInvalid | TimeoutInvalid | PathNotGiven | RestConf conf_error

datatype json =
    JNull
  | JBool bool
  | JInt int
  | JDouble dbl
  | JString string
  | JArray "json list"
  | JObject "(string \<times> json) list"

subsection \<open>Configuration\<close>

definition rest_value_configure ::
  "rest_conn \<Rightarrow> nat \<Rightarrow> rest_val_cfg \<Rightarrow> nat \<Rightarrow> dnode list \<Rightarrow> rest_error + rest_val \<times> dnode list" where
  "rest_value_configure conn i cfg vi ds =
     (case rvc_path cfg of
        None \<Rightarrow> Inl PathNotGiven
      | Some path \<Rightarrow>
          let (ds1, d) = uvrgw_conf_get_dispatcher (rvc_title cfg) False ds in
          case uvrgw_conf_set_producer ''json'' (rc_url conn) (Some (JsonVal i vi)) True
              (given (rvc_init_value cfg) (rc_init_value conn)) (given (rvc_stale_timeout cfg) (rc_stale_timeout conn)) (ds1 ! d) of
            Inl e \<Rightarrow> Inl (RestConf e)
          | Inr dp \<Rightarrow>
              Inr (\<lparr>rv_name = rvc_title cfg, rv_path = path, rv_scale = rvc_scale cfg, rv_offset = rvc_offset cfg,
                    rv_disp = d, rv_missing = False\<rparr>, ds1[d := dp]))"

definition rest_conn_configure :: "rest_cfg \<Rightarrow> nat \<Rightarrow> dnode list \<Rightarrow> rest_error + rest_conn \<times> dnode list" where
  "rest_conn_configure cfg i ds =
     (case rcc_url cfg of
        None \<Rightarrow> Inl UrlNotGiven
      | Some url \<Rightarrow>
          if rcc_interval cfg \<le> 0 then Inl PollIntervalInvalid
          else if rcc_timeout cfg \<le> 0 then Inl TimeoutInvalid
          else let conn = \<lparr>rc_url = url, rc_interval = rcc_interval cfg, rc_timeout = rcc_timeout cfg, rc_user = rcc_user cfg,
              rc_pwd = rcc_pwd cfg, rc_valid_if = rcc_valid_if cfg, rc_invalid = False, rc_get_failed = False,
              rc_init_value = rcc_init_value cfg, rc_stale_timeout = rcc_stale_timeout cfg, rc_values = [],
              rc_thread_running = False, rc_next_poll = 0\<rparr>
            in case config_childs (rest_value_configure conn i) 0 (rcc_values cfg) ds of
                 Inl e \<Rightarrow> Inl e
               | Inr (vals, ds') \<Rightarrow> Inr (conn\<lparr>rc_values := vals\<rparr>, ds'))"

definition rest_configure :: "rest_cfg list \<Rightarrow> dnode list \<Rightarrow> rest_error + rest_conn list \<times> dnode list" where
  "rest_configure cfgs ds = config_childs rest_conn_configure 0 cfgs ds"

subsection \<open>Paths\<close>

definition parse_index :: "string \<Rightarrow> int" where
  "parse_index s =
     (let (v, p) = strtol 10 s; val = to_int v in
      if p \<noteq> [] then - 1 else if val < 0 then - 1 else val)"

text \<open>json-c: the element of an array, or the member of an object; NULL if there is none.\<close>

fun array_get_idx :: "json \<Rightarrow> int \<Rightarrow> json" where
  "array_get_idx (JArray xs) i = (if in_range i xs then xs ! nat i else JNull)"
| "array_get_idx doc i = JNull"

fun object_get_ex :: "json \<Rightarrow> string \<Rightarrow> json option" where
  "object_get_ex (JObject ms) key = map_of ms key"
| "object_get_ex doc key = None"

fun is_array :: "json \<Rightarrow> bool" where
  "is_array (JArray xs) = True"
| "is_array doc = False"

text \<open>\<open>strchr(path, '.')\<close>: what is before the first dot, and what follows it, if there is one.\<close>

definition split_path :: "string \<Rightarrow> string \<times> string option" where
  "split_path path =
     (let key = takeWhile (\<lambda>c. c \<noteq> CHR ''.'') path; rest = drop (length key) path in
      (key, if rest = [] then None else Some (drop 1 rest)))"

lemma split_path_shorter: "split_path path = (key, Some rest) \<Longrightarrow> length rest < length path"
  by (auto simp: split_path_def Let_def split: if_splits)

text \<open>\<open>json_path_lookup_recursive\<close>; the copy of the path in \<open>json_path_lookup\<close> is only for its writes.\<close>

function json_path_lookup :: "json \<Rightarrow> string \<Rightarrow> json" where
  "json_path_lookup doc path =
     (let (key, sep) = split_path path;
          val = (if is_array doc then
                   let i = parse_index key; v = array_get_idx doc i in
                   if i < 0 \<or> v = JNull then None else Some v
                 else object_get_ex doc key)
      in case val of
           None \<Rightarrow> JNull
         | Some v \<Rightarrow> (case sep of None \<Rightarrow> v | Some rest \<Rightarrow> json_path_lookup v rest))"
  by pat_completeness auto

termination json_path_lookup
  by (relation "measure (\<lambda>(_, path). length path)") (auto dest: split_path_shorter [OF sym])

declare json_path_lookup.simps [simp del]

definition get_int64 :: "int \<Rightarrow> int" where \<comment> \<open>\<open>json_object_get_int64\<close>: an integer beyond 64 bits is clamped\<close>
  "get_int64 z = long_clamp z"

definition json_is_valid :: "json \<Rightarrow> string \<Rightarrow> bool" where
  "json_is_valid json path =
     (case json_path_lookup json path of
        JBool b \<Rightarrow> b
      | JInt z \<Rightarrow> get_int64 z \<noteq> 0
      | JDouble f \<Rightarrow> \<not> d_eq f (DFin 0)
      | JString s \<Rightarrow> 0 < length s
      | _ \<Rightarrow> False)"

subsection \<open>Download\<close>

datatype tok_err = Tok_success | Tok_continue | Tok_error int

record 't tokener =
  tok_new :: 't
  tok_parse_ex :: "'t \<Rightarrow> char list \<Rightarrow> 't \<times> json \<times> tok_err"

record transfer =
  tr_curl :: bool \<comment> \<open>\<open>curl_easy_init\<close> succeeds\<close>
  tr_tok :: bool \<comment> \<open>\<open>json_tokener_new\<close> succeeds\<close>
  tr_chunks :: "char list list"
  tr_ok :: bool \<comment> \<open>\<open>CURLE_OK\<close>, if all chunks are accepted\<close>

record 't get_state =
  gs_get_failed :: bool \<comment> \<open>of the connection\<close>
  gs_tok :: 't
  gs_json :: json

text \<open>A failure is logged once until data is received again.\<close>

definition log_get :: "bool \<Rightarrow> bool \<Rightarrow> bool \<times> logmsg list" where
  "log_get ok get_failed =
     (\<not> ok, if ok = get_failed then [if ok then (LOG_INFO, ''data received again'') else (LOG_ERR, ''GET failed'')] else [])"

text \<open>The write callback: the number of bytes accepted.\<close>

definition rest_get_json_callback :: "'t tokener \<Rightarrow> char list \<Rightarrow> 't get_state \<Rightarrow> nat \<times> 't get_state \<times> logmsg list" where
  "rest_get_json_callback tk contents state =
     (if gs_json state \<noteq> JNull then (length contents, state, [])
      else let (t, json, err) = tok_parse_ex tk (gs_tok state) contents;
               state = state\<lparr>gs_tok := t, gs_json := json\<rparr>
        in if err \<noteq> Tok_continue \<and> err \<noteq> Tok_success then
             let (failed, msgs) = log_get False (gs_get_failed state) in (0, state\<lparr>gs_get_failed := failed\<rparr>, msgs)
           else (length contents, state, []))"

text \<open>\<open>curl_easy_perform\<close>: whether all chunks were accepted, and the state.\<close>

fun perform :: "'t tokener \<Rightarrow> char list list \<Rightarrow> 't get_state \<Rightarrow> bool \<times> 't get_state \<times> logmsg list" where
  "perform tk [] state = (True, state, [])"
| "perform tk (chunk # chunks) state =
     (let (n, state1, msgs1) = rest_get_json_callback tk chunk state in
      if n \<noteq> length chunk then (False, state1, msgs1)
      else let (ok, state2, msgs2) = perform tk chunks state1 in (ok, state2, msgs1 @ msgs2))"

fun is_object :: "json \<Rightarrow> bool" where
  "is_object (JObject ms) = True"
| "is_object json = False"

text \<open>The document (NULL if there is none), \<open>get_failed\<close>, and the messages.\<close>

definition rest_get_json :: "'t tokener \<Rightarrow> transfer \<Rightarrow> bool \<Rightarrow> json \<times> bool \<times> logmsg list" where
  "rest_get_json tk tr get_failed =
     (if \<not> tr_curl tr then (JNull, get_failed, [(LOG_ERR, ''no curl handle'')])
      else if \<not> tr_tok tr then (JNull, get_failed, [(LOG_ERR, ''no json tokener'')])
      else let (accepted, state, msgs) =
          perform tk (tr_chunks tr) \<lparr>gs_get_failed = get_failed, gs_tok = tok_new tk, gs_json = JNull\<rparr>
        in if \<not> (accepted \<and> tr_ok tr \<and> is_object (gs_json state)) then
             let (failed, more) = log_get False (gs_get_failed state) in (JNull, failed, msgs @ more)
           else (gs_json state, gs_get_failed state, msgs))"

subsection \<open>Polling\<close>

definition log_gate :: "bool \<Rightarrow> rest_conn \<Rightarrow> rest_conn \<times> logmsg list" where
  "log_gate ok conn =
     (conn\<lparr>rc_invalid := \<not> ok\<rparr>,
      if ok = rc_invalid conn then [if ok then (LOG_INFO, ''data valid again'') else (LOG_WARNING, ''data invalid'')] else [])"

definition log_found :: "bool \<Rightarrow> rest_val \<Rightarrow> rest_val \<times> logmsg list" where
  "log_found ok val =
     (val\<lparr>rv_missing := \<not> ok\<rparr>,
      if ok = rv_missing val then [if ok then (LOG_INFO, ''path found again'') else (LOG_WARNING, ''path not found'')] else [])"

text \<open>The number of a value; \<open>None\<close>: not found, or not a number.\<close>

definition json_number_of :: "rest_val \<Rightarrow> json \<Rightarrow> dbl option" where
  "json_number_of val json =
     (case json of
        JBool b \<Rightarrow> Some (if b then DFin 1 else DFin 0)
      | JInt z \<Rightarrow> Some (d_add (d_mul (d_of_int (get_int64 z)) (rv_scale val)) (rv_offset val))
      | JDouble f \<Rightarrow> Some (d_add (d_mul f (rv_scale val)) (rv_offset val))
      | _ \<Rightarrow> None)"

definition process_value :: "nat \<Rightarrow> json \<Rightarrow> nat \<Rightarrow> rest_val \<Rightarrow> rest_val \<times> disp_req list \<times> logmsg list" where
  "process_value i json vi val =
     (case json_number_of val (json_path_lookup json (rv_path val)) of
        None \<Rightarrow> let (val1, msgs) = log_found False val in (val1, [], msgs)
      | Some f \<Rightarrow>
          let (val1, msgs) = log_found True val in
          (val1, if isfinite f then [Disp (rv_disp val) (Some (JsonVal i vi)) f True] else [], msgs))"

fun process_values :: "nat \<Rightarrow> json \<Rightarrow> nat \<Rightarrow> rest_val list \<Rightarrow> rest_val list \<times> disp_req list \<times> logmsg list" where
  "process_values i json vi [] = ([], [], [])"
| "process_values i json vi (val # vals) =
     (let (val1, reqs1, msgs1) = process_value i json vi val;
          (vals2, reqs2, msgs2) = process_values i json (Suc vi) vals
      in (val1 # vals2, reqs1 @ reqs2, msgs1 @ msgs2))"

definition rest_conn_task ::
  "'t tokener \<Rightarrow> ticks \<Rightarrow> transfer \<Rightarrow> nat \<Rightarrow> rest_conn \<Rightarrow> rest_conn \<times> disp_req list \<times> logmsg list" where
  "rest_conn_task tk now tr i conn =
     (if now < rc_next_poll conn then (conn, [], [])
      else let
        (json, failed, msgs1) = rest_get_json tk tr (rc_get_failed conn);
        conn1 = conn\<lparr>rc_next_poll := now + rc_interval conn, rc_get_failed := failed\<rparr>
      in if json = JNull then (conn1, [], msgs1)
         else let
           (failed2, msgs2) = log_get True failed;
           conn2 = conn1\<lparr>rc_get_failed := failed2\<rparr>;
           gate = (case rc_valid_if conn of None \<Rightarrow> True | Some path \<Rightarrow> json_is_valid json path);
           (conn3, msgs3) = (if rc_valid_if conn = None then (conn2, []) else log_gate gate conn2)
         in if \<not> gate then (conn3, [], msgs1 @ msgs2 @ msgs3)
            else let (vals, reqs, msgs4) = process_values i json 0 (rc_values conn)
              in (conn3\<lparr>rc_values := vals\<rparr>, reqs, msgs1 @ msgs2 @ msgs3 @ msgs4))"

interpretation rest_get_log: edge_logger "\<lambda>failed. failed" log_get
  by unfold_locales (auto simp: log_get_def)

interpretation rest_gate_log: edge_logger rc_invalid log_gate
  by unfold_locales (auto simp: log_gate_def)

interpretation rest_found_log: edge_logger rv_missing log_found
  by unfold_locales (auto simp: log_found_def)

subsection \<open>The threads\<close>

datatype rest_call = Curl_global_init | Curl_global_cleanup | Conn_thread_create nat | Conn_thread_join nat

definition rest_shutdown :: "rest_conn list \<Rightarrow> rest_conn list \<times> rest_call list" where
  "rest_shutdown conns =
     (map (\<lambda>conn. conn\<lparr>rc_thread_running := False\<rparr>) conns,
      concat (map (\<lambda>(i, conn). if rc_thread_running conn then [Conn_thread_join i] else []) (enum 0 conns)) @ [Curl_global_cleanup])"

fun start_threads :: "(rest_call \<Rightarrow> bool) \<Rightarrow> nat \<Rightarrow> rest_conn list \<Rightarrow> bool \<times> rest_conn list \<times> rest_call list" where
  "start_threads ok i [] = (True, [], [])"
| "start_threads ok i (conn # conns) =
     (if \<not> ok (Conn_thread_create i) then (False, conn\<lparr>rc_thread_running := False\<rparr> # conns, [Conn_thread_create i])
      else let (all, conns1, calls) = start_threads ok (Suc i) conns
        in (all, conn\<lparr>rc_thread_running := True\<rparr> # conns1, Conn_thread_create i # calls))"

definition rest_startup :: "(rest_call \<Rightarrow> bool) \<Rightarrow> rest_conn list \<Rightarrow> bool \<times> rest_conn list \<times> rest_call list" where
  "rest_startup ok conns =
     (if \<not> ok Curl_global_init then (False, conns, [Curl_global_init])
      else let (started, conns1, calls) = start_threads ok 0 conns in
        if started then (True, conns1, Curl_global_init # calls)
        else let (conns2, more) = rest_shutdown conns1 in (False, conns2, Curl_global_init # calls @ more))"

subsection \<open>Lookup is descent\<close>

text \<open>One step: the element or member with a key; NULL if there is none.\<close>

definition child :: "json \<Rightarrow> string \<Rightarrow> json" where
  "child doc key =
     (case doc of
        JArray xs \<Rightarrow> (if in_range (parse_index key) xs then xs ! nat (parse_index key) else JNull)
      | JObject ms \<Rightarrow> (case map_of ms key of None \<Rightarrow> JNull | Some v \<Rightarrow> v)
      | _ \<Rightarrow> JNull)"

text \<open>Keys written with dots between them.\<close>

fun dotted :: "string list \<Rightarrow> string" where
  "dotted [] = []"
| "dotted [key] = key"
| "dotted (key # keys) = key @ CHR ''.'' # dotted keys"

lemma child_JNull [simp]: "child JNull key = JNull"
  by (simp add: child_def)

lemma foldl_child_JNull [simp]: "foldl child JNull keys = JNull"
  by (induction keys) simp_all

lemma takeWhile_key: "CHR ''.'' \<notin> set key \<Longrightarrow> takeWhile (\<lambda>c. c \<noteq> CHR ''.'') key = key"
  by (induction key) auto

lemma split_path_key: "CHR ''.'' \<notin> set key \<Longrightarrow> split_path key = (key, None)"
  by (simp add: split_path_def takeWhile_key Let_def)

lemma split_path_dot: "CHR ''.'' \<notin> set key \<Longrightarrow> split_path (key @ CHR ''.'' # rest) = (key, Some rest)"
proof -
  assume k: "CHR ''.'' \<notin> set key"
  have "takeWhile (\<lambda>c. c \<noteq> CHR ''.'') (key @ CHR ''.'' # rest) = key"
    using k by (subst takeWhile_append2) auto
  then show ?thesis by (simp add: split_path_def Let_def)
qed

lemma lookup_step:
  assumes "split_path path = (key, sep)"
  shows "json_path_lookup doc path = (case sep of None \<Rightarrow> child doc key | Some rest \<Rightarrow> json_path_lookup (child doc key) rest)"
proof -
  have n: "json_path_lookup JNull p = JNull" for p
    by (subst json_path_lookup.simps) (simp add: case_prod_beta)
  have i: "in_range i xs \<Longrightarrow> \<not> i < 0" for i and xs :: "json list" by (simp add: in_range_def)
  show ?thesis
    by (subst json_path_lookup.simps) (cases doc; auto simp: assms child_def Let_def n dest: i split: option.split)
qed

lemma json_path_lookup_dotted:
  "keys \<noteq> [] \<Longrightarrow> \<forall>key \<in> set keys. CHR ''.'' \<notin> set key \<Longrightarrow> json_path_lookup doc (dotted keys) = foldl child doc keys"
proof (induction keys arbitrary: doc rule: dotted.induct)
  case (2 key)
  then show ?case by (simp add: lookup_step [OF split_path_key])
next
  case (3 key key' keys)
  then show ?case by (simp add: lookup_step [OF split_path_dot])
qed simp

lemma parse_index_dec: "n < 2 ^ 31 \<Longrightarrow> parse_index (dec n) = int n"
  using strtol_dec [of "[]" n] to_int_id [of "int n"] by (simp add: parse_index_def starts_digit_def)

text \<open>
  Path lookup is stepwise descent from the root, for every document: the path of the keys
  \<open>k1\<close>, ..., \<open>kn\<close> leads through the members or elements with these keys to the value, and to NULL as soon as
  one is missing; a decimal number is the index of an element.
\<close>

theorem path_lookup_descends:
  assumes "keys \<noteq> []" "\<forall>key \<in> set keys. CHR ''.'' \<notin> set key" "n < length xs" "length xs < 2 ^ 31"
  shows "json_path_lookup doc (dotted keys) = foldl child doc keys \<and> child (JArray xs) (dec n) = xs ! n"
  using json_path_lookup_dotted [OF assms(1,2)] parse_index_dec [of n] assms(3,4) by (simp add: child_def in_range_def)

theorem path_lookup_descends_witness:
  "json_path_lookup (JObject [(''a'', JArray [JNull, JInt 7])]) (dotted [''a'', ''1'']) = JInt 7 \<and>
   child (JArray [JInt 5]) (dec 0) = [JInt 5] ! 0"
proof -
  have "foldl child (JObject [(''a'', JArray [JNull, JInt 7])]) [''a'', ''1''] = JInt 7" by code_simp
  then show ?thesis
    using path_lookup_descends [of "[''a'', ''1'']" 0 "[JInt 5]" "JObject [(''a'', JArray [JNull, JInt 7])]"] by simp
qed

subsection \<open>What a poll dispatches\<close>

lemma process_values_requests:
  assumes "process_values i json k vals = (vals', reqs, msgs)" "r \<in> set reqs"
  shows "\<exists>m f. m < length vals \<and> r = Disp (rv_disp (vals ! m)) (Some (JsonVal i (k + m))) f True \<and> isfinite f \<and>
    json_number_of (vals ! m) (json_path_lookup json (rv_path (vals ! m))) = Some f"
  using assms
proof (induction vals arbitrary: k vals' reqs msgs)
  case (Cons val vals)
  obtain val1 reqs1 msgs1 where a: "process_value i json k val = (val1, reqs1, msgs1)" by (metis prod_cases3)
  obtain vals2 reqs2 msgs2 where b: "process_values i json (Suc k) vals = (vals2, reqs2, msgs2)" by (metis prod_cases3)
  have "r \<in> set reqs1 \<or> r \<in> set reqs2" using Cons.prems a b by auto
  then show ?case
  proof
    assume "r \<in> set reqs1"
    then show ?thesis
      using a by (intro exI [of _ 0]) (auto simp: process_value_def case_prod_beta split: option.splits if_splits)
  next
    assume "r \<in> set reqs2"
    then obtain m f where "m < length vals" "r = Disp (rv_disp (vals ! m)) (Some (JsonVal i (Suc k + m))) f True" "isfinite f"
      "json_number_of (vals ! m) (json_path_lookup json (rv_path (vals ! m))) = Some f"
      using Cons.IH [OF b] by blast
    then show ?thesis by (intro exI [of _ "Suc m"] exI [of _ f]) simp
  qed
qed simp

lemma rest_get_json_object:
  assumes "rest_get_json tk tr failed = (json, failed', msgs)" "json \<noteq> JNull"
  shows "tr_ok tr" "is_object json"
    "fst (perform tk (tr_chunks tr) \<lparr>gs_get_failed = failed, gs_tok = tok_new tk, gs_json = JNull\<rparr>)"
    "gs_json (fst (snd (perform tk (tr_chunks tr) \<lparr>gs_get_failed = failed, gs_tok = tok_new tk, gs_json = JNull\<rparr>))) = json"
  using assms by (auto simp: rest_get_json_def case_prod_beta split: if_splits)

text \<open>
  C35. A poll dispatches only what a complete and valid answer says: the poll was due, the transfer
  succeeded and every chunk was accepted, the parser's result is a JSON object, and the validity gate (if
  there is one) is open; every dispatched number is finite and is that of a value's path in this
  object. Otherwise nothing is dispatched.
\<close>

theorem poll_dispatches_valid_data:
  assumes "rest_conn_task tk now tr i conn = (conn', reqs, msgs)" "r \<in> set reqs"
  shows "rc_next_poll conn \<le> now \<and> tr_ok tr \<and> (\<exists>json m f.
      perform tk (tr_chunks tr) \<lparr>gs_get_failed = rc_get_failed conn, gs_tok = tok_new tk, gs_json = JNull\<rparr> \<in>
        {(True, st, ms) | st ms. gs_json st = json} \<and> is_object json \<and>
      (case rc_valid_if conn of None \<Rightarrow> True | Some path \<Rightarrow> json_is_valid json path) \<and>
      m < length (rc_values conn) \<and> isfinite f \<and>
      r = Disp (rv_disp (rc_values conn ! m)) (Some (JsonVal i m)) f True \<and>
      json_number_of (rc_values conn ! m) (json_path_lookup json (rv_path (rc_values conn ! m))) = Some f)"
proof -
  obtain json failed ms where g: "rest_get_json tk tr (rc_get_failed conn) = (json, failed, ms)" by (metis prod_cases3)
  have c: "rc_next_poll conn \<le> now" "json \<noteq> JNull" "case rc_valid_if conn of None \<Rightarrow> True | Some path \<Rightarrow> json_is_valid json path"
    "reqs = fst (snd (process_values i json 0 (rc_values conn)))"
    using assms g by (auto simp: rest_conn_task_def Let_def case_prod_beta split: if_splits option.splits)
  note o = rest_get_json_object [OF g c(2)]
  obtain vals2 ms2 where p: "process_values i json 0 (rc_values conn) = (vals2, reqs, ms2)"
    using c(4) by (metis prod.collapse)
  obtain m f where "m < length (rc_values conn)" "isfinite f"
    "r = Disp (rv_disp (rc_values conn ! m)) (Some (JsonVal i m)) f True"
    "json_number_of (rc_values conn ! m) (json_path_lookup json (rv_path (rc_values conn ! m))) = Some f"
    using process_values_requests [OF p assms(2)] by auto
  moreover obtain st ms3 where "perform tk (tr_chunks tr) \<lparr>gs_get_failed = rc_get_failed conn, gs_tok = tok_new tk, gs_json = JNull\<rparr> =
      (True, st, ms3)" "gs_json st = json" using o(3,4) by (metis prod.collapse)
  ultimately show ?thesis using c(1,3) o(1,2) by blast
qed

text \<open>A tokener that knows one document, and a connection.\<close>

definition example_tokener :: "unit tokener" where
  "example_tokener = \<lparr>tok_new = (), tok_parse_ex = (\<lambda>t s. ((), JObject [(''p'', JInt 21)], Tok_success))\<rparr>"

definition example_rest :: rest_conn where
  "example_rest = fst (projr (rest_conn_configure (json_opts\<lparr>rcc_url := Some ''u'',
     rcc_values := [(json_val_opts ''power'')\<lparr>rvc_path := Some ''p'', rvc_scale := DFin 2\<rparr>]\<rparr>) 0 []))"

definition example_transfer :: transfer where
  "example_transfer = \<lparr>tr_curl = True, tr_tok = True, tr_chunks = [''x''], tr_ok = True\<rparr>"

theorem poll_dispatches_valid_data_witness:
  "\<exists>m f. m < length (rc_values example_rest) \<and> isfinite f \<and>
    Disp 0 (Some (JsonVal 0 0)) (DFin 42) True = Disp (rv_disp (rc_values example_rest ! m)) (Some (JsonVal 0 m)) f True"
proof -
  obtain conn' reqs msgs where t: "rest_conn_task example_tokener 5 example_transfer 0 example_rest = (conn', reqs, msgs)"
    by (metis prod_cases3)
  have "fst (snd (rest_conn_task example_tokener 5 example_transfer 0 example_rest)) = [Disp 0 (Some (JsonVal 0 0)) (DFin 42) True]"
    by code_simp
  then have "Disp 0 (Some (JsonVal 0 0)) (DFin 42) True \<in> set reqs" using t by simp
  from poll_dispatches_valid_data [OF t this] show ?thesis by blast
qed

subsection \<open>The poll rate\<close>

text \<open>The times at which the service is asked, when the thread calls \<open>conn_task\<close> at the times of a list.\<close>

fun rest_polls :: "'t tokener \<Rightarrow> nat \<Rightarrow> (ticks \<times> transfer) list \<Rightarrow> rest_conn \<Rightarrow> ticks list" where
  "rest_polls tk i [] conn = []"
| "rest_polls tk i ((now, tr) # calls) conn =
     (if rc_next_poll conn \<le> now then [now] else []) @ rest_polls tk i calls (fst (rest_conn_task tk now tr i conn))"

lemma rest_conn_task_schedule:
  "rc_interval (fst (rest_conn_task tk now tr i conn)) = rc_interval conn"
  "rc_next_poll (fst (rest_conn_task tk now tr i conn)) =
    (if rc_next_poll conn \<le> now then now + rc_interval conn else rc_next_poll conn)"
  by (auto simp: rest_conn_task_def log_gate_def Let_def case_prod_beta split: if_splits option.splits)

lemma rest_polls_after: "0 < rc_interval conn \<Longrightarrow> t \<in> set (rest_polls tk i calls conn) \<Longrightarrow> rc_next_poll conn \<le> t"
proof (induction calls arbitrary: conn)
  case (Cons c calls)
  obtain now tr where c: "c = (now, tr)" by force
  then show ?case
    using Cons.IH [of "fst (rest_conn_task tk now tr i conn)"] Cons.prems
    by (auto simp: rest_conn_task_schedule split: if_splits)
qed simp

text \<open>
  The service is asked at most once per interval, also while it fails: two requests are at least
  the interval apart, whatever the times at which the thread runs and whatever the transfers give.
\<close>

theorem poll_rate_bounded:
  assumes "0 < rc_interval conn"
  shows "sorted_wrt (\<lambda>s t. s + rc_interval conn \<le> t) (rest_polls tk i calls conn)"
  using assms
proof (induction calls arbitrary: conn)
  case (Cons c calls)
  obtain now tr where c: "c = (now, tr)" by force
  let ?conn = "fst (rest_conn_task tk now tr i conn)"
  have "sorted_wrt (\<lambda>s t. s + rc_interval conn \<le> t) (rest_polls tk i calls ?conn)"
    using Cons.IH [of ?conn] Cons.prems by (simp add: rest_conn_task_schedule)
  moreover have "rc_next_poll conn \<le> now \<Longrightarrow> \<forall>t \<in> set (rest_polls tk i calls ?conn). now + rc_interval conn \<le> t"
    using rest_polls_after [of ?conn] Cons.prems by (auto simp: rest_conn_task_schedule)
  ultimately show ?case by (simp add: c)
qed simp

theorem poll_rate_bounded_witness:
  "sorted_wrt (\<lambda>s t. s + rc_interval example_rest \<le> t)
    (rest_polls example_tokener 0 [(0, example_transfer), (100, example_transfer), (12000, example_transfer)] example_rest)"
proof -
  have "0 < rc_interval example_rest" by code_simp
  then show ?thesis by (rule poll_rate_bounded)
qed

end
