(* ===== verification/Conf_Load.thy ===== *)
theory Conf_Load
  imports Slots Counter Can Modbus Eval_Config Mqtt Rest Sunspec
begin

text \<open>
  Loading the configuration (\<open>uvrgw_conf_load\<close>): the modules in their order, the check of the dispatchers
  and the registration of the outputs, with the contract of every module and what it gives for the
  whole: the slots that configuration reserves are exactly those that registration fills.

  The file is read by libconfuse; \<open>conf\<close> is what it gives. A failed load leaves nothing configured; that
  memory is freed is not modelled.
\<close>

subsection \<open>Loading\<close>

record conf =
  wc_state_dir :: "string option"
  wc_can :: "can_iface_cfg list"
  wc_rtu :: "mb_master_cfg list"
  wc_tcp :: "mb_master_cfg list"
  wc_mqtt :: "mqtt_cfg list"
  wc_json :: "rest_cfg list"
  wc_sunspec :: "server_cfg list"
  wc_counter :: "counter_cfg list"
  wc_eval :: "eval_cfg list"

record gateway =
  gw_state_dir :: string
  gw_can :: "can_iface list"
  gw_rtu :: "mb_master list"
  gw_tcp :: "mb_master list"
  gw_mqtt :: "mqtt_conn list"
  gw_rest :: "rest_conn list"
  gw_sunspec :: "server list"
  gw_counters :: "counter list"
  gw_evals :: "eval list"
  gw_disp :: "dnode list"

datatype load_error =
    Load_can can_error | Load_mb mb_error | Load_mqtt mqtt_error | Load_rest rest_error
  | Load_sunspec sunspec_error | Load_counter counter_error | Load_eval "eval_error option"
  | Load_dispatchers conf_error | Load_register conf_error

text \<open>One step that may fail, and what follows if it does not.\<close>

fun attempt :: "('e \<Rightarrow> 'f) \<Rightarrow> 'e + 'a \<Rightarrow> ('a \<Rightarrow> 'f + 'b) \<Rightarrow> 'f + 'b" where
  "attempt err (Inl e) k = Inl (err e)"
| "attempt err (Inr x) k = k x"

text \<open>The state directory: the option, else \<open>getenv("STATE_DIRECTORY")\<close>, else the default.\<close>

definition state_dir_of :: "string option \<Rightarrow> string option \<Rightarrow> string" where
  "state_dir_of opt env =
     (case opt of Some d \<Rightarrow> d | None \<Rightarrow> (case env of Some d \<Rightarrow> d | None \<Rightarrow> ''/var/lib/uvrgw''))"

text \<open>\<open>Inl None\<close>: \<open>eval_configure\<close> has no result within its fuel.\<close>

definition eval_configured :: "c_env \<Rightarrow> eval_cfg list \<Rightarrow> dnode list \<Rightarrow> eval_error option + eval list \<times> dnode list" where
  "eval_configured m cfgs ds =
     (case eval_configure m cfgs ds of None \<Rightarrow> Inl None | Some (Inl e) \<Rightarrow> Inl (Some e) | Some (Inr r) \<Rightarrow> Inr r)"

definition mb_configured ::
  "mb_master_cfg list \<times> mb_master_cfg list \<Rightarrow> dnode list \<Rightarrow> mb_error + (mb_master list \<times> mb_master list) \<times> dnode list" where
  "mb_configured cfgs ds =
     (case mb_configure (fst cfgs) (snd cfgs) ds of Inl e \<Rightarrow> Inl e | Inr (rtus, tcps, ds') \<Rightarrow> Inr ((rtus, tcps), ds'))"

definition register_disp_cbs :: "gateway \<Rightarrow> dnode list \<Rightarrow> conf_error + dnode list" where
  "register_disp_cbs g ds =
     attempt id (can_register_disp_cbs (gw_can g) ds) (\<lambda>ds.
     attempt id (mb_register_disp_cbs (gw_rtu g) (gw_tcp g) ds) (\<lambda>ds.
     attempt id (mqtt_register_disp_cbs (gw_mqtt g) ds) (\<lambda>ds.
     attempt id (counter_register_disp_cbs 0 (gw_counters g) ds) (\<lambda>ds.
     eval_register_disp_cbs (gw_evals g) ds))))"

definition uvrgw_conf_load :: "c_env \<Rightarrow> string option \<Rightarrow> conf \<Rightarrow> load_error + gateway" where
  "uvrgw_conf_load m env c =
     attempt Load_can (can_configure (wc_can c) []) (\<lambda>(cans, ds).
     attempt Load_mb (mb_configured (wc_rtu c, wc_tcp c) ds) (\<lambda>((rtus, tcps), ds).
     attempt Load_mqtt (mqtt_configure (wc_mqtt c) ds) (\<lambda>(mqtts, ds).
     attempt Load_rest (rest_configure (wc_json c) ds) (\<lambda>(rests, ds).
     attempt Load_sunspec (sunspec_configure (wc_sunspec c) ds) (\<lambda>(suns, ds).
     attempt Load_counter (counter_configure (wc_counter c) ds) (\<lambda>(counters, ds).
     attempt Load_eval (eval_configured m (wc_eval c) ds) (\<lambda>(evals, ds).
       case check_dispatchers ds of
         Some e \<Rightarrow> Inl (Load_dispatchers e)
       | None \<Rightarrow>
           let g = \<lparr>gw_state_dir = state_dir_of (wc_state_dir c) env, gw_can = cans, gw_rtu = rtus, gw_tcp = tcps,
             gw_mqtt = mqtts, gw_rest = rests, gw_sunspec = suns, gw_counters = counters, gw_evals = evals, gw_disp = []\<rparr>
           in attempt Load_register (register_disp_cbs g (init_dispatcher ds)) (\<lambda>ds. Inr (g\<lparr>gw_disp := ds\<rparr>)))))))))"

text \<open>
  What reading the file gives (\<open>None\<close>: no parser). A load that fails, early or late, leaves nothing configured
  (\<open>uvrgw_conf_cleanup\<close>); the messages of the modules are not modelled.
\<close>

datatype cfg_result = Cfg_success conf | Cfg_file_error | Cfg_parse_error | Cfg_other_error

definition uvrgw_conf_load_file :: "c_env \<Rightarrow> string option \<Rightarrow> cfg_result option \<Rightarrow> gateway option \<times> logmsg list" where
  "uvrgw_conf_load_file m env parsed =
     (case parsed of
        None \<Rightarrow> (None, [(LOG_ERR, ''Failed to create config file parser'')])
      | Some Cfg_file_error \<Rightarrow> (None, [(LOG_ERR, ''Failed to open config file'')])
      | Some Cfg_parse_error \<Rightarrow> (None, [(LOG_ERR, ''Failed to parse config file'')])
      | Some Cfg_other_error \<Rightarrow> (None, [(LOG_ERR, ''Unknown error on loading config file'')])
      | Some (Cfg_success c) \<Rightarrow> ((case uvrgw_conf_load m env c of Inl e \<Rightarrow> None | Inr g \<Rightarrow> Some g), []))"

subsection \<open>Outputs by dispatcher\<close>

lemma enum_outs:
  "(\<And>i x. map snd (g i x) = h x) \<Longrightarrow> map snd (concat (map (\<lambda>(i, x). g i x) (enum k xs))) = concat (map h xs)"
  by (induction xs arbitrary: k) simp_all

lemma upt_outs:
  "(\<And>i. i < length xs \<Longrightarrow> map snd (g i) = h (xs ! i)) \<Longrightarrow> map snd (concat (map g [0..<length xs])) = concat (map h xs)"
proof -
  assume g: "\<And>i. i < length xs \<Longrightarrow> map snd (g i) = h (xs ! i)"
  have "map snd (concat (map g [0..<length xs])) = concat (map (\<lambda>i. map snd (g i)) [0..<length xs])"
    by (simp add: map_concat o_def)
  also have "map (\<lambda>i. map snd (g i)) [0..<length xs] = map h xs"
    by (rule nth_equalityI) (simp_all add: g)
  finally show ?thesis .
qed

definition can_outs :: "can_iface \<Rightarrow> nat list" where
  "can_outs iface = concat (map (\<lambda>fr. if cf_dir fr = DIR_OUT then map cv_disp (cf_values fr) else []) (ci_frames iface))"

lemma can_outputs_outs: "map snd (can_outputs ifaces) = concat (map can_outs ifaces)"
proof -
  have e: "map snd (map (\<lambda>(vi, val). (CanVal i fi vi, cv_disp val)) (enum k vs)) = map cv_disp vs" for i fi k vs
    by (induction vs arbitrary: k) simp_all
  show ?thesis unfolding can_outputs_def can_outs_def by (intro enum_outs) (simp only: if_distrib [of "map snd"] e list.map)
qed

definition mb_slave_outs :: "mb_slave \<Rightarrow> nat list" where
  "mb_slave_outs sl = concat (map (\<lambda>b. if bl_dir b = DIR_OUT then map mv_disp (bl_values b) else []) (sl_blocks sl))"

lemma mb_outputs_outs: "map snd (mb_outputs tcp mi ma) = concat (map mb_slave_outs (ma_slaves ma))"
  unfolding mb_outputs_def
proof (rule upt_outs)
  fix si
  let ?bs = "sl_blocks (ma_slaves ma ! si)"
  have v: "map snd (concat (map (\<lambda>vi. if bl_dir b = DIR_OUT then [(MbVal tcp mi si bi vi, mv_disp (bl_values b ! vi))] else [])
      [0..<length (bl_values b)])) = (if bl_dir b = DIR_OUT then map mv_disp (bl_values b) else [])" for b bi
    using upt_outs [of "bl_values b" "\<lambda>vi. if bl_dir b = DIR_OUT then [(MbVal tcp mi si bi vi, mv_disp (bl_values b ! vi))] else []"
      "\<lambda>v. if bl_dir b = DIR_OUT then [mv_disp v] else []"] by (cases "bl_dir b = DIR_OUT") simp_all
  show "map snd (concat (map (\<lambda>bi. concat (map (\<lambda>vi. if bl_dir (?bs ! bi) = DIR_OUT
      then [(MbVal tcp mi si bi vi, mv_disp (bl_values (?bs ! bi) ! vi))] else []) [0..<length (bl_values (?bs ! bi))]))
      [0..<length ?bs])) = mb_slave_outs (ma_slaves ma ! si)"
    unfolding mb_slave_outs_def by (rule upt_outs) (rule v)
qed

definition mqtt_outs :: "mqtt_conn \<Rightarrow> nat list" where
  "mqtt_outs conn = concat (map (\<lambda>val. if mqv_dir val = DIR_OUT then [mqv_disp val] else []) (mc_values conn))"

lemma mqtt_outputs_outs: "map snd (mqtt_outputs conns) = concat (map mqtt_outs conns)"
  unfolding mqtt_outputs_def mqtt_outs_def by (intro enum_outs) simp

subsection \<open>What each module reserves\<close>

lemma can_value_adds:
  assumes "can_value_configure iface i fi dir cfg vi st = Inr (val, st')"
  shows "adds (fst st) (if dir = DIR_OUT then [cv_disp val] else []) (fst st')"
proof -
  obtain ds dlc ds' dlc' where st: "st = (ds, dlc)" "st' = (ds', dlc')" by (metis prod.exhaust)
  obtain ds1 d where g: "uvrgw_conf_get_dispatcher (cvc_title cfg) (dir = DIR_OUT) ds = (ds1, d)" by force
  have "cv_disp val = d" "adds ds (if dir = DIR_OUT then [d] else []) ds'"
    using assms adds_get [OF g] unfolding st can_value_configure_def Let_def prod.case g
    by (auto split: option.splits if_splits sum.splits dest: adds_produce [OF g])
  then show ?thesis using st by (simp split: if_split_asm)
qed

lemma can_adds: "can_configure cfgs ds = Inr (ifaces, ds') \<Longrightarrow> adds ds (map snd (can_outputs ifaces)) ds'"
  unfolding can_outputs_outs can_configure_def
proof (erule config_childs_adds [where \<pi> = "\<lambda>x. x"])
  fix c j d iface d'
  assume "can_iface_configure c j d = Inr (iface, d')"
  then obtain iface0 frames where "config_childs (can_frame_configure iface0 j) 0 (cic_frames c) d = Inr (frames, d')"
    "ci_frames iface = frames"
    by (auto simp: can_iface_configure_def Let_def split: option.splits sum.splits)
  note f = this
  show "adds d (can_outs iface) d'"
    unfolding can_outs_def f(2)
  proof (rule config_childs_adds [OF f(1), where \<pi> = "\<lambda>x. x"])
    fix fc k ds fr ds'
    assume "can_frame_configure iface0 j fc k ds = Inr (fr, ds')"
    then obtain iface1 dir vals dlc where v: "config_childs (can_value_configure iface1 j k dir) 0 (cfc_values fc) (ds, 0) = Inr (vals, ds', dlc)"
      "cf_dir fr = dir" "cf_values fr = vals"
      by (auto simp: can_frame_configure_def split: if_splits option.splits sum.splits)
    have "adds (fst (ds, 0 :: nat)) (concat (map (\<lambda>val. if dir = DIR_OUT then [cv_disp val] else []) vals)) (fst (ds', dlc))"
      by (rule config_childs_adds [OF v(1)]) (rule can_value_adds)
    moreover have "concat (map (\<lambda>val. if dir = DIR_OUT then [cv_disp val] else []) vals) =
        (if dir = DIR_OUT then map cv_disp vals else [])" by (induction vals) auto
    ultimately show "adds ds (if cf_dir fr = DIR_OUT then map cv_disp (cf_values fr) else []) ds'"
      by (simp only: v(2,3) fst_conv)
  qed
qed

lemma mqtt_value_adds:
  assumes "mqtt_value_configure conn i cfg vi ds = Inr (val, ds')"
  shows "adds ds (if mqv_dir val = DIR_OUT then [mqv_disp val] else []) ds'"
proof -
  obtain dir type topic where o: "mqvc_dir cfg = Some dir" "mqvc_type cfg = Some type" "mqvc_topic cfg = Some topic"
    using assms by (auto simp: mqtt_value_configure_def split: option.splits)
  obtain ds1 d where g: "uvrgw_conf_get_dispatcher (mqvc_title cfg) (dir = DIR_OUT) ds = (ds1, d)" by force
  have "mqv_disp val = d \<and> mqv_dir val = dir" "adds ds (if dir = DIR_OUT then [d] else []) ds'"
    using assms adds_get [OF g] unfolding mqtt_value_configure_def o option.case Let_def prod.case g
    by (auto simp: new_mqtt_val_def split: option.splits if_splits sum.splits dest: adds_produce [OF g])
  then show ?thesis by (simp split: if_split_asm)
qed

lemma logger_adds: "mqtt_logger_configure cfgs ds = Inr (loggers, ds') \<Longrightarrow> adds ds [] ds'"
proof -
  have v: "adds d [] d'" if "logger_value_configure c j d = Inr (x, d')" for c j d x d'
    using that adds_get [of "lvc_title c" False d] by (auto simp: logger_value_configure_def Let_def split: if_splits prod.splits)
  have l: "adds d [] d'" if l: "logger_configure c j d = Inr (x, d')" for c j d x d'
  proof -
    obtain vals where "config_childs logger_value_configure 0 (loc_values c) d = Inr (vals, d')"
      using l by (auto simp: logger_configure_def split: option.splits if_splits sum.splits)
    from this v show ?thesis by (rule config_childs_adds_none [where \<pi> = "\<lambda>x. x"])
  qed
  assume "mqtt_logger_configure cfgs ds = Inr (loggers, ds')"
  from this [unfolded mqtt_logger_configure_def] l show ?thesis by (rule config_childs_adds_none [where \<pi> = "\<lambda>x. x"])
qed

lemma mqtt_adds: "mqtt_configure cfgs ds = Inr (conns, ds') \<Longrightarrow> adds ds (map snd (mqtt_outputs conns)) ds'"
  unfolding mqtt_outputs_outs mqtt_configure_def
proof (erule config_childs_adds [where \<pi> = "\<lambda>x. x"])
  fix c j d conn d'
  assume "mqtt_conn_configure c j d = Inr (conn, d')"
  then obtain conn0 vals d1 loggers where v: "config_childs (mqtt_value_configure conn0 j) 0 (mcc_values c) d = Inr (vals, d1)"
    "mqtt_logger_configure (mcc_loggers c) d1 = Inr (loggers, d')" "mc_values conn = vals"
    by (auto simp: mqtt_conn_configure_def Let_def split: option.splits sum.splits if_splits prod.splits)
  have "adds d (concat (map (\<lambda>val. if mqv_dir val = DIR_OUT then [mqv_disp val] else []) vals)) d1"
    by (rule config_childs_adds [OF v(1), where \<pi> = "\<lambda>x. x"]) (rule mqtt_value_adds)
  from adds_trans [OF this logger_adds [OF v(2)]] show "adds d (mqtt_outs conn) d'" by (simp add: mqtt_outs_def v(3))
qed

lemma rest_adds: "rest_configure cfgs ds = Inr (conns, ds') \<Longrightarrow> adds ds [] ds'"
proof -
  have v: "adds d [] d'" if "rest_value_configure conn i c j d = Inr (x, d')" for conn i c j d x d'
  proof -
    obtain d1 k where g: "uvrgw_conf_get_dispatcher (rvc_title c) False d = (d1, k)" by force
    then show ?thesis using that adds_produce [OF g] by (auto simp: rest_value_configure_def Let_def split: option.splits sum.splits)
  qed
  have l: "adds d [] d'" if l: "rest_conn_configure c j d = Inr (x, d')" for c j d x d'
  proof -
    obtain conn vals where "config_childs (rest_value_configure conn j) 0 (rcc_values c) d = Inr (vals, d')"
      using l by (auto simp: rest_conn_configure_def Let_def split: option.splits if_splits sum.splits)
    from this v show ?thesis by (rule config_childs_adds_none [where \<pi> = "\<lambda>x. x"])
  qed
  assume "rest_configure cfgs ds = Inr (conns, ds')"
  from this [unfolded rest_configure_def] l show ?thesis by (rule config_childs_adds_none [where \<pi> = "\<lambda>x. x"])
qed

lemma sunspec_adds: "sunspec_configure cfgs ds = Inr (servers, ds') \<Longrightarrow> adds ds [] ds'"
proof -
  have src: "adds d [] (snd (src_configure c key d))" for c key d
  proof (cases "mec_getstr c (fst key)")
    case (Some name)
    obtain d1 k where g: "uvrgw_conf_get_dispatcher name False d = (d1, k)" by force
    have "adds d [] d1" using adds_get [OF g] by simp
    moreover have "adds d1 [] (d1[k := uvrgw_conf_need_timeout ''sunspec meter'' (mec_title c) (d1 ! k)])"
      by (rule adds_update) simp
    ultimately show ?thesis using Some g adds_trans by (fastforce simp: src_configure_def)
  qed (simp add: src_configure_def)
  have srcs: "adds d [] d'" if "src_configures c keys d = (ss, d')" for c keys d ss d'
    using that
  proof (induction keys arbitrary: d ss)
    case (Cons key keys)
    obtain s1 d1 where a: "src_configure c key d = (s1, d1)" by force
    then obtain ss1 where b: "src_configures c keys d1 = (ss1, d')" using Cons.prems by (auto split: prod.splits)
    have "adds d [] d1" using src [of d c key] a by simp
    from adds_trans [OF this Cons.IH [OF b]] show ?case by simp
  qed simp
  have meter: "adds d [] d'" if "meter_configure c j d = Inr (x, d')" for c j d x d'
    using that srcs by (auto simp: meter_configure_def Let_def split: if_splits option.splits prod.splits)
  have srv: "adds d [] d'" if l: "server_configure c j d = Inr (x, d')" for c j d x d'
  proof -
    obtain meters where "config_childs meter_configure 0 (sec_meters c) d = Inr (meters, d')"
      using l by (auto simp: server_configure_def split: if_splits sum.splits option.splits)
    from this meter show ?thesis by (rule config_childs_adds_none [where \<pi> = "\<lambda>x. x"])
  qed
  assume "sunspec_configure cfgs ds = Inr (servers, ds')"
  from this [unfolded sunspec_configure_def] srv show ?thesis by (rule config_childs_adds_none [where \<pi> = "\<lambda>x. x"])
qed

lemma mb_value_adds:
  assumes "mb_value_configure ctx cfg vi ds = Inr (val, ds')"
  shows "adds ds (if mx_dir ctx = DIR_OUT then [mv_disp val] else []) ds'"
proof -
  obtain type where o: "mvc_type cfg = Some type" "mb_value_check ctx cfg type = None"
    using assms by (auto simp: mb_value_configure_def split: option.splits)
  obtain ds1 d where g: "uvrgw_conf_get_dispatcher (mvc_title cfg) (mx_dir ctx = DIR_OUT) ds = (ds1, d)" by force
  have "mv_disp val = d" "adds ds (if mx_dir ctx = DIR_OUT then [d] else []) ds'"
    using assms adds_get [OF g] unfolding mb_value_configure_def o option.case Let_def prod.case g
    by (auto simp: new_mb_val_def split: if_splits sum.splits option.splits dest: adds_produce [OF g])
  then show ?thesis by (simp split: if_split_asm)
qed

lemma resolved_disps:
  "resolve_sfs ws (map_idx 0 (set_base ws') vals) = Inr vals' \<Longrightarrow> map mv_disp vals' = map mv_disp vals"
proof -
  assume r: "resolve_sfs ws (map_idx 0 (set_base ws') vals) = Inr vals'"
  have "mv_disp (set_base ws' k v) = mv_disp v" for k v by (simp add: set_base_def)
  then have "length vals' = length vals" "\<forall>k < length vals. mv_disp (vals' ! k) = mv_disp (vals ! k)"
    using resolve_sfs_nth [OF r] by (auto simp: map_idx_nth)
  then show ?thesis by (intro nth_equalityI) simp_all
qed

lemma mb_block_adds:
  assumes "mb_block_configure ctx cfg bi st = Inr (b, st')"
  shows "adds (fst st) (if bl_dir b = DIR_OUT then map mv_disp (bl_values b) else []) (fst st')"
proof -
  obtain ds out_head ds' out_head' where st: "st = (ds, out_head)" "st' = (ds', out_head')" by (metis prod.exhaust)
  obtain ctx' vals where v: "config_childs (mb_value_configure ctx') 0 (mbc_values cfg) ds = Inr (vals, ds')"
    "mx_dir ctx' = bl_dir b"
    "resolve_sfs (map_idx 0 (set_base vals) vals) (map_idx 0 (set_base vals) vals) = Inr (bl_values b)"
    using assms unfolding st by (auto simp: mb_block_configure_def Let_def split: if_splits option.splits sum.splits)
  have "adds ds (concat (map (\<lambda>v. if bl_dir b = DIR_OUT then [mv_disp v] else []) vals)) ds'"
    by (rule config_childs_adds [OF v(1), where \<pi> = "\<lambda>x. x"]) (unfold v(2) [symmetric], rule mb_value_adds)
  moreover have "concat (map (\<lambda>v. if bl_dir b = DIR_OUT then [mv_disp v] else []) vals) =
      (if bl_dir b = DIR_OUT then map mv_disp (bl_values b) else [])"
    unfolding resolved_disps [OF v(3)] by (induction vals) auto
  ultimately show ?thesis by (simp only: st fst_conv)
qed

lemma mb_slave_adds:
  assumes "mb_slave_configure ctx cfg si ds = Inr (sl, ds')"
  shows "adds ds (mb_slave_outs sl) ds'"
proof -
  obtain ctx' out_head where b: "config_childs (mb_block_configure ctx') 0 (msc_blocks cfg) (ds, []) = Inr (sl_blocks sl, ds', out_head)"
    using assms by (auto simp: mb_slave_configure_def split: if_splits sum.splits)
  show ?thesis using config_childs_adds [OF b, where \<pi> = fst, OF mb_block_adds] by (simp add: mb_slave_outs_def)
qed

lemma mb_master_adds:
  assumes "mb_master_configure tcp cfg mi ds = Inr (ma, ds')"
  shows "adds ds (concat (map mb_slave_outs (ma_slaves ma))) ds'"
proof -
  obtain ctx' where s: "config_childs (mb_slave_configure ctx') 0 (mmc_slaves cfg) ds = Inr (ma_slaves ma, ds')"
    using assms by (auto simp: mb_master_configure_def split: option.splits sum.splits)
  show ?thesis by (rule config_childs_adds [OF s, where \<pi> = "\<lambda>x. x", OF mb_slave_adds])
qed

definition mb_outs :: "mb_master list \<times> mb_master list \<Rightarrow> nat list" where
  "mb_outs ms = concat (map (\<lambda>ma. concat (map mb_slave_outs (ma_slaves ma))) (fst ms @ snd ms))"

lemma mb_adds: "mb_configured cfgs ds = Inr (ms, ds') \<Longrightarrow> adds ds (mb_outs ms) ds'"
proof -
  assume "mb_configured cfgs ds = Inr (ms, ds')"
  then obtain ds1 where m: "config_childs (mb_master_configure False) 0 (fst cfgs) ds = Inr (fst ms, ds1)"
    "config_childs (mb_master_configure True) 0 (snd cfgs) ds1 = Inr (snd ms, ds')"
    by (auto simp: mb_configured_def mb_configure_def split: sum.splits prod.splits)
  show ?thesis
    using adds_trans [OF config_childs_adds [OF m(1), where \<pi> = "\<lambda>x. x", OF mb_master_adds]
      config_childs_adds [OF m(2), where \<pi> = "\<lambda>x. x", OF mb_master_adds]] by (simp add: mb_outs_def)
qed

lemma counter_adds: "counter_configure cfgs ds = Inr (cs, ds') \<Longrightarrow> adds ds (map ct_src_disp cs) ds'"
proof -
  have one: "adds ds [ct_src_disp c] ds'" if a: "counter_configure_one cfg k ds = Inr (c, ds')" for cfg k ds c ds'
  proof -
    define c0 where "c0 = new_counter cfg"
    obtain ds1 src where g1: "uvrgw_conf_get_dispatcher (ct_source c0) True ds = (ds1, src)" by force
    obtain ds2 own where g2: "uvrgw_conf_get_dispatcher (ct_name c0) False ds1 = (ds2, own)" by force
    obtain dp where p: "uvrgw_conf_set_producer ''counter'' (ct_name c0) (Some (CounterRef k)) False (DFin 0) 0 (ds2 ! own) = Inr dp"
      and c: "ct_src_disp c = src"
      and ds': "ds' = ds2[own := dp] \<or> ds' = ds2[own := dp, src := uvrgw_conf_need_timeout ''counter'' (ct_name c0) (ds2[own := dp] ! src)]"
      using a g1 g2 unfolding counter_configure_one_def c0_def [symmetric] Let_def
      by (auto split: if_splits sum.splits)
    have a: "adds ds [src] (ds2[own := dp])" using adds_trans [OF adds_get [OF g1] adds_produce [OF g2 p]] by simp
    have "adds (ds2[own := dp]) [] ds'" using ds' adds_update [OF need_timeout_count] by auto
    from adds_trans [OF a this] show ?thesis using c by simp
  qed
  assume "counter_configure cfgs ds = Inr (cs, ds')"
  then have "config_childs counter_configure_one 0 cfgs ds = Inr (cs, ds')"
    by (auto simp: counter_configure_def split: sum.splits if_splits)
  from config_childs_adds [OF this, where \<pi> = "\<lambda>x. x", OF one]
  show ?thesis by (simp add: concat_map_singleton)
qed

lemma explicit_adds: "explicit_triggers vs names ts ds = Inr (ts', ds') \<Longrightarrow> \<exists>us. ts' = ts @ us \<and> adds ds us ds'"
proof (induction names arbitrary: ts ds)
  case (Cons name names)
  obtain ds1 d where g: "uvrgw_conf_get_dispatcher name True ds = (ds1, d)" by force
  then have "explicit_triggers vs names (ts @ [d]) ds1 = Inr (ts', ds')"
    using Cons.prems by (auto split: if_splits option.splits)
  then obtain us where "ts' = ts @ d # us" "adds ds1 us ds'" using Cons.IH by fastforce
  then show ?case using adds_trans [OF adds_get [OF g], of us ds'] by auto
qed simp

lemma default_adds: "default_triggers is ts ds = (ts', ds') \<Longrightarrow> \<exists>us. ts' = ts @ us \<and> adds ds us ds'"
proof (induction "is" arbitrary: ts ds)
  case (Cons i "is")
  obtain ds1 d where g: "uvrgw_conf_get_dispatcher (dp_name (ds ! ei_disp i)) True ds = (ds1, d)" by force
  then have "default_triggers is (ts @ [d]) ds1 = (ts', ds')" using Cons.prems by simp
  then obtain us where "ts' = ts @ d # us" "adds ds1 us ds'" using Cons.IH by fastforce
  then show ?case using adds_trans [OF adds_get [OF g], of us ds'] by auto
qed simp

lemma setup_adds:
  assumes "setup_triggers cfg e ds = Inr (e', ds')" "el_triggers e = []"
  shows "adds ds (el_triggers e') ds'"
  using assms by (auto simp: setup_triggers_def split: if_splits sum.splits prod.splits dest!: explicit_adds default_adds)

lemma eval_second_adds:
  assumes "eval_configure_second m (cfg, e) ds = Some (Inr (e', ds'))" "el_triggers e = []"
  shows "adds ds (el_triggers e') ds'"
proof -
  obtain e1 where "compile_eval m ds e = Some (Inr e1)" and s: "setup_triggers cfg e1 ds = Inr (e', ds')"
    using assms(1) by (auto simp: eval_configure_second_def split: option.splits sum.splits)
  then have "el_triggers e1 = []" using assms(2) by (auto simp: compile_eval_def Let_def split: sum.splits)
  then show ?thesis by (rule setup_adds [OF s])
qed

lemma eval_seconds_adds:
  "eval_configure_seconds m ces ds = Some (Inr (es, ds')) \<Longrightarrow> \<forall>ce \<in> set ces. el_triggers (snd ce) = [] \<Longrightarrow>
    adds ds (concat (map el_triggers es)) ds'"
proof (induction ces arbitrary: ds es)
  case (Cons ce ces)
  obtain cfg e0 where ce: "ce = (cfg, e0)" by force
  obtain e ds1 es2 where s: "eval_configure_second m ce ds = Some (Inr (e, ds1))"
    "eval_configure_seconds m ces ds1 = Some (Inr (es2, ds'))" "es = e # es2"
    using Cons.prems(1) by (auto split: option.splits sum.splits)
  have "adds ds (el_triggers e) ds1" using eval_second_adds s(1) Cons.prems(2) unfolding ce by simp
  from adds_trans [OF this Cons.IH [OF s(2)]] show ?case using s(3) Cons.prems(2) by simp
qed simp

lemma eval_first_adds:
  assumes "eval_configure_one cfg self ds = Inr (e, ds')"
  shows "adds ds [] ds'" and "el_triggers e = []"
proof -
  have v: "adds d [] d'" if a: "eval_value_configure n self c j d = Inr (x, d')" for n c j d x d'
  proof -
    obtain d1 k where g: "uvrgw_conf_get_dispatcher (evc_title c) False d = (d1, k)" by force
    then show ?thesis using a adds_produce [OF g]
      by (auto simp: eval_value_configure_def Let_def split: option.splits if_splits sum.splits)
  qed
  obtain vs where vs: "config_childs (eval_value_configure (ec_title cfg) self) 0 (ec_values cfg) ds = Inr (vs, ds')"
    "el_triggers e = []"
    using assms by (auto simp: eval_configure_one_def Let_def split: if_splits sum.splits)
  from vs(1) v show "adds ds [] ds'" by (rule config_childs_adds_none [where \<pi> = "\<lambda>x. x"])
  show "el_triggers e = []" by (fact vs(2))
qed

lemma eval_adds:
  assumes "eval_configured m cfgs ds = Inr (es, ds')"
  shows "adds ds (concat (map el_triggers es)) ds'"
proof -
  have c: "eval_configure m cfgs ds = Some (Inr (es, ds'))"
    using assms by (simp add: eval_configured_def split: option.splits sum.splits)
  obtain es0 ds1 where f: "config_childs eval_configure_one 0 cfgs ds = Inr (es0, ds1)"
    using c by (cases "config_childs eval_configure_one 0 cfgs ds") (simp add: eval_configure_def, metis surj_pair)
  note c1 = c [unfolded eval_configure_def f sum.case prod.case case_unit_Unity]
  have s: "eval_configure_seconds m (zip cfgs es0) ds1 = Some (Inr (es, ds'))"
    using c1 by (simp split: option.split_asm sum.split_asm prod.split_asm)
  have "\<forall>e \<in> set es0. el_triggers e = []"
    using f by (rule config_childs_all) (rule eval_first_adds(2))
  then have "\<forall>ce \<in> set (zip cfgs es0). el_triggers (snd ce) = []" by (auto dest: set_zip_rightD)
  from eval_seconds_adds [OF s this] config_childs_adds_none [OF f, where \<pi> = "\<lambda>x. x", OF eval_first_adds(1)]
  show ?thesis using adds_trans by fastforce
qed

subsection \<open>The modules under the contract\<close>

lemma can_fills: "room ds (map snd (can_outputs ifaces)) \<Longrightarrow>
  \<exists>ds'. can_register_disp_cbs ifaces ds = Inr ds' \<and> registers ds (map snd (can_outputs ifaces)) ds'"
  unfolding can_register_disp_cbs_def by (rule register_vals_room)

lemma mb_all_outs:
  "map snd (concat (map (\<lambda>mi. mb_outputs False mi (fst ms ! mi)) [0..<length (fst ms)]) @
     concat (map (\<lambda>mi. mb_outputs True mi (snd ms ! mi)) [0..<length (snd ms)])) = mb_outs ms"
  by (simp only: map_append upt_outs [of _ "\<lambda>mi. mb_outputs False mi (fst ms ! mi)", OF mb_outputs_outs]
    upt_outs [of _ "\<lambda>mi. mb_outputs True mi (snd ms ! mi)", OF mb_outputs_outs] mb_outs_def concat_append)

lemma mb_fills:
  assumes "room ds (mb_outs ms)"
  shows "\<exists>ds'. mb_register_disp_cbs (fst ms) (snd ms) ds = Inr ds' \<and> registers ds (mb_outs ms) ds'"
  using register_vals_room [OF assms [folded mb_all_outs], of Mb_write_schedule]
  by (simp only: mb_all_outs mb_register_disp_cbs_def)

lemma mqtt_fills: "room ds (map snd (mqtt_outputs conns)) \<Longrightarrow>
  \<exists>ds'. mqtt_register_disp_cbs conns ds = Inr ds' \<and> registers ds (map snd (mqtt_outputs conns)) ds'"
  unfolding mqtt_register_disp_cbs_def by (rule register_vals_room)

lemma counter_register_vals:
  "counter_register_disp_cbs i cs ds = register_vals (map (\<lambda>(i, c). (CounterRef i, ct_src_disp c)) (enum i cs)) Counter_source_update ds"
  by (induction cs arbitrary: i ds) (auto split: sum.split)

lemma counter_fills: "room ds (map ct_src_disp cs) \<Longrightarrow>
  \<exists>ds'. counter_register_disp_cbs 0 cs ds = Inr ds' \<and> registers ds (map ct_src_disp cs) ds'"
proof -
  have "map snd (map (\<lambda>(i, c). (CounterRef i, ct_src_disp c)) (enum i cs)) = map ct_src_disp cs" for i
    by (induction cs arbitrary: i) simp_all
  then show "room ds (map ct_src_disp cs) \<Longrightarrow> ?thesis"
    unfolding counter_register_vals by (metis register_vals_room)
qed

lemma eval_fills: "room ds (concat (map el_triggers es)) \<Longrightarrow>
  \<exists>ds'. eval_register_disp_cbs es ds = Inr ds' \<and> registers ds (concat (map el_triggers es)) ds'"
proof -
  have "map snd (eval_triggers_registered es) = concat (map el_triggers es)"
    unfolding eval_triggers_registered_def by (rule upt_outs) (simp add: o_def)
  then show "room ds (concat (map el_triggers es)) \<Longrightarrow> ?thesis"
    unfolding eval_register_disp_cbs_def by (metis register_vals_room)
qed

lemma nothing_fills: "room ds [] \<Longrightarrow> \<exists>ds'. Inr ds = (Inr ds' :: conf_error + dnode list) \<and> registers ds [] ds'"
  by (simp add: room_def registers_def)

interpretation can_conf: conf_module can_configure "\<lambda>ifaces. map snd (can_outputs ifaces)" can_register_disp_cbs
  by unfold_locales (fact can_adds can_fills)+

interpretation mb_conf: conf_module mb_configured mb_outs "\<lambda>ms. mb_register_disp_cbs (fst ms) (snd ms)"
  by unfold_locales (fact mb_adds mb_fills)+

interpretation mqtt_conf: conf_module mqtt_configure "\<lambda>conns. map snd (mqtt_outputs conns)" mqtt_register_disp_cbs
  by unfold_locales (fact mqtt_adds mqtt_fills)+

interpretation rest_conf: conf_module rest_configure "\<lambda>conns. []" "\<lambda>conns. Inr"
  by unfold_locales (fact rest_adds nothing_fills)+

interpretation sunspec_conf: conf_module sunspec_configure "\<lambda>servers. []" "\<lambda>servers. Inr"
  by unfold_locales (fact sunspec_adds nothing_fills)+

interpretation counter_conf: conf_module counter_configure "map ct_src_disp" "counter_register_disp_cbs 0"
  by unfold_locales (fact counter_adds counter_fills)+

interpretation eval_conf: conf_module "eval_configured m" "\<lambda>es. concat (map el_triggers es)" eval_register_disp_cbs
  by unfold_locales (fact eval_adds eval_fills)+

subsection \<open>The whole configuration\<close>

lemma attempt_split:
  "P (attempt err r k) \<longleftrightarrow> (\<forall>e. r = Inl e \<longrightarrow> P (Inl (err e))) \<and> (\<forall>x. r = Inr x \<longrightarrow> P (k x))"
  by (cases r) simp_all

definition gateway_outs :: "gateway \<Rightarrow> nat list" where
  "gateway_outs g = map snd (can_outputs (gw_can g)) @ mb_outs (gw_rtu g, gw_tcp g) @ map snd (mqtt_outputs (gw_mqtt g)) @
     map ct_src_disp (gw_counters g) @ concat (map el_triggers (gw_evals g))"

text \<open>The modules register one after the other, each with room for those that follow.\<close>

lemma register_disp_cbs_room:
  assumes "room ds (gateway_outs g)"
  shows "\<exists>ds'. register_disp_cbs g ds = Inr ds' \<and> registers ds (gateway_outs g) ds'"
proof -
  obtain ds1 where 1: "can_register_disp_cbs (gw_can g) ds = Inr ds1" "registers ds (map snd (can_outputs (gw_can g))) ds1"
    and r1: "room ds1 (mb_outs (gw_rtu g, gw_tcp g) @ map snd (mqtt_outputs (gw_mqtt g)) @
      map ct_src_disp (gw_counters g) @ concat (map el_triggers (gw_evals g)))"
    using can_conf.fills_rest assms unfolding gateway_outs_def by blast
  obtain ds2 where 2: "mb_register_disp_cbs (gw_rtu g) (gw_tcp g) ds1 = Inr ds2" "registers ds1 (mb_outs (gw_rtu g, gw_tcp g)) ds2"
    and r2: "room ds2 (map snd (mqtt_outputs (gw_mqtt g)) @ map ct_src_disp (gw_counters g) @ concat (map el_triggers (gw_evals g)))"
    using mb_conf.fills_rest [OF r1] by auto
  obtain ds3 where 3: "mqtt_register_disp_cbs (gw_mqtt g) ds2 = Inr ds3" "registers ds2 (map snd (mqtt_outputs (gw_mqtt g))) ds3"
    and r3: "room ds3 (map ct_src_disp (gw_counters g) @ concat (map el_triggers (gw_evals g)))"
    using mqtt_conf.fills_rest [OF r2] by blast
  obtain ds4 where 4: "counter_register_disp_cbs 0 (gw_counters g) ds3 = Inr ds4" "registers ds3 (map ct_src_disp (gw_counters g)) ds4"
    and r4: "room ds4 (concat (map el_triggers (gw_evals g)))"
    using counter_conf.fills_rest [OF r3] by blast
  obtain ds5 where 5: "eval_register_disp_cbs (gw_evals g) ds4 = Inr ds5" "registers ds4 (concat (map el_triggers (gw_evals g))) ds5"
    using eval_fills [OF r4] by blast
  have "registers ds (gateway_outs g) ds5"
    unfolding gateway_outs_def by (intro registers_trans [OF 1(2)] registers_trans [OF 2(2)] registers_trans [OF 3(2)] registers_trans [OF 4(2)] 5(2))
  then show ?thesis using 1(1) 2(1) 3(1) 4(1) 5(1) by (simp add: register_disp_cbs_def)
qed

text \<open>What the configurations of all modules reserve is what their registration needs.\<close>

lemma init_room: "adds [] outs ds \<Longrightarrow> room (init_dispatcher ds) outs"
  by (auto simp: adds_def room_def init_filled)

lemma uvrgw_conf_load_cases:
  obtains (early) e where "uvrgw_conf_load m env c = Inl e" "\<And>e'. e \<noteq> Load_register e'"
    | (registration) ds g where "adds [] (gateway_outs g) ds" "check_dispatchers ds = None"
      "uvrgw_conf_load m env c = attempt Load_register (register_disp_cbs g (init_dispatcher ds)) (\<lambda>ds. Inr (g\<lparr>gw_disp := ds\<rparr>))"
proof (cases "can_configure (wc_can c) []")
  case (Inl e)
  then show thesis using early by (simp add: uvrgw_conf_load_def)
next
  case (Inr r)
  obtain cans ds1 where 1: "can_configure (wc_can c) [] = Inr (cans, ds1)" using Inr by (cases r) simp
  show thesis
  proof (cases "\<exists>mbs ds2 mqtts ds3 rests ds4 suns ds5 counters ds6 evals ds7.
      mb_configured (wc_rtu c, wc_tcp c) ds1 = Inr (mbs, ds2) \<and> mqtt_configure (wc_mqtt c) ds2 = Inr (mqtts, ds3) \<and>
      rest_configure (wc_json c) ds3 = Inr (rests, ds4) \<and> sunspec_configure (wc_sunspec c) ds4 = Inr (suns, ds5) \<and>
      counter_configure (wc_counter c) ds5 = Inr (counters, ds6) \<and> eval_configured m (wc_eval c) ds6 = Inr (evals, ds7) \<and>
      check_dispatchers ds7 = None")
    case True
    then obtain mbs ds2 mqtts ds3 rests ds4 suns ds5 counters ds6 evals ds7 where
      s: "mb_configured (wc_rtu c, wc_tcp c) ds1 = Inr (mbs, ds2)" "mqtt_configure (wc_mqtt c) ds2 = Inr (mqtts, ds3)"
      "rest_configure (wc_json c) ds3 = Inr (rests, ds4)" "sunspec_configure (wc_sunspec c) ds4 = Inr (suns, ds5)"
      "counter_configure (wc_counter c) ds5 = Inr (counters, ds6)" "eval_configured m (wc_eval c) ds6 = Inr (evals, ds7)"
      "check_dispatchers ds7 = None" by blast
    let ?g = "\<lparr>gw_state_dir = state_dir_of (wc_state_dir c) env, gw_can = cans, gw_rtu = fst mbs, gw_tcp = snd mbs,
      gw_mqtt = mqtts, gw_rest = rests, gw_sunspec = suns, gw_counters = counters, gw_evals = evals, gw_disp = []\<rparr>"
    have "adds [] (gateway_outs ?g) ds7"
      using adds_trans [OF can_adds [OF 1] adds_trans [OF mb_adds [OF s(1)] adds_trans [OF mqtt_adds [OF s(2)]
        adds_trans [OF rest_adds [OF s(3)] adds_trans [OF sunspec_adds [OF s(4)] adds_trans [OF counter_adds [OF s(5)]
        eval_adds [OF s(6)]]]]]]] by (simp add: gateway_outs_def)
    then show thesis using registration [of ?g ds7] s 1 by (simp add: uvrgw_conf_load_def case_prod_unfold Let_def)
  next
    case False
    then have "\<exists>e. uvrgw_conf_load m env c = Inl e \<and> (\<forall>e'. e \<noteq> Load_register e')"
      using 1 unfolding uvrgw_conf_load_def by (auto split: attempt_split option.split)
    then show thesis using early by blast
  qed
qed

text \<open>
  C39. The outputs of all modules find a slot: whatever was configured, loading never fails with
  ``callback count exceeded'' once the dispatchers were checked. When it succeeds, every dispatcher has a
  producer and every slot that was reserved holds a callback - the loop of \<open>uvrgw_conf_disp_val\<close> never
  meets an unused one.
\<close>

theorem conf_load_fills_every_slot:
  "(\<forall>e. uvrgw_conf_load m env c \<noteq> Inl (Load_register e)) \<and>
   (\<forall>g dp. uvrgw_conf_load m env c = Inr g \<and> dp \<in> set (gw_disp g) \<longrightarrow>
      dp_producer dp \<noteq> None \<and> dp_value_cbs_pos dp = dp_value_count dp \<and>
      (0 < dp_value_count dp \<longrightarrow> length (dp_value_cbs dp) = dp_value_count dp) \<and>
      (\<forall>k < dp_value_count dp. ce_cb (dp_value_cbs dp ! k) \<noteq> None))"
proof (cases rule: uvrgw_conf_load_cases [of m env c])
  case (early e)
  then show ?thesis by auto
next
  case (registration ds g)
  have r: "room (init_dispatcher ds) (gateway_outs g)" by (rule init_room [OF registration(1)])
  obtain ds' where ds': "register_disp_cbs g (init_dispatcher ds) = Inr ds'"
    "registers (init_dispatcher ds) (gateway_outs g) ds'" using register_disp_cbs_room [OF r] by blast
  have l: "uvrgw_conf_load m env c = Inr (g\<lparr>gw_disp := ds'\<rparr>)" using registration(3) ds'(1) by simp
  have "dp_producer dp \<noteq> None \<and> node_filled dp \<and> dp_value_cbs_pos dp = dp_value_count dp" if dp: "dp \<in> set ds'" for dp
  proof -
    have "dp_producer dp \<in> set (map dp_producer ds')" using dp by simp
    also have "map dp_producer ds' = map dp_producer ds" using ds'(2) by (simp add: registers_def init_filled)
    finally have "dp_producer dp \<noteq> None" using registration(2) by (auto simp: check_dispatchers_None)
    moreover have "node_filled dp" using ds'(2) dp by (simp add: registers_def list_all_iff)
    moreover obtain d where d: "d < length ds'" "ds' ! d = dp" using dp by (auto simp: in_set_conv_nth)
    then have "filled ds' d = slots ds' d"
      using ds'(2) registration(1) by (simp add: registers_def adds_def init_filled)
    ultimately show ?thesis using d by (simp add: filled_def slots_def)
  qed
  then show ?thesis unfolding l by (auto simp: node_filled_def)
qed

definition can_to_mqtt :: conf where
  "can_to_mqtt =
     \<lparr>wc_state_dir = None,
      wc_can = [can_opts\<lparr>cic_interface := Some ''can0'', cic_frames := [can_frame_opts\<lparr>cfc_can_id := 16, cfc_dir := Some DIR_IN,
        cfc_values := [(can_frame_val_opts ''t'')\<lparr>cvc_type := Some CAN_U8, cvc_pos := 0\<rparr>]\<rparr>]\<rparr>],
      wc_rtu = [], wc_tcp = [],
      wc_mqtt = [mqtt_opts\<lparr>mcc_host := Some ''broker'', mcc_values := [(mqtt_val_opts ''t'')\<lparr>mqvc_dir := Some DIR_OUT,
        mqvc_type := Some MQTT_SWITCH, mqvc_topic := Some ''top''\<rparr>]\<rparr>],
      wc_json = [], wc_sunspec = [], wc_counter = [], wc_eval = []\<rparr>"

theorem conf_load_fills_every_slot_witness:
  "ce_cb (dp_value_cbs (hd (gw_disp (projr (uvrgw_conf_load \<lparr>ce_libm = \<lambda>f xs. DNaN, ce_ulong_max = 0\<rparr> None can_to_mqtt)))) ! 0) \<noteq> None"
proof -
  let ?m = "\<lparr>ce_libm = \<lambda>f xs. DNaN, ce_ulong_max = 0\<rparr>"
  let ?r = "uvrgw_conf_load ?m None can_to_mqtt"
  have "isl ?r = False" by code_simp
  then have r: "?r = Inr (projr ?r)" by (cases ?r) auto
  have "(gw_disp (projr ?r) \<noteq> [] \<and> dp_value_count (hd (gw_disp (projr ?r))) = 1) = True" by code_simp
  then have "hd (gw_disp (projr ?r)) \<in> set (gw_disp (projr ?r))" "0 < dp_value_count (hd (gw_disp (projr ?r)))" by auto
  then show ?thesis using conf_load_fills_every_slot [of ?m None can_to_mqtt] r by blast
qed

end
