(* ===== verification/Gateway.thy ===== *)
theory Gateway
  imports Prelude
begin

text \<open>
  The life of the process (\<open>main\<close> of main.c): the order in which the subsystems are started, the loop
  over \<open>select\<close>, and the chain of labels that takes down what was started, whichever call failed.

  The calls are the observable steps; which of them succeed (\<open>ok\<close>) and what \<open>select\<close> reports is the
  environment's choice.
\<close>

subsection \<open>Calls\<close>

datatype subsystem =
    Counters | Can_bus | Mqtt_conns | Watchdog | Evals | Modbus_masters | Rest_polls | Sunspec_servers

datatype main_call =
    Eventfd | Conf_load | Startup subsystem | Counter_publish | Can_handler | Shutdown subsystem
  | Counter_stop | Conf_cleanup | Close_exit_fd

text \<open>What \<open>select\<close> returns: \<open>EINTR\<close>, another error, or descriptors that are ready.\<close>

datatype wakeup = Interrupted | Select_failed | Ready bool bool \<comment> \<open>exit descriptor set; \<open>can_handler\<close> succeeds\<close>

text \<open>
  \<open>while (true)\<close> over the wakeups; the result is 0 only when the exit descriptor ended it, and \<open>None\<close>
  when the wakeups are used up: the process still waits.
\<close>

fun event_loop :: "wakeup list \<Rightarrow> (main_call list \<times> int) option" where
  "event_loop [] = None"
| "event_loop (Interrupted # ws) = event_loop ws"
| "event_loop (Select_failed # ws) = Some ([], 1)"
| "event_loop (Ready exit_set can_ok # ws) =
     (if exit_set then Some ([], 0)
      else if \<not> can_ok then Some ([Can_handler], 1)
      else map_option (\<lambda>(cs, ret). (Can_handler # cs, ret)) (event_loop ws))"

text \<open>The signal handler: what it writes to the exit descriptor, and its message.\<close>

definition SIGHUP :: int where "SIGHUP = 1"
definition SIGINT :: int where "SIGINT = 2"
definition SIGTERM :: int where "SIGTERM = 15"

definition sighandler :: "int \<Rightarrow> 64 word option \<times> logmsg list" where
  "sighandler sig =
     (if sig = SIGINT \<or> sig = SIGTERM then (Some 1, [])
      else if sig = SIGHUP then (None, [])
      else (None, [(LOG_DEBUG, ''Unhandled signal'')]))"

subsection \<open>The labels\<close>

definition fail_exit_fd :: "main_call list" where "fail_exit_fd = []"
definition fail_conf :: "main_call list" where "fail_conf = Close_exit_fd # fail_exit_fd"
definition fail_counter :: "main_call list" where "fail_counter = Conf_cleanup # fail_conf"
definition fail_can :: "main_call list" where "fail_can = Shutdown Counters # fail_counter"
definition fail_mqtt :: "main_call list" where "fail_mqtt = Shutdown Can_bus # fail_can"
definition fail_watchdog :: "main_call list" where "fail_watchdog = Counter_stop # Shutdown Mqtt_conns # fail_mqtt"
definition fail_eval :: "main_call list" where "fail_eval = Shutdown Watchdog # fail_watchdog"
definition fail_mb :: "main_call list" where "fail_mb = Shutdown Evals # fail_eval"
definition fail_rest :: "main_call list" where "fail_rest = Shutdown Modbus_masters # fail_mb"
definition fail_sunspec :: "main_call list" where "fail_sunspec = Shutdown Rest_polls # fail_rest"
definition fail_loop :: "main_call list" where "fail_loop = Shutdown Sunspec_servers # fail_sunspec"

lemmas fail_labels = fail_exit_fd_def fail_conf_def fail_counter_def fail_can_def fail_mqtt_def fail_watchdog_def
  fail_eval_def fail_mb_def fail_rest_def fail_sunspec_def fail_loop_def

text \<open>\<open>if (call < 0) goto label\<close>; \<open>ret\<close> is 1 until the loop was left regularly.\<close>

definition or_goto ::
  "(main_call \<Rightarrow> bool) \<Rightarrow> main_call \<Rightarrow> main_call list \<Rightarrow> (main_call list \<times> int) option \<Rightarrow> (main_call list \<times> int) option" where
  "or_goto ok c label rest =
     (if ok c then map_option (\<lambda>(cs, ret). (c # cs, ret)) rest else Some (c # label, 1))"

definition gateway_main :: "(main_call \<Rightarrow> bool) \<Rightarrow> wakeup list \<Rightarrow> (main_call list \<times> int) option" where
  "gateway_main ok ws =
     or_goto ok Eventfd fail_exit_fd
     (or_goto ok Conf_load fail_conf
     (or_goto ok (Startup Counters) fail_counter
     (or_goto ok (Startup Can_bus) fail_can
     (or_goto ok (Startup Mqtt_conns) fail_mqtt
     (map_option (\<lambda>(cs, ret). (Counter_publish # cs, ret))
     (or_goto ok (Startup Watchdog) fail_watchdog
     (or_goto ok (Startup Evals) fail_eval
     (or_goto ok (Startup Modbus_masters) fail_mb
     (or_goto ok (Startup Rest_polls) fail_rest
     (or_goto ok (Startup Sunspec_servers) fail_sunspec
     (map_option (\<lambda>(cs, ret). (cs @ fail_loop, ret)) (event_loop ws))))))))))))"

subsection \<open>The discipline\<close>

text \<open>
  What is up: the exit descriptor, the configuration, the subsystems with their resources, and those
  whose threads dispatch values. CAN frames are received by the main loop itself; a SunSpec server only
  reads values.
\<close>

record process =
  pr_exit_fd :: bool
  pr_conf :: bool
  pr_up :: "subsystem list"
  pr_threads :: "subsystem list"

definition down :: process where
  "down = \<lparr>pr_exit_fd = False, pr_conf = False, pr_up = [], pr_threads = []\<rparr>"

definition threaded :: "subsystem \<Rightarrow> bool" where
  "threaded s \<longleftrightarrow> s \<noteq> Can_bus \<and> s \<noteq> Sunspec_servers"

text \<open>\<open>done_ok\<close>: the call succeeded; a call that fails leaves nothing behind.\<close>

fun after_call :: "bool \<Rightarrow> main_call \<Rightarrow> process \<Rightarrow> process" where
  "after_call done_ok Eventfd p = p\<lparr>pr_exit_fd := done_ok\<rparr>"
| "after_call done_ok Conf_load p = p\<lparr>pr_conf := done_ok\<rparr>"
| "after_call done_ok (Startup s) p =
     (if done_ok then p\<lparr>pr_up := s # pr_up p, pr_threads := (if threaded s then [s] else []) @ pr_threads p\<rparr> else p)"
| "after_call done_ok Counter_publish p = p"
| "after_call done_ok Can_handler p = p"
| "after_call done_ok (Shutdown s) p = p\<lparr>pr_up := remove1 s (pr_up p), pr_threads := removeAll s (pr_threads p)\<rparr>"
| "after_call done_ok Counter_stop p = p\<lparr>pr_threads := removeAll Counters (pr_threads p)\<rparr>"
| "after_call done_ok Conf_cleanup p = p\<lparr>pr_conf := False\<rparr>"
| "after_call done_ok Close_exit_fd p = p\<lparr>pr_exit_fd := False\<rparr>"

definition outputs_up :: "process \<Rightarrow> bool" where
  "outputs_up p \<longleftrightarrow> {Counters, Can_bus, Mqtt_conns} \<subseteq> set (pr_up p)"

text \<open>
  When a call is in order. A source is started only with the outputs up, and what dispatches in the main
  thread does so then; outputs are taken down when nothing else dispatches, the counters (which save
  their totals) when nothing runs at all, the configuration when nothing is left that uses it.
\<close>

fun in_order :: "process \<Rightarrow> main_call \<Rightarrow> bool" where
  "in_order p Eventfd \<longleftrightarrow> p = down"
| "in_order p Conf_load \<longleftrightarrow> pr_exit_fd p \<and> \<not> pr_conf p"
| "in_order p (Startup s) \<longleftrightarrow> pr_conf p \<and> s \<notin> set (pr_up p) \<and>
     (s \<in> {Counters, Can_bus, Mqtt_conns} \<or> outputs_up p)"
| "in_order p Counter_publish \<longleftrightarrow> outputs_up p"
| "in_order p Can_handler \<longleftrightarrow> outputs_up p"
| "in_order p (Shutdown s) \<longleftrightarrow> s \<in> set (pr_up p) \<and> distinct (pr_up p) \<and>
     (s = Mqtt_conns \<longrightarrow> set (pr_threads p) \<subseteq> {Mqtt_conns}) \<and>
     (s = Can_bus \<longrightarrow> Mqtt_conns \<notin> set (pr_up p) \<and> set (pr_threads p) \<subseteq> {Counters}) \<and>
     (s = Counters \<longrightarrow> pr_up p = [Counters])"
| "in_order p Counter_stop \<longleftrightarrow> Counters \<in> set (pr_threads p)"
| "in_order p Conf_cleanup \<longleftrightarrow> pr_conf p \<and> pr_up p = [] \<and> pr_threads p = []"
| "in_order p Close_exit_fd \<longleftrightarrow> pr_exit_fd p \<and> \<not> pr_conf p \<and> pr_up p = []"

text \<open>A run of the process in which every call is in order; \<open>release\<close> is what is left at its end.\<close>

fun disciplined :: "(main_call \<Rightarrow> bool) \<Rightarrow> process \<Rightarrow> main_call list \<Rightarrow> process \<Rightarrow> bool" where
  "disciplined ok p [] p' \<longleftrightarrow> p = p'"
| "disciplined ok p (c # cs) p' \<longleftrightarrow> in_order p c \<and> disciplined ok (after_call (ok c) c p) cs p'"

subsection \<open>The event loop\<close>

definition passes :: "wakeup \<Rightarrow> bool" where
  "passes w \<longleftrightarrow> w = Interrupted \<or> w = Ready False True"

definition exits :: "wakeup list \<Rightarrow> bool" where
  "exits ws \<longleftrightarrow> (case dropWhile passes ws of Ready True can_ok # ws \<Rightarrow> True | _ \<Rightarrow> False)"

lemma event_loop_calls: "event_loop ws = Some (cs, ret) \<Longrightarrow> (\<exists>n. cs = replicate n Can_handler) \<and> (ret = 0 \<longleftrightarrow> exits ws)"
proof (induction ws arbitrary: cs rule: event_loop.induct)
  case (4 exit_set can_ok ws)
  consider "exit_set" "cs = []" "ret = 0" | "\<not> exit_set" "\<not> can_ok" "cs = [Can_handler]" "ret = 1"
    | cs' where "\<not> exit_set" "can_ok" "event_loop ws = Some (cs', ret)" "cs = Can_handler # cs'"
    using 4(2) by (auto split: if_splits)
  then show ?case
  proof cases
    case 1
    then show ?thesis by (simp add: exits_def passes_def)
  next
    case 2
    then show ?thesis by (auto simp: exits_def passes_def intro: exI [of _ 1])
  next
    case (3 cs')
    then obtain n where "cs' = replicate n Can_handler" "ret = 0 \<longleftrightarrow> exits ws" using 4(1) by blast
    then show ?thesis using 3 by (auto simp: exits_def passes_def intro: exI [of _ "Suc n"])
  qed
qed (auto simp: exits_def passes_def)

lemma event_loop_waits: "event_loop ws = None \<longleftrightarrow> list_all passes ws"
  by (induction ws rule: event_loop.induct) (auto simp: passes_def)

lemma disciplined_handler:
  "disciplined ok p (replicate n Can_handler @ cs) p' \<longleftrightarrow> (n = 0 \<or> outputs_up p) \<and> disciplined ok p cs p'"
  by (induction n) auto

subsection \<open>The whole life\<close>

text \<open>A continuation of \<open>main\<close> in the state \<open>p\<close>: its calls are in order, everything is released, and it returns 0 exactly if \<open>clean\<close>.\<close>

definition lives :: "(main_call \<Rightarrow> bool) \<Rightarrow> process \<Rightarrow> bool \<Rightarrow> (main_call list \<times> int) option \<Rightarrow> bool" where
  "lives ok p clean r \<longleftrightarrow> (case r of None \<Rightarrow> True | Some (cs, ret) \<Rightarrow> disciplined ok p cs down \<and> (ret = 0 \<longleftrightarrow> clean))"

lemma lives_or_goto:
  assumes "in_order p c" "\<not> ok c \<Longrightarrow> disciplined ok (after_call False c p) label down"
    and "ok c \<Longrightarrow> lives ok (after_call True c p) clean rest"
  shows "lives ok p (ok c \<and> clean) (or_goto ok c label rest)"
  using assms by (auto simp: lives_def or_goto_def split: option.splits)

lemma lives_publish:
  assumes "outputs_up p" "lives ok p clean rest"
  shows "lives ok p clean (map_option (\<lambda>(cs, ret). (Counter_publish # cs, ret)) rest)"
  using assms by (auto simp: lives_def split: option.splits)

lemma lives_loop:
  assumes "outputs_up p" "disciplined ok p fail_loop down"
  shows "lives ok p (exits ws) (map_option (\<lambda>(cs, ret). (cs @ fail_loop, ret)) (event_loop ws))"
proof (cases "event_loop ws")
  case (Some r)
  obtain cs ret where r: "r = (cs, ret)" by force
  then obtain n where "cs = replicate n Can_handler" "ret = 0 \<longleftrightarrow> exits ws" using event_loop_calls Some by blast
  then show ?thesis using Some r assms by (simp add: lives_def disciplined_handler)
qed (simp add: lives_def)

text \<open>
  C40. The order of main.c: whichever call fails and whatever \<open>select\<close> reports, sources start when the
  outputs are up and the main thread dispatches only then; every subsystem that came up is shut down
  once; MQTT is destroyed when only its own threads are left, the counters save their totals when
  nothing runs any more; the configuration is freed and the exit descriptor closed last. The process
  returns 0 exactly if every call succeeded and the exit descriptor ended the loop.
\<close>

theorem main_in_order:
  assumes "gateway_main ok ws = Some (calls, ret)"
  shows "disciplined ok down calls down \<and> (ret = 0 \<longleftrightarrow> list_all ok
    [Eventfd, Conf_load, Startup Counters, Startup Can_bus, Startup Mqtt_conns, Startup Watchdog,
     Startup Evals, Startup Modbus_masters, Startup Rest_polls, Startup Sunspec_servers] \<and> exits ws)"
proof -
  have "lives ok down (ok Eventfd \<and> ok Conf_load \<and> ok (Startup Counters) \<and> ok (Startup Can_bus) \<and> ok (Startup Mqtt_conns) \<and>
      ok (Startup Watchdog) \<and> ok (Startup Evals) \<and> ok (Startup Modbus_masters) \<and> ok (Startup Rest_polls) \<and>
      ok (Startup Sunspec_servers) \<and> exits ws) (gateway_main ok ws)"
    unfolding gateway_main_def
    by (intro lives_or_goto lives_publish lives_loop; simp add: fail_labels down_def threaded_def outputs_up_def)
  then show ?thesis using assms by (simp add: lives_def)
qed

theorem main_in_order_witness:
  "disciplined (\<lambda>c. c \<noteq> Startup Rest_polls) down
     [Eventfd, Conf_load, Startup Counters, Startup Can_bus, Startup Mqtt_conns, Counter_publish, Startup Watchdog,
      Startup Evals, Startup Modbus_masters, Startup Rest_polls, Shutdown Modbus_masters, Shutdown Evals, Shutdown Watchdog,
      Counter_stop, Shutdown Mqtt_conns, Shutdown Can_bus, Shutdown Counters, Conf_cleanup, Close_exit_fd] down"
proof -
  have "gateway_main (\<lambda>c. c \<noteq> Startup Rest_polls) [] = Some (
     [Eventfd, Conf_load, Startup Counters, Startup Can_bus, Startup Mqtt_conns, Counter_publish, Startup Watchdog,
      Startup Evals, Startup Modbus_masters, Startup Rest_polls, Shutdown Modbus_masters, Shutdown Evals, Shutdown Watchdog,
      Counter_stop, Shutdown Mqtt_conns, Shutdown Can_bus, Shutdown Counters, Conf_cleanup, Close_exit_fd], 1)"
    by (simp add: gateway_main_def or_goto_def fail_labels)
  then show ?thesis by (rule main_in_order [THEN conjunct1])
qed

end
