(* ===== verification/Spec2Isabelle.thy ===== *)
theory Spec2Isabelle
  imports Watchdog Modbus_Poll Eval Mqtt_Life Sunspec_Image Links Conf_Load Gateway
begin

text \<open>
  A verification library of uvrgw, the gateway between the CAN bus of a heating controller, MODBUS, MQTT,
  HTTP/JSON and SunSpec. This theory imports all others; what follows is the guide to them.

  \<^bold>\<open>The program.\<close> Every value has a name. Its producer (a CAN frame, a MODBUS register, an MQTT topic, a JSON
  path, an energy counter or a calculated value) dispatches it by name; the dispatcher stores it and calls
  the outputs registered for the name: CAN frames, MODBUS registers, MQTT topics, counters and triggers of
  calculated values. SunSpec servers, the MQTT logger and calculated values also read stored values. A watchdog
  replaces values that are no longer delivered. \<open>main\<close> starts the modules, receives CAN frames in its loop
  and takes everything down again; every other module has threads of its own.

  \<^bold>\<open>The theories.\<close> Definitions carry the names of the C functions where Isabelle allows it.

  \<^item> \<open>Prelude\<close>: simplification collections, C division, \<open>int\<close> sums that wrap (\<open>s32\<close>), log messages, facts on lists, and the contracts shared
    by several modules: \<open>edge_logger\<close> (a change of state is logged once), \<open>aligned_timer\<close> (a periodic deadline
    skips what was missed), \<open>byte_codec\<close> (fixed width encodings).
  \<^item> \<open>CDouble\<close>, \<open>Float32\<close>: \<open>double\<close> and \<open>float\<close> as exact rationals with signed zero, infinities and NaN, each
    operation rounded once; \<open>utl_val_limit\<close>; the bit patterns of \<open>float\<close>. The locale \<open>float_format\<close> holds
    what does not depend on the width.
  \<^item> \<open>Number_Text\<close>, \<open>Fmt_G\<close>, \<open>Printf\<close>: \<open>strtod\<close>, \<open>%.6f\<close>, \<open>%.15g\<close> and the directives of a double in a format.
  \<^item> \<open>Utils\<close> (utils.c): clock, clock synchronisation, descriptor sets of \<open>select\<close>.
  \<^item> \<open>Lifecycle\<close>: the loops by which a module starts and stops its units, the ledger of the resources they
    hold, with what each needs to start and uses while it is held, and the contract \<open>startable\<close> of a unit.
  \<^item> \<open>Dispatch\<close> (uvrgw_conf.c): the dispatchers (\<open>dnode\<close> for \<open>UVRGW_CONF_VAL_DISPATCH_T\<close>), registration,
    \<open>uvrgw_conf_disp_val\<close>, \<open>uvrgw_conf_get_val\<close>, the watchdog thread, \<open>uvrgw_conf_config_childs\<close>. A pointer to a
    dispatcher is its index in the list. The locale \<open>value_cell\<close> is what readers may rely on. \<open>Watchdog\<close> has the
    runs of the watchdog over all dispatchers.
  \<^item> \<open>Config_Parse\<close> (uvrgw_conf.c): the keyword tables and \<open>parse_can_id\<close>.
  \<^item> \<open>Counter\<close> (counter.c): counters, their thread and their state files. The directory is a map from names to
    contents; a save is a sequence of file operations that a crash may cut anywhere.
  \<^item> \<open>Can\<close> (can.c): frames as lists of 8 bytes, reception, the send buffer, the transmit thread, time stamps,
    the interfaces' sockets and threads.
  \<^item> \<open>Modbus\<close> (mb.c): configuration and its checks, registers, the write queue, the scheduling of one master,
    connections and their startup. \<open>Modbus_Poll\<close> has the properties of runs.
  \<^item> \<open>Te_Expr\<close>, \<open>Te_Parse\<close> (tinyexpr.c): trees, evaluation and constant folding; lexer, recursive descent
    and the grammar of what it accepts.
  \<^item> \<open>Eval_Config\<close>, \<open>Eval_Graph\<close>, \<open>Eval\<close> (eval.c): compiling the expressions and diagnosing those that do not
    compile, dependencies, trigger cycles; the thread and the evaluation.
  \<^item> \<open>Mqtt\<close>, \<open>Mqtt_Life\<close> (mqtt.c), \<open>Logger\<close> (mqtt_logger.c): topics, payloads, number formats, callbacks; the
    life of the instances of libmosquitto; snapshots and their schedule.
  \<^item> \<open>Rest\<close> (rest.c): transfers, paths into the document, a poll.
  \<^item> \<open>Sunspec\<close>, \<open>Sunspec_Image\<close>, \<open>Sunspec_Clients\<close> (sunspec.c): the register image of a meter, requests, the
    client slots of a server, its startup and shutdown.
  \<^item> \<open>Links\<close>: startup and shutdown of CAN, MODBUS and SunSpec after their configuration; what \<open>select\<close> watches.
  \<^item> \<open>Slots\<close>, \<open>Conf_Load\<close> (uvrgw_conf.c): the contract \<open>conf_module\<close> of a module's configuration, \<open>uvrgw_conf_load\<close>.
  \<^item> \<open>Gateway\<close> (main.c): the order of startup and shutdown, the event loop, the signal handler.
\<close>

text \<open>
  \<^bold>\<open>What the properties show.\<close> Those stated for the program have a number C1, C2, ... in front.

  \<^item> Dispatching reaches every output once; stale data is not served as valid, and never longer than the
    timeout and the interval of the checks after it arrived.
  \<^item> Published totals never decrease and (without max_power, for integer readings and scales) count exactly
    what the device counted; every counter produces its own name; saving is atomic, a broken file does not reset the history, a restart keeps the state (of totals that six decimals represent).
  \<^item> Accepted configurations are sound: no byte or register outside its buffer is addressed, unless a pos or
    reg is so close to the largest \<open>int\<close> that the sum of the check overflows (such values are accepted:
    \<open>can_pos_overflow_accepted\<close>, \<open>mb_reg_overflow_accepted\<close>), and the slots reserved for outputs are exactly
    those that are registered.
  \<^item> Values survive the way through CAN frames, MODBUS registers, MQTT payloads and the SunSpec image, up to
    the rounding of the type.
  \<^item> MODBUS dispatches good registers only, starves no slave, and loses no queued value; the compiler of
    expressions ends, accepts sentences of its grammar only, yields well-formed trees, keeps their value when it folds constants, and its error
    messages name the culprit.
  \<^item> Dependencies and the search for trigger cycles are exact (as transitive closure of what expressions
    read); calculated values are finite, keep their number when a result is not, and are valid only if it is and
    all they depend on are; no trigger is lost.
  \<^item> Number formats are accepted exactly if they are safe for \<open>printf\<close>; snapshots fit their buffers.
  \<^item> Startup is all or nothing, shutdown gives back each resource once and joins threads before what they use
    is closed: for the links (\<open>Links\<close>), the instances of libmosquitto (\<open>Mqtt_Life\<close>) and the process (\<open>Gateway\<close>).

  \<^bold>\<open>Interfaces.\<close> Each locale is interpreted on the model's own definitions: \<open>edge_logger\<close> for the logs of CAN,
  MODBUS, MQTT, REST, SunSpec, eval and the logger; \<open>aligned_timer\<close> for eval and the logger; \<open>byte_codec\<close> for
  CAN, MODBUS and SunSpec values; \<open>startable\<close> for CAN interfaces, MODBUS masters, SunSpec servers and the
  thread of a module; \<open>conf_module\<close> for the seven modules; \<open>float_format\<close> for both widths; \<open>value_cell\<close> for a
  dispatcher.

  \<^bold>\<open>Termination and fuel.\<close> Loops are structural recursion or have a measure. Three are not: \<open>parse\<close> takes fuel,
  of which \<open>te_compile\<close> gives 20 times the length of the text plus 12 (\<open>compile_terminates\<close> shows that it is
  enough: each token costs at most 20 calls); \<open>visit\<close> takes the number of evals (\<open>check_cycles_exact\<close>: a path
  without a repetition is no longer); \<open>close_inputs\<close> is a partial function, shown to end by
  \<open>dependencies_exact\<close>. Loops of threads are modelled by one pass each, or by runs over lists of what happens.

  \<^bold>\<open>Integers.\<close> Registers, image words, frame bytes and identifiers on the wire are words of their width. The
  \<open>int\<close> values of the configuration are integers in the range of the C type; the two sums of them that
  a check relies on (the end of a CAN value, the last register of a MODBUS value) wrap at 32 bits, as gcc's
  code does. Ticks are \<open>int64_t\<close> milliseconds, which do not overflow.

  \<^bold>\<open>Parameters.\<close> What is not code of the repository is an argument: the functions of libm and the width of
  \<open>unsigned long\<close> (\<open>c_env\<close>), \<open>localtime_r\<close> and \<open>mktime\<close>, clocks, outcomes of system calls, the functions of libmodbus
  (record \<open>modbus\<close>, on an environment), the outcomes of libmosquitto's calls, the chunks that libcurl delivers,
  the tokener of json-c, and what libconfuse reads from the file (record \<open>conf\<close>). Facts about them are named
  hypotheses of the properties that need them. Strings are those of the C locale.

  \<^bold>\<open>Not modelled.\<close> Allocation, its failure, and freeing (the \<open>*_unconfigure\<close> functions, the loop of
  \<open>uvrgw_conf_cleanup\<close> and \<open>te_free\<close> do nothing else): no operation depends on an address. The functions
  \<open>*_init\<close> reset the module variables, which start empty here. Locks: each makes the operation under it
  atomic, and the model's steps are those operations; the interleavings of threads are the sequences of
  steps the properties range over. The text of log messages beyond a fixed part, the debug output of
  \<open>te_print\<close>, libconfuse's syntax of the file, the end-to-end tests (Python, with a shim in C) and the files for
  buildroot are left out. The parser's errors for exhausted memory and the closures of tinyexpr, which the
  program does not use, are left out as well.
\<close>

end
